(* ===== verification/NKV_Prelude.thy ===== *)
theory NKV_Prelude
  imports Main "HOL-Library.Word" "HOL-Library.AList"
begin

text \<open>
  Shared vocabulary of the development: the machine integer types of the C++ sources, raw byte
  strings, \<open>Status\<close> and \<open>Result\<close> from \<^verbatim>\<open>src/src/common\<close>, the lemma collections the component
  theories fill, and the generic facts on lists, association lists and sums they share.

  \<^item> \<^verbatim>\<open>uint8_t\<close>, \<^verbatim>\<open>uint16_t\<close>, \<^verbatim>\<open>uint32_t\<close>, \<^verbatim>\<open>uint64_t\<close> are words of that width, so arithmetic wraps
    exactly as the unsigned arithmetic of C++ does.
  \<^item> \<^verbatim>\<open>std::string\<close> keys and values and \<^verbatim>\<open>std::vector<uint8_t>\<close> buffers are both byte lists: the
    program never interprets the characters of a key or a value.
  \<^item> A \<^verbatim>\<open>Result<T>\<close> is a sum: \<open>Inl\<close> carries the error \<open>Status\<close>, \<open>Inr\<close> the value.
\<close>

unbundle bit_operations_syntax

section \<open>Types\<close>

type_synonym u8 = "8 word"
type_synonym u16 = "16 word"
type_synonym u32 = "32 word"
type_synonym u64 = "64 word"
type_synonym bytes = "u8 list"

section \<open>Status and Result\<close>

datatype ErrorCode =
    ErrorCode_kOk
  | ErrorCode_kNotFound
  | ErrorCode_kInvalidArgument
  | ErrorCode_kIOError
  | ErrorCode_kInternal

record Status =
  code :: ErrorCode
  message :: string

definition Status_Ok :: Status where
  "Status_Ok = \<lparr>code = ErrorCode_kOk, message = ''''\<rparr>"

definition Status_Error :: "ErrorCode \<Rightarrow> string \<Rightarrow> Status" where
  "Status_Error c m = \<lparr>code = c, message = m\<rparr>"

definition ok :: "Status \<Rightarrow> bool" where
  "ok s \<longleftrightarrow> code s = ErrorCode_kOk"

type_synonym 'a Result = "Status + 'a"

text \<open>
  \<^verbatim>\<open>Result<T>::ok()\<close> and \<^verbatim>\<open>Result<T>::status()\<close>. \<^verbatim>\<open>Result<T>::value()\<close> is the \<open>Inr\<close> component.
\<close>

definition Result_ok :: "'a Result \<Rightarrow> bool" where
  "Result_ok r = (case r of Inl _ \<Rightarrow> False | Inr _ \<Rightarrow> True)"

definition Result_status :: "'a Result \<Rightarrow> Status" where
  "Result_status r = (if Result_ok r then Status_Ok else projl r)"

text \<open>
  The early-return idiom \<^verbatim>\<open>if (!(status = step).ok()) return status;\<close>: run the step, stop at its error.
\<close>

definition bind_r :: "'a Result \<Rightarrow> ('a \<Rightarrow> 'b Result) \<Rightarrow> 'b Result" where
  "bind_r r f = (case r of Inl e \<Rightarrow> Inl e | Inr x \<Rightarrow> f x)"

text \<open>\<^verbatim>\<open>std::to_string\<close> of an unsigned number.\<close>

function to_string :: "nat \<Rightarrow> string" where
  "to_string n = (if n < 10 then [char_of (48 + n)] else to_string (n div 10) @ [char_of (48 + n mod 10)])"
  by pat_completeness auto
termination by (relation "measure id") auto

declare to_string.simps [simp del]

text \<open>The same of an \<^verbatim>\<open>int\<close>.\<close>

definition int_string :: "int \<Rightarrow> string" where
  "int_string n = (if n < 0 then ''-'' @ to_string (nat (- n)) else to_string (nat n))"

section \<open>Lemma collections\<close>

named_theorems be_simps \<open>big-endian readers applied to big-endian writers\<close>
named_theorems codec_defs \<open>definitions of the wire and disk encoders\<close>
named_theorems status_simps \<open>evaluation of Status and Result\<close>

section \<open>Status and Result: evaluation\<close>

lemma ok_Status_Ok [simp, status_simps]: "ok Status_Ok"
  by (simp add: ok_def Status_Ok_def)

lemma ok_Status_Error [simp, status_simps]: "ok (Status_Error c m) \<longleftrightarrow> c = ErrorCode_kOk"
  by (simp add: ok_def Status_Error_def)

lemma code_Status_Error [simp, status_simps]: "code (Status_Error c m) = c"
  by (simp add: Status_Error_def)

lemma code_Status_Ok [simp, status_simps]: "code Status_Ok = ErrorCode_kOk"
  by (simp add: Status_Ok_def)

lemma Status_Error_neq_Ok [simp, status_simps]:
  "c \<noteq> ErrorCode_kOk \<Longrightarrow> Status_Error c m \<noteq> Status_Ok"
  by (simp add: Status_Error_def Status_Ok_def)

lemma Result_ok_simps [simp, status_simps]: "Result_ok (Inr x)" "\<not> Result_ok (Inl e)"
  by (simp_all add: Result_ok_def)

lemma Result_status_simps [simp, status_simps]:
  "Result_status (Inr x) = Status_Ok" "Result_status (Inl e) = e"
  by (simp_all add: Result_status_def)

lemma bind_r_simps [simp, status_simps]: "bind_r (Inl e) f = Inl e" "bind_r (Inr x) f = f x"
  by (simp_all add: bind_r_def)

lemma bind_r_eq_Inr_iff: "bind_r r f = Inr y \<longleftrightarrow> (\<exists>x. r = Inr x \<and> f x = Inr y)"
  by (cases r) auto

lemma bind_r_eq_Inl_iff: "bind_r r f = Inl e \<longleftrightarrow> r = Inl e \<or> (\<exists>x. r = Inr x \<and> f x = Inl e)"
  by (cases r) auto

text \<open>A chain of guarded early returns succeeds iff every guard is passed.\<close>

lemma if_Inl_eq_Inr: "(if c then Inl e else x) = Inr y \<longleftrightarrow> \<not> c \<and> x = Inr y"
  by simp

section \<open>Lists\<close>

lemma take_append_exact [simp]: "length xs = n \<Longrightarrow> take n (xs @ ys) = xs"
  by simp

lemma drop_append_exact [simp]: "length xs = n \<Longrightarrow> drop n (xs @ ys) = ys"
  by simp

lemma drop_numeral_plus_Cons [simp]: "drop (numeral k + n) (x # xs) = drop (pred_numeral k + n) xs"
  by (simp add: numeral_eq_Suc)

lemma drop_eq_append_imp:
  assumes "drop n p = xs @ ys"
  shows "drop (n + length xs) p = ys"
proof -
  have "drop (n + length xs) p = drop (length xs) (drop n p)"
    by (simp add: add.commute)
  then show ?thesis by (simp add: assms)
qed

section \<open>Association lists\<close>

text \<open>
  \<^verbatim>\<open>std::unordered_map\<close> is an association list without repeated keys; iteration order is never
  observable in the modelled code, since every loop over such a map is order independent.
\<close>

lemma distinct_keys_update: "distinct (map fst m) \<Longrightarrow> distinct (map fst (AList.update k v m))"
  by (rule distinct_update)

lemma distinct_keys_delete: "distinct (map fst m) \<Longrightarrow> distinct (map fst (AList.delete k m))"
  by (rule distinct_delete)

lemma length_eq_card_dom_map_of:
  assumes "distinct (map fst m)"
  shows "length m = card (dom (map_of m))"
  using distinct_card [OF assms] by (simp add: dom_map_of_conv_image_fst)

end
