(* ===== verification/Big_Endian.thy ===== *)
theory Big_Endian
  imports NKV_Prelude
begin

text \<open>
  The big-endian integer readers and writers. The sources define them several times, in the anonymous
  namespaces of \<^verbatim>\<open>protocol/codec.cpp\<close>, \<^verbatim>\<open>persistence/wal_record.cpp\<close>, \<^verbatim>\<open>raft/rpc_codec.cpp\<close> and
  \<^verbatim>\<open>raft/node.cpp\<close>, with the same bodies. A reader takes the bytes starting at its pointer argument.
  The lemmas show that each reader inverts its writer and the other way round, whatever follows.
\<close>

section \<open>Writers and readers\<close>

definition WriteU8 :: "bytes \<Rightarrow> u8 \<Rightarrow> bytes" where
  "WriteU8 out v = out @ [v]"

definition WriteU16BE :: "bytes \<Rightarrow> u16 \<Rightarrow> bytes" where
  "WriteU16BE out v = out @ [ucast (drop_bit 8 v), ucast v]"

definition WriteU32BE :: "bytes \<Rightarrow> u32 \<Rightarrow> bytes" where
  "WriteU32BE out v =
     out @ [ucast (drop_bit 24 v), ucast (drop_bit 16 v), ucast (drop_bit 8 v), ucast v]"

definition WriteU64BE :: "bytes \<Rightarrow> u64 \<Rightarrow> bytes" where
  "WriteU64BE out v =
     fold (\<lambda>shift out. out @ [ucast (drop_bit shift v)]) [56, 48, 40, 32, 24, 16, 8, 0] out"

definition ReadU16BE :: "bytes \<Rightarrow> u16" where
  "ReadU16BE p = push_bit 8 (ucast (p ! 0)) OR ucast (p ! 1)"

definition ReadU32BE :: "bytes \<Rightarrow> u32" where
  "ReadU32BE p =
     push_bit 24 (ucast (p ! 0)) OR push_bit 16 (ucast (p ! 1)) OR
     push_bit 8 (ucast (p ! 2)) OR ucast (p ! 3)"

definition ReadU64BE :: "bytes \<Rightarrow> u64" where
  "ReadU64BE p = fold (\<lambda>i value. push_bit 8 value OR ucast (p ! i)) [0, 1, 2, 3, 4, 5, 6, 7] 0"

text \<open>The writers of \<^verbatim>\<open>raft/node.cpp\<close> store at a pointer, here an offset into a buffer.\<close>

definition PutU32BE :: "bytes \<Rightarrow> nat \<Rightarrow> u32 \<Rightarrow> bytes" where
  "PutU32BE buf p v =
     buf[p := ucast (drop_bit 24 v), p + 1 := ucast (drop_bit 16 v), p + 2 := ucast (drop_bit 8 v), p + 3 := ucast v]"

definition PutU64BE :: "bytes \<Rightarrow> nat \<Rightarrow> u64 \<Rightarrow> bytes" where
  "PutU64BE buf p v = fold (\<lambda>i buf. buf[p + i := ucast (drop_bit (56 - 8 * i) v)]) [0, 1, 2, 3, 4, 5, 6, 7] buf"

section \<open>Shape of the written bytes\<close>

text \<open>The two ways to write agree: storing into a buffer is appending to what is before the offset.\<close>

lemma update_after:
  "(out @ xs)[length out + i := x] = out @ xs[i := x]" "(out @ xs)[length out := x] = out @ xs[0 := x]"
  "(out @ xs)[Suc (length out) := x] = out @ xs[1 := x]" "(out @ xs)[Suc (Suc (length out)) := x] = out @ xs[2 := x]"
  by (simp_all add: list_update_append)

lemma update_pair: "(b # xs)[numeral n := x] = b # xs[pred_numeral n := x]" "(b # xs)[1 := x] = b # xs[0 := x]"
  by (simp_all add: numeral_eq_Suc)

lemma PutU32BE_append:
  assumes "length buf = 4"
  shows "PutU32BE (out @ buf @ rest) (length out) v = WriteU32BE out v @ rest"
proof -
  obtain b0 b1 b2 b3 where "buf = [b0, b1, b2, b3]" using assms by (auto simp: numeral_eq_Suc length_Suc_conv)
  then show ?thesis by (simp add: PutU32BE_def WriteU32BE_def update_after update_pair)
qed

lemma PutU64BE_append:
  assumes "length buf = 8"
  shows "PutU64BE (out @ buf @ rest) (length out) v = WriteU64BE out v @ rest"
proof -
  obtain b0 b1 b2 b3 b4 b5 b6 b7 where "buf = [b0, b1, b2, b3, b4, b5, b6, b7]" using assms by (auto simp: numeral_eq_Suc length_Suc_conv)
  then show ?thesis by (simp add: PutU64BE_def WriteU64BE_def update_after update_pair)
qed

lemma WriteU16BE_append: "WriteU16BE out v = out @ WriteU16BE [] v"
  by (simp add: WriteU16BE_def)

lemma WriteU32BE_append: "WriteU32BE out v = out @ WriteU32BE [] v"
  by (simp add: WriteU32BE_def)

lemma WriteU64BE_append: "WriteU64BE out v = out @ WriteU64BE [] v"
  by (simp add: WriteU64BE_def)

lemma length_writers [simp]:
  "length (WriteU8 out b) = length out + 1"
  "length (WriteU16BE out h) = length out + 2"
  "length (WriteU32BE out w) = length out + 4"
  "length (WriteU64BE out d) = length out + 8"
  by (simp_all add: WriteU8_def WriteU16BE_def WriteU32BE_def WriteU64BE_def)

text \<open>The twelve bytes that a Raft node stores.\<close>

lemma state_buffer: "length buf = 12 \<Longrightarrow> PutU32BE (PutU64BE buf 0 d) 8 w = WriteU32BE (WriteU64BE [] d) w"
  using PutU64BE_append [of "take 8 buf" "[]" "drop 8 buf" d] PutU32BE_append [of "drop 8 buf" "WriteU64BE [] d" "[]" w]
  by simp

lemma state_buffer_zero [simp]: "PutU32BE (PutU64BE (replicate 12 0) 0 d) 8 w = WriteU32BE (WriteU64BE [] d) w"
  by (rule state_buffer) simp

section \<open>Round trips\<close>

text \<open>One step of the Horner loop: the bits above \<open>k + 8\<close> shifted up, joined with the byte at \<open>k\<close>.\<close>

lemma horner_byte:
  "push_bit 8 (drop_bit (k + 8) v) OR ucast (ucast (drop_bit k v) :: u8) = drop_bit k (v :: 'a::len word)"
  by (rule bit_word_eqI) (auto simp: bit_simps dest: bit_imp_le_length)

lemma ReadU16BE_Write [be_simps]: "ReadU16BE (WriteU16BE [] v @ rest) = v"
  unfolding ReadU16BE_def WriteU16BE_def
  by (rule bit_word_eqI) (auto simp: bit_simps)

lemma ReadU32BE_horner:
  "ReadU32BE p = fold (\<lambda>i value. push_bit 8 value OR ucast (p ! i)) [0, 1, 2, 3] 0"
  by (simp add: ReadU32BE_def push_bit_or or.assoc)

lemma drop_bit_length_64 [simp]: "drop_bit 64 (v :: u64) = 0"
  by (rule bit_word_eqI) (simp add: bit_simps)

lemma drop_bit_length_32 [simp]: "drop_bit 32 (v :: u32) = 0"
  by (rule bit_word_eqI) (simp add: bit_simps)

lemmas horner_bytes_32 =
  horner_byte [where k = 24 and v = v, simplified] horner_byte [where k = 16 and v = v, simplified]
  horner_byte [where k = 8 and v = v, simplified] horner_byte [where k = 0 and v = v, simplified]
  for v :: u32

lemmas horner_bytes_64 =
  horner_byte [where k = 56 and v = v, simplified] horner_byte [where k = 48 and v = v, simplified]
  horner_byte [where k = 40 and v = v, simplified] horner_byte [where k = 32 and v = v, simplified]
  horner_byte [where k = 24 and v = v, simplified] horner_byte [where k = 16 and v = v, simplified]
  horner_byte [where k = 8 and v = v, simplified] horner_byte [where k = 0 and v = v, simplified]
  for v :: u64

lemma ReadU32BE_Write [be_simps]: "ReadU32BE (WriteU32BE [] v @ rest) = v"
  by (simp add: ReadU32BE_horner WriteU32BE_def horner_bytes_32)

lemma ReadU64BE_Write [be_simps]: "ReadU64BE (WriteU64BE [] v @ rest) = v"
  by (simp add: ReadU64BE_def WriteU64BE_def horner_bytes_64)

lemma Read_Write_exact [be_simps]:
  "ReadU16BE (WriteU16BE [] h) = h" "ReadU32BE (WriteU32BE [] w) = w" "ReadU64BE (WriteU64BE [] d) = d"
  using ReadU16BE_Write [of h "[]"] ReadU32BE_Write [of w "[]"] ReadU64BE_Write [of d "[]"] by simp_all

text \<open>
  The writers are injective and hit as many byte lists as there are words, so every byte list of the
  right length is written by exactly the word the reader returns for it.
\<close>

lemma writer_surj:
  fixes wr :: "'a::len word \<Rightarrow> bytes"
  assumes inj: "inj wr" and len: "\<And>v. length (wr v) = n" and size: "LENGTH('a) = 8 * n"
    and bs: "length bs = n"
  shows "bs \<in> range wr"
proof -
  let ?L = "{xs :: bytes. length xs = n}"
  have L: "?L = {xs. set xs \<subseteq> (UNIV :: u8 set) \<and> length xs = n}" by auto
  have fin: "finite ?L" unfolding L by (rule finite_lists_length_eq) simp
  have "card ?L = card (UNIV :: u8 set) ^ n"
    unfolding L by (rule card_lists_length_eq) simp
  also have "\<dots> = 2 ^ (8 * n)" by (simp add: card_word power_mult)
  also have "\<dots> = card (range wr)" by (simp add: card_image [OF inj] card_word size)
  finally have "range wr = ?L"
    using fin len by (intro card_subset_eq) auto
  then show ?thesis using bs by auto
qed

lemma WriteU16BE_Read [be_simps]: "length bs = 2 \<Longrightarrow> WriteU16BE [] (ReadU16BE (bs @ rest)) = bs"
proof -
  assume "length bs = 2"
  moreover have "inj (WriteU16BE [])"
    by (rule inj_on_inverseI [where g = ReadU16BE]) (simp add: be_simps)
  ultimately obtain v where "bs = WriteU16BE [] v"
    using writer_surj [of "WriteU16BE []" 2 bs] by auto
  then show ?thesis by (simp add: be_simps)
qed

lemma WriteU32BE_Read [be_simps]: "length bs = 4 \<Longrightarrow> WriteU32BE [] (ReadU32BE (bs @ rest)) = bs"
proof -
  assume "length bs = 4"
  moreover have "inj (WriteU32BE [])"
    by (rule inj_on_inverseI [where g = ReadU32BE]) (simp add: be_simps)
  ultimately obtain v where "bs = WriteU32BE [] v"
    using writer_surj [of "WriteU32BE []" 4 bs] by auto
  then show ?thesis by (simp add: be_simps)
qed

lemma WriteU64BE_Read [be_simps]: "length bs = 8 \<Longrightarrow> WriteU64BE [] (ReadU64BE (bs @ rest)) = bs"
proof -
  assume "length bs = 8"
  moreover have "inj (WriteU64BE [])"
    by (rule inj_on_inverseI [where g = ReadU64BE]) (simp add: be_simps)
  ultimately obtain v where "bs = WriteU64BE [] v"
    using writer_surj [of "WriteU64BE []" 8 bs] by auto
  then show ?thesis by (simp add: be_simps)
qed

section \<open>Reading at an offset splits the buffer\<close>

lemma split_u16_at:
  assumes "offset + 2 \<le> length p" "next = offset + 2" "v = ReadU16BE (drop offset p)"
  shows "drop offset p = WriteU16BE [] v @ drop next p"
  using assms WriteU16BE_Read [of "take 2 (drop offset p)" "drop 2 (drop offset p)"]
    append_take_drop_id [of 2 "drop offset p"] by (simp add: add.commute)

lemma split_u32_at:
  assumes "offset + 4 \<le> length p" "next = offset + 4" "v = ReadU32BE (drop offset p)"
  shows "drop offset p = WriteU32BE [] v @ drop next p"
  using assms WriteU32BE_Read [of "take 4 (drop offset p)" "drop 4 (drop offset p)"]
    append_take_drop_id [of 4 "drop offset p"] by (simp add: add.commute)

lemma split_u64_at:
  assumes "offset + 8 \<le> length p" "next = offset + 8" "v = ReadU64BE (drop offset p)"
  shows "drop offset p = WriteU64BE [] v @ drop next p"
  using assms WriteU64BE_Read [of "take 8 (drop offset p)" "drop 8 (drop offset p)"]
    append_take_drop_id [of 8 "drop offset p"] by (simp add: add.commute)

lemma split_u8_at:
  "offset + 1 \<le> length p \<Longrightarrow> next = offset + 1 \<Longrightarrow> drop offset p = [p ! offset] @ drop next p"
  by (simp add: Cons_nth_drop_Suc)

lemma split_bytes_at: "next = offset + n \<Longrightarrow> drop offset p = take n (drop offset p) @ drop next p"
  using append_take_drop_id [of n "drop offset p"] by (simp add: add.commute)

end
