(* ===== verification/Protocol_Codec.thy ===== *)
theory Protocol_Codec
  imports Big_Endian
begin

text \<open>
  The framed wire protocol of \<^verbatim>\<open>src/src/protocol\<close>: the message structures of \<^verbatim>\<open>types.h\<close>, the frame
  constants of \<^verbatim>\<open>constants.h\<close>, the four encoders, the four payload decoders and the incremental frame
  parser \<^verbatim>\<open>TryParseFrame\<close> of \<^verbatim>\<open>codec.cpp\<close>.

  An encoder's out-parameter is its \<open>Inr\<close> result; on an error it is left alone. A decoder assigns its
  out-parameter only on success, so it returns the decoded structure in \<open>Inr\<close>. \<^verbatim>\<open>TryParseFrame\<close> returns
  its verdict, the buffer it leaves behind, and the frame it decoded. Sizes (\<^verbatim>\<open>std::size_t\<close>) are naturals:
  they are lengths of lists held in memory.

  The lemmas show that the parser inverts the encoders, accepts nothing else, waits for more input on
  every proper prefix of a frame, and consumes at least a header whenever it completes.
\<close>

section \<open>Message structures\<close>

datatype MessageType =
    MessageType_kClientRequest
  | MessageType_kClientResponse
  | MessageType_kClusterRequest
  | MessageType_kClusterResponse

definition MessageType_byte :: "MessageType \<Rightarrow> u8" where
  "MessageType_byte t = (case t of
     MessageType_kClientRequest \<Rightarrow> 0x01 | MessageType_kClientResponse \<Rightarrow> 0x02
   | MessageType_kClusterRequest \<Rightarrow> 0x10 | MessageType_kClusterResponse \<Rightarrow> 0x11)"

datatype Opcode = Opcode_kSet | Opcode_kGet | Opcode_kDelete

definition Opcode_byte :: "Opcode \<Rightarrow> u8" where
  "Opcode_byte c = (case c of Opcode_kSet \<Rightarrow> 1 | Opcode_kGet \<Rightarrow> 2 | Opcode_kDelete \<Rightarrow> 3)"

text \<open>\<^verbatim>\<open>static_cast<Opcode>(byte)\<close>, used only after the range check on the byte.\<close>

definition Opcode_of_byte :: "u8 \<Rightarrow> Opcode" where
  "Opcode_of_byte b = (if b = 1 then Opcode_kSet else if b = 2 then Opcode_kGet else Opcode_kDelete)"

datatype ResponseStatus =
    ResponseStatus_kOk
  | ResponseStatus_kNotFound
  | ResponseStatus_kBadRequest
  | ResponseStatus_kInternalError
  | ResponseStatus_kWrongLeader

definition ResponseStatus_word :: "ResponseStatus \<Rightarrow> u16" where
  "ResponseStatus_word s = (case s of
     ResponseStatus_kOk \<Rightarrow> 0 | ResponseStatus_kNotFound \<Rightarrow> 1 | ResponseStatus_kBadRequest \<Rightarrow> 2
   | ResponseStatus_kInternalError \<Rightarrow> 3 | ResponseStatus_kWrongLeader \<Rightarrow> 4)"

definition ResponseStatus_of_word :: "u16 \<Rightarrow> ResponseStatus" where
  "ResponseStatus_of_word w =
     (if w = 0 then ResponseStatus_kOk else if w = 1 then ResponseStatus_kNotFound
      else if w = 2 then ResponseStatus_kBadRequest else if w = 3 then ResponseStatus_kInternalError
      else ResponseStatus_kWrongLeader)"

datatype ClusterOpcode =
    ClusterOpcode_kPing
  | ClusterOpcode_kPong
  | ClusterOpcode_kRequestVote
  | ClusterOpcode_kAppendEntries

definition ClusterOpcode_byte :: "ClusterOpcode \<Rightarrow> u8" where
  "ClusterOpcode_byte c = (case c of
     ClusterOpcode_kPing \<Rightarrow> 1 | ClusterOpcode_kPong \<Rightarrow> 2
   | ClusterOpcode_kRequestVote \<Rightarrow> 3 | ClusterOpcode_kAppendEntries \<Rightarrow> 4)"

definition ClusterOpcode_of_byte :: "u8 \<Rightarrow> ClusterOpcode" where
  "ClusterOpcode_of_byte b =
     (if b = 1 then ClusterOpcode_kPing else if b = 2 then ClusterOpcode_kPong
      else if b = 3 then ClusterOpcode_kRequestVote else ClusterOpcode_kAppendEntries)"

record ClientRequest =
  creq_request_id :: u64
  creq_opcode :: Opcode
  creq_key :: bytes
  creq_value :: bytes

record ClientResponse =
  cresp_request_id :: u64
  cresp_status :: ResponseStatus
  cresp_value :: bytes
  cresp_leader_hint :: u32

record ClusterRequest =
  clreq_request_id :: u64
  clreq_opcode :: ClusterOpcode
  clreq_body :: bytes

record ClusterResponse =
  clresp_request_id :: u64
  clresp_status :: ResponseStatus
  clresp_body :: bytes

datatype ParseResult = ParseResult_kNeedMore | ParseResult_kComplete | ParseResult_kError

definition kMagic :: u16 where "kMagic = 0x4E4B"

definition kProtocolVersion :: u8 where "kProtocolVersion = 0x01"

definition kFrameHeaderSize :: nat where "kFrameHeaderSize = 8"

definition kMaxPayloadSize :: u32 where "kMaxPayloadSize = 16 * 1024 * 1024"

section \<open>Encoders\<close>

definition EncodeClientRequest :: "ClientRequest \<Rightarrow> bytes Result" where
  "EncodeClientRequest req =
     (if creq_key req = [] then
        Inl (Status_Error ErrorCode_kInvalidArgument ''key must not be empty'')
      else if creq_opcode req = Opcode_kSet \<and> creq_value req = [] then
        Inl (Status_Error ErrorCode_kInvalidArgument ''SET requires a non-empty value'')
      else if creq_opcode req \<noteq> Opcode_kSet \<and> creq_value req \<noteq> [] then
        Inl (Status_Error ErrorCode_kInvalidArgument ''GET/DELETE must not carry a value'')
      else
        let payload_size = 8 + 1 + 4 + length (creq_key req) + 4 + length (creq_value req) in
        if payload_size > unat kMaxPayloadSize then
          Inl (Status_Error ErrorCode_kInvalidArgument ''payload exceeds max size'')
        else
          let out = WriteU16BE [] kMagic;
              out = out @ [kProtocolVersion];
              out = out @ [MessageType_byte MessageType_kClientRequest];
              out = WriteU32BE out (of_nat payload_size);
              out = WriteU64BE out (creq_request_id req);
              out = out @ [Opcode_byte (creq_opcode req)];
              out = WriteU32BE out (of_nat (length (creq_key req)));
              out = out @ creq_key req;
              out = WriteU32BE out (of_nat (length (creq_value req)));
              out = out @ creq_value req
          in Inr out)"

definition EncodeClientResponse :: "ClientResponse \<Rightarrow> bytes Result" where
  "EncodeClientResponse resp =
     (let payload_size = 8 + 2 + 4 + length (cresp_value resp) + 4 in
      if payload_size > unat kMaxPayloadSize then
        Inl (Status_Error ErrorCode_kInvalidArgument ''payload exceeds max size'')
      else
        let out = WriteU16BE [] kMagic;
            out = out @ [kProtocolVersion];
            out = out @ [MessageType_byte MessageType_kClientResponse];
            out = WriteU32BE out (of_nat payload_size);
            out = WriteU64BE out (cresp_request_id resp);
            out = WriteU16BE out (ResponseStatus_word (cresp_status resp));
            out = WriteU32BE out (of_nat (length (cresp_value resp)));
            out = out @ cresp_value resp;
            out = WriteU32BE out (cresp_leader_hint resp)
        in Inr out)"

definition EncodeClusterRequest :: "ClusterRequest \<Rightarrow> bytes Result" where
  "EncodeClusterRequest req =
     (let payload_size = 8 + 1 + 4 + length (clreq_body req) in
      if payload_size > unat kMaxPayloadSize then
        Inl (Status_Error ErrorCode_kInvalidArgument ''payload exceeds max size'')
      else
        let out = WriteU16BE [] kMagic;
            out = out @ [kProtocolVersion];
            out = out @ [MessageType_byte MessageType_kClusterRequest];
            out = WriteU32BE out (of_nat payload_size);
            out = WriteU64BE out (clreq_request_id req);
            out = out @ [ClusterOpcode_byte (clreq_opcode req)];
            out = WriteU32BE out (of_nat (length (clreq_body req)));
            out = out @ clreq_body req
        in Inr out)"

definition EncodeClusterResponse :: "ClusterResponse \<Rightarrow> bytes Result" where
  "EncodeClusterResponse resp =
     (let payload_size = 8 + 2 + 4 + length (clresp_body resp) in
      if payload_size > unat kMaxPayloadSize then
        Inl (Status_Error ErrorCode_kInvalidArgument ''payload exceeds max size'')
      else
        let out = WriteU16BE [] kMagic;
            out = out @ [kProtocolVersion];
            out = out @ [MessageType_byte MessageType_kClusterResponse];
            out = WriteU32BE out (of_nat payload_size);
            out = WriteU64BE out (clresp_request_id resp);
            out = WriteU16BE out (ResponseStatus_word (clresp_status resp));
            out = WriteU32BE out (of_nat (length (clresp_body resp)));
            out = out @ clresp_body resp
        in Inr out)"

section \<open>Decoders\<close>

definition TruncatedPayload :: Status where
  "TruncatedPayload = Status_Error ErrorCode_kInvalidArgument ''truncated payload''"

definition DecodeClientRequest :: "bytes \<Rightarrow> ClientRequest Result" where
  "DecodeClientRequest payload =
     (let offset = 0 in
      if length payload < offset + 8 then Inl TruncatedPayload else
      let request_id = ReadU64BE (drop offset payload); offset = offset + 8 in
      if length payload < offset + 1 then Inl TruncatedPayload else
      let opcode_byte = payload ! offset; offset = offset + 1 in
      if opcode_byte < Opcode_byte Opcode_kSet \<or> opcode_byte > Opcode_byte Opcode_kDelete then
        Inl (Status_Error ErrorCode_kInvalidArgument ''unknown opcode'')
      else
      let opcode = Opcode_of_byte opcode_byte in
      if length payload < offset + 4 then Inl TruncatedPayload else
      let key_len = ReadU32BE (drop offset payload); offset = offset + 4 in
      if key_len = 0 then
        Inl (Status_Error ErrorCode_kInvalidArgument ''key must not be empty'')
      else if length payload < offset + unat key_len then Inl TruncatedPayload else
      let key = take (unat key_len) (drop offset payload); offset = offset + unat key_len in
      if length payload < offset + 4 then Inl TruncatedPayload else
      let value_len = ReadU32BE (drop offset payload); offset = offset + 4 in
      if length payload < offset + unat value_len then Inl TruncatedPayload else
      let val = take (unat value_len) (drop offset payload); offset = offset + unat value_len in
      if offset \<noteq> length payload then
        Inl (Status_Error ErrorCode_kInvalidArgument ''trailing bytes after payload'')
      else if opcode = Opcode_kSet \<and> val = [] then
        Inl (Status_Error ErrorCode_kInvalidArgument ''SET requires a non-empty value'')
      else if opcode \<noteq> Opcode_kSet \<and> val \<noteq> [] then
        Inl (Status_Error ErrorCode_kInvalidArgument ''GET/DELETE must not carry a value'')
      else Inr \<lparr>creq_request_id = request_id, creq_opcode = opcode, creq_key = key, creq_value = val\<rparr>)"

definition DecodeClientResponse :: "bytes \<Rightarrow> ClientResponse Result" where
  "DecodeClientResponse payload =
     (let offset = 0 in
      if length payload < offset + 8 then Inl TruncatedPayload else
      let request_id = ReadU64BE (drop offset payload); offset = offset + 8 in
      if length payload < offset + 2 then Inl TruncatedPayload else
      let status_code = ReadU16BE (drop offset payload); offset = offset + 2 in
      if status_code > ResponseStatus_word ResponseStatus_kWrongLeader then
        Inl (Status_Error ErrorCode_kInvalidArgument ''unknown response status'')
      else if length payload < offset + 4 then Inl TruncatedPayload else
      let value_len = ReadU32BE (drop offset payload); offset = offset + 4 in
      if length payload < offset + unat value_len then Inl TruncatedPayload else
      let val = take (unat value_len) (drop offset payload); offset = offset + unat value_len in
      if length payload < offset + 4 then Inl TruncatedPayload else
      let leader_hint = ReadU32BE (drop offset payload); offset = offset + 4 in
      if offset \<noteq> length payload then
        Inl (Status_Error ErrorCode_kInvalidArgument ''trailing bytes after payload'')
      else Inr \<lparr>cresp_request_id = request_id, cresp_status = ResponseStatus_of_word status_code,
                 cresp_value = val, cresp_leader_hint = leader_hint\<rparr>)"

definition DecodeClusterRequest :: "bytes \<Rightarrow> ClusterRequest Result" where
  "DecodeClusterRequest payload =
     (let offset = 0 in
      if length payload < offset + 8 then Inl TruncatedPayload else
      let request_id = ReadU64BE (drop offset payload); offset = offset + 8 in
      if length payload < offset + 1 then Inl TruncatedPayload else
      let opcode_byte = payload ! offset; offset = offset + 1 in
      if opcode_byte < ClusterOpcode_byte ClusterOpcode_kPing
         \<or> opcode_byte > ClusterOpcode_byte ClusterOpcode_kAppendEntries then
        Inl (Status_Error ErrorCode_kInvalidArgument ''unknown cluster opcode'')
      else if length payload < offset + 4 then Inl TruncatedPayload else
      let body_len = ReadU32BE (drop offset payload); offset = offset + 4 in
      if length payload < offset + unat body_len then Inl TruncatedPayload else
      let body = take (unat body_len) (drop offset payload); offset = offset + unat body_len in
      if offset \<noteq> length payload then
        Inl (Status_Error ErrorCode_kInvalidArgument ''trailing bytes after payload'')
      else Inr \<lparr>clreq_request_id = request_id, clreq_opcode = ClusterOpcode_of_byte opcode_byte,
                 clreq_body = body\<rparr>)"

definition DecodeClusterResponse :: "bytes \<Rightarrow> ClusterResponse Result" where
  "DecodeClusterResponse payload =
     (let offset = 0 in
      if length payload < offset + 8 then Inl TruncatedPayload else
      let request_id = ReadU64BE (drop offset payload); offset = offset + 8 in
      if length payload < offset + 2 then Inl TruncatedPayload else
      let status_code = ReadU16BE (drop offset payload); offset = offset + 2 in
      if status_code > ResponseStatus_word ResponseStatus_kWrongLeader then
        Inl (Status_Error ErrorCode_kInvalidArgument ''unknown response status'')
      else if length payload < offset + 4 then Inl TruncatedPayload else
      let body_len = ReadU32BE (drop offset payload); offset = offset + 4 in
      if length payload < offset + unat body_len then Inl TruncatedPayload else
      let body = take (unat body_len) (drop offset payload); offset = offset + unat body_len in
      if offset \<noteq> length payload then
        Inl (Status_Error ErrorCode_kInvalidArgument ''trailing bytes after payload'')
      else Inr \<lparr>clresp_request_id = request_id, clresp_status = ResponseStatus_of_word status_code,
                 clresp_body = body\<rparr>)"

section \<open>The incremental frame parser\<close>

text \<open>
  A decoded frame: the out-parameter that \<^verbatim>\<open>TryParseFrame\<close> fills, tagged with \<^verbatim>\<open>*out_type\<close>.
\<close>

datatype Frame =
    Frame_ClientRequest ClientRequest
  | Frame_ClientResponse ClientResponse
  | Frame_ClusterRequest ClusterRequest
  | Frame_ClusterResponse ClusterResponse

definition DecodeFramePayload :: "u8 \<Rightarrow> bytes \<Rightarrow> Frame option" where
  "DecodeFramePayload type_byte payload =
     (if type_byte = MessageType_byte MessageType_kClientRequest then
        (case DecodeClientRequest payload of Inl _ \<Rightarrow> None | Inr req \<Rightarrow> Some (Frame_ClientRequest req))
      else if type_byte = MessageType_byte MessageType_kClientResponse then
        (case DecodeClientResponse payload of Inl _ \<Rightarrow> None | Inr resp \<Rightarrow> Some (Frame_ClientResponse resp))
      else if type_byte = MessageType_byte MessageType_kClusterRequest then
        (case DecodeClusterRequest payload of Inl _ \<Rightarrow> None | Inr req \<Rightarrow> Some (Frame_ClusterRequest req))
      else if type_byte = MessageType_byte MessageType_kClusterResponse then
        (case DecodeClusterResponse payload of Inl _ \<Rightarrow> None | Inr resp \<Rightarrow> Some (Frame_ClusterResponse resp))
      else None)"

definition TryParseFrame :: "bytes \<Rightarrow> ParseResult \<times> bytes \<times> Frame option" where
  "TryParseFrame buffer =
     (if length buffer < kFrameHeaderSize then (ParseResult_kNeedMore, buffer, None)
      else if ReadU16BE buffer \<noteq> kMagic then (ParseResult_kError, [], None)
      else if buffer ! 2 \<noteq> kProtocolVersion then (ParseResult_kError, [], None)
      else
        let type_byte = buffer ! 3; len = ReadU32BE (drop 4 buffer) in
        if len > kMaxPayloadSize then (ParseResult_kError, [], None)
        else
          let frame_size = kFrameHeaderSize + unat len in
          if length buffer < frame_size then (ParseResult_kNeedMore, buffer, None)
          else
            let payload = take (unat len) (drop kFrameHeaderSize buffer) in
            case DecodeFramePayload type_byte payload of
              None \<Rightarrow> (ParseResult_kError, [], None)
            | Some frame \<Rightarrow> (ParseResult_kComplete, drop frame_size buffer, Some frame))"

section \<open>Frames as header and payload\<close>

text \<open>
  The common shape of the four encodings: a header carrying the payload length, then the payload.
\<close>

definition FrameHeader :: "u8 \<Rightarrow> nat \<Rightarrow> bytes" where
  "FrameHeader type_byte n =
     WriteU16BE [] kMagic @ [kProtocolVersion, type_byte] @ WriteU32BE [] (of_nat n)"

definition FrameBytes :: "MessageType \<Rightarrow> bytes \<Rightarrow> bytes" where
  "FrameBytes t payload = FrameHeader (MessageType_byte t) (length payload) @ payload"

fun FrameType :: "Frame \<Rightarrow> MessageType" where
  "FrameType (Frame_ClientRequest _) = MessageType_kClientRequest"
| "FrameType (Frame_ClientResponse _) = MessageType_kClientResponse"
| "FrameType (Frame_ClusterRequest _) = MessageType_kClusterRequest"
| "FrameType (Frame_ClusterResponse _) = MessageType_kClusterResponse"

fun FramePayload :: "Frame \<Rightarrow> bytes" where
  "FramePayload (Frame_ClientRequest r) =
     WriteU64BE [] (creq_request_id r) @ [Opcode_byte (creq_opcode r)]
     @ WriteU32BE [] (of_nat (length (creq_key r))) @ creq_key r
     @ WriteU32BE [] (of_nat (length (creq_value r))) @ creq_value r"
| "FramePayload (Frame_ClientResponse r) =
     WriteU64BE [] (cresp_request_id r) @ WriteU16BE [] (ResponseStatus_word (cresp_status r))
     @ WriteU32BE [] (of_nat (length (cresp_value r))) @ cresp_value r @ WriteU32BE [] (cresp_leader_hint r)"
| "FramePayload (Frame_ClusterRequest r) =
     WriteU64BE [] (clreq_request_id r) @ [ClusterOpcode_byte (clreq_opcode r)]
     @ WriteU32BE [] (of_nat (length (clreq_body r))) @ clreq_body r"
| "FramePayload (Frame_ClusterResponse r) =
     WriteU64BE [] (clresp_request_id r) @ WriteU16BE [] (ResponseStatus_word (clresp_status r))
     @ WriteU32BE [] (of_nat (length (clresp_body r))) @ clresp_body r"

text \<open>Which frames the encoders accept: size, and for client requests the key and value rules.\<close>

fun FrameValid :: "Frame \<Rightarrow> bool" where
  "FrameValid (Frame_ClientRequest r) \<longleftrightarrow>
     creq_key r \<noteq> [] \<and> (creq_opcode r = Opcode_kSet \<longleftrightarrow> creq_value r \<noteq> [])
     \<and> length (FramePayload (Frame_ClientRequest r)) \<le> unat kMaxPayloadSize"
| "FrameValid f \<longleftrightarrow> length (FramePayload f) \<le> unat kMaxPayloadSize"

text \<open>The encoder chosen by the kind of frame.\<close>

fun EncodeFrame :: "Frame \<Rightarrow> bytes Result" where
  "EncodeFrame (Frame_ClientRequest r) = EncodeClientRequest r"
| "EncodeFrame (Frame_ClientResponse r) = EncodeClientResponse r"
| "EncodeFrame (Frame_ClusterRequest r) = EncodeClusterRequest r"
| "EncodeFrame (Frame_ClusterResponse r) = EncodeClusterResponse r"

lemmas Writers_append = WriteU16BE_append [of "x # xs" for x xs] WriteU16BE_append [of "x @ xs" for x xs]
  WriteU32BE_append [of "x # xs" for x xs] WriteU32BE_append [of "x @ xs" for x xs]
  WriteU64BE_append [of "x # xs" for x xs] WriteU64BE_append [of "x @ xs" for x xs]

lemma unat_kMaxPayloadSize [simp]: "unat kMaxPayloadSize = 16777216"
  by (simp add: kMaxPayloadSize_def)

lemma unat_of_nat_u32 [simp]: "n \<le> 16777216 \<Longrightarrow> unat (of_nat n :: u32) = n"
  by (simp add: unat_of_nat)

lemma EncodeFrame_eq:
  "EncodeFrame f = Inr out \<longleftrightarrow> FrameValid f \<and> out = FrameBytes (FrameType f) (FramePayload f)"
  by (cases f) (auto simp: EncodeClientRequest_def EncodeClientResponse_def EncodeClusterRequest_def
      EncodeClusterResponse_def FrameBytes_def FrameHeader_def Let_def Writers_append add.assoc)

lemma FrameHeader_fields [simp]:
  "length (FrameHeader t n) = 8"
  "ReadU16BE (FrameHeader t n @ rest) = kMagic"
  "(FrameHeader t n @ rest) ! 2 = kProtocolVersion"
  "(FrameHeader t n @ rest) ! 3 = t"
  "drop 4 (FrameHeader t n) = WriteU32BE [] (of_nat n)"
  by (simp_all add: FrameHeader_def be_simps nth_append)

lemma length_FrameBytes [simp]: "length (FrameBytes t p) = 8 + length p"
  by (simp add: FrameBytes_def)

text \<open>Everything the parser does once the eight header bytes are there.\<close>

lemma TryParseFrame_header:
  assumes "n \<le> unat kMaxPayloadSize"
  shows "TryParseFrame (FrameHeader t n @ body) =
    (if length body < n then (ParseResult_kNeedMore, FrameHeader t n @ body, None)
     else case DecodeFramePayload t (take n body) of
       None \<Rightarrow> (ParseResult_kError, [], None)
     | Some f \<Rightarrow> (ParseResult_kComplete, drop n body, Some f))"
proof -
  have "\<not> (of_nat n :: u32) > kMaxPayloadSize"
    using assms by (simp add: word_less_nat_alt)
  then show ?thesis
    using assms by (simp add: TryParseFrame_def kFrameHeaderSize_def Let_def be_simps split: option.split)
qed

lemma TryParseFrame_prefix:
  assumes "length p \<le> unat kMaxPayloadSize" "n < length (FrameBytes t p)"
  shows "TryParseFrame (take n (FrameBytes t p)) = (ParseResult_kNeedMore, take n (FrameBytes t p), None)"
proof (cases "n < 8")
  case True
  then show ?thesis by (simp add: TryParseFrame_def kFrameHeaderSize_def)
next
  case False
  then have "n - 8 < length p" using assms(2) by simp
  with False show ?thesis
    using assms by (simp add: FrameBytes_def TryParseFrame_header [unfolded unat_kMaxPayloadSize])
qed

text \<open>A buffer that passes the header checks starts with a header the encoders write.\<close>

lemma header_of_buffer:
  assumes "8 \<le> length buffer" "ReadU16BE buffer = kMagic" "buffer ! 2 = kProtocolVersion"
  shows "buffer = FrameHeader (buffer ! 3) (unat (ReadU32BE (drop 4 buffer))) @ drop 8 buffer"
proof -
  have 1: "take 2 buffer = WriteU16BE [] kMagic"
    using WriteU16BE_Read [of "take 2 buffer" "drop 2 buffer"] assms by simp
  have 2: "take 4 (drop 4 buffer) = WriteU32BE [] (ReadU32BE (drop 4 buffer))"
    using WriteU32BE_Read [of "take 4 (drop 4 buffer)" "drop 4 (drop 4 buffer)"] assms(1)
    by (simp del: drop_drop)
  have "buffer = take 2 buffer @ drop 2 buffer" by simp
  also have "drop 2 buffer = buffer ! 2 # buffer ! 3 # drop 4 buffer"
    using assms(1) by (simp add: Cons_nth_drop_Suc eval_nat_numeral)
  also have "drop 4 buffer = take 4 (drop 4 buffer) @ drop 8 buffer"
    using append_take_drop_id [of 4 "drop 4 buffer"] by simp
  finally show ?thesis
    by (simp add: FrameHeader_def 1 2 assms(3) of_nat_unat)
qed

section \<open>Payload decoding inverts payload encoding\<close>

lemma Opcode_byte_cast [simp]:
  "Opcode_of_byte (Opcode_byte c) = c"
  "\<not> Opcode_byte c < Opcode_byte Opcode_kSet" "\<not> Opcode_byte Opcode_kDelete < Opcode_byte c"
  by (cases c; simp add: Opcode_of_byte_def Opcode_byte_def)+

lemma ClusterOpcode_byte_cast [simp]:
  "ClusterOpcode_of_byte (ClusterOpcode_byte c) = c"
  "\<not> ClusterOpcode_byte c < ClusterOpcode_byte ClusterOpcode_kPing"
  "\<not> ClusterOpcode_byte ClusterOpcode_kAppendEntries < ClusterOpcode_byte c"
  by (cases c; simp add: ClusterOpcode_of_byte_def ClusterOpcode_byte_def)+

lemma ResponseStatus_word_cast [simp]:
  "ResponseStatus_of_word (ResponseStatus_word s) = s"
  "\<not> ResponseStatus_word ResponseStatus_kWrongLeader < ResponseStatus_word s"
  by (cases s; simp add: ResponseStatus_of_word_def ResponseStatus_word_def)+

lemma of_nat_u32_eq_0 [simp]: "n \<le> 16777216 \<Longrightarrow> (of_nat n :: u32) = 0 \<longleftrightarrow> n = 0"
  by (auto simp: word_of_nat_eq_0_iff dest: dvd_imp_le)

lemma DecodeFramePayload_encoded:
  assumes "FrameValid f"
  shows "DecodeFramePayload (MessageType_byte (FrameType f)) (FramePayload f) = Some f"
proof (cases f)
  case (Frame_ClientRequest r)
  then show ?thesis
    using assms by (cases r)
      (simp add: DecodeFramePayload_def DecodeClientRequest_def Let_def be_simps nth_append)
next
  case (Frame_ClientResponse r)
  then show ?thesis
    using assms by (cases r) (simp add: DecodeFramePayload_def MessageType_byte_def DecodeClientResponse_def
        Let_def be_simps)
next
  case (Frame_ClusterRequest r)
  then show ?thesis
    using assms by (cases r) (simp add: DecodeFramePayload_def MessageType_byte_def DecodeClusterRequest_def
        Let_def be_simps nth_append)
next
  case (Frame_ClusterResponse r)
  then show ?thesis
    using assms by (cases r) (simp add: DecodeFramePayload_def MessageType_byte_def DecodeClusterResponse_def
        Let_def be_simps)
qed

text \<open>A decoded payload is the one the encoder writes for what was decoded.\<close>

lemma Opcode_byte_of_byte:
  assumes "\<not> b < Opcode_byte Opcode_kSet" "\<not> Opcode_byte Opcode_kDelete < b"
  shows "Opcode_byte (Opcode_of_byte b) = b"
proof -
  have "unat b = 1 \<or> unat b = 2 \<or> unat b = 3"
    using assms by (simp add: Opcode_byte_def word_less_nat_alt) arith
  then show ?thesis by (auto simp: Opcode_byte_def Opcode_of_byte_def word_unat_eq_iff)
qed

lemma ClusterOpcode_byte_of_byte:
  assumes "\<not> b < ClusterOpcode_byte ClusterOpcode_kPing"
    "\<not> ClusterOpcode_byte ClusterOpcode_kAppendEntries < b"
  shows "ClusterOpcode_byte (ClusterOpcode_of_byte b) = b"
proof -
  have "unat b = 1 \<or> unat b = 2 \<or> unat b = 3 \<or> unat b = 4"
    using assms by (simp add: ClusterOpcode_byte_def word_less_nat_alt) arith
  then show ?thesis by (auto simp: ClusterOpcode_byte_def ClusterOpcode_of_byte_def word_unat_eq_iff)
qed

lemma ResponseStatus_word_of_word:
  assumes "\<not> ResponseStatus_word ResponseStatus_kWrongLeader < w"
  shows "ResponseStatus_word (ResponseStatus_of_word w) = w"
proof -
  have "unat w = 0 \<or> unat w = 1 \<or> unat w = 2 \<or> unat w = 3 \<or> unat w = 4"
    using assms by (simp add: ResponseStatus_word_def word_less_nat_alt) arith
  then show ?thesis by (auto simp: ResponseStatus_word_def ResponseStatus_of_word_def word_unat_eq_iff)
qed

lemma DecodeClientRequest_payload:
  assumes "DecodeClientRequest p = Inr r"
  shows "p = FramePayload (Frame_ClientRequest r)"
    "creq_key r \<noteq> []" "creq_opcode r = Opcode_kSet \<longleftrightarrow> creq_value r \<noteq> []"
proof -
  define i where "i = ReadU64BE p"
  define b where "b = p ! 8"
  define kl where "kl = ReadU32BE (drop 9 p)"
  define k where "k = take (unat kl) (drop 13 p)"
  define vl where "vl = ReadU32BE (drop (13 + unat kl) p)"
  define v where "v = take (unat vl) (drop (17 + unat kl) p)"
  note defs = i_def b_def kl_def k_def vl_def v_def
  have dec: "length p = 17 + unat kl + unat vl"
    "\<not> b < Opcode_byte Opcode_kSet" "\<not> Opcode_byte Opcode_kDelete < b" "kl \<noteq> 0"
    "r = \<lparr>creq_request_id = i, creq_opcode = Opcode_of_byte b, creq_key = k, creq_value = v\<rparr>"
    "\<not> (Opcode_of_byte b = Opcode_kSet \<and> v = [])" "\<not> (Opcode_of_byte b \<noteq> Opcode_kSet \<and> v \<noteq> [])"
    using assms
    unfolding DecodeClientRequest_def Let_def if_Inl_eq_Inr defs
    by simp_all
  note len = dec(1)
  show "creq_key r \<noteq> []" using dec(4) len by (simp add: dec(5) k_def unat_gt_0)
  show "creq_opcode r = Opcode_kSet \<longleftrightarrow> creq_value r \<noteq> []" using dec(5-7) by auto
  have e1: "drop 0 p = WriteU64BE [] i @ drop 8 p"
    by (rule split_u64_at) (simp_all add: len i_def)
  have e2: "drop 8 p = [b] @ drop 9 p"
    unfolding b_def by (rule split_u8_at) (simp_all add: len)
  have e3: "drop 9 p = WriteU32BE [] kl @ drop 13 p"
    by (rule split_u32_at [OF _ _ kl_def]) (simp_all add: len)
  have e4: "drop 13 p = k @ drop (13 + unat kl) p"
    unfolding k_def by (rule split_bytes_at) simp
  have e5: "drop (13 + unat kl) p = WriteU32BE [] vl @ drop (17 + unat kl) p"
    by (rule split_u32_at [OF _ _ vl_def]) (simp_all add: len)
  have e6: "drop (17 + unat kl) p = v"
    by (simp add: v_def len)
  have "length k = unat kl" "length v = unat vl"
    by (simp_all add: k_def v_def len)
  then have "FramePayload (Frame_ClientRequest r) =
      WriteU64BE [] i @ [b] @ WriteU32BE [] kl @ k @ WriteU32BE [] vl @ v"
    by (simp add: dec(5) Opcode_byte_of_byte [OF dec(2,3)])
  also have "\<dots> = drop 0 p" by (simp only: e1 e2 e3 e4 e5 e6)
  finally show "p = FramePayload (Frame_ClientRequest r)" by (simp only: drop_0)
qed

lemma DecodeClientResponse_payload:
  assumes "DecodeClientResponse p = Inr r"
  shows "p = FramePayload (Frame_ClientResponse r)"
proof -
  define i where "i = ReadU64BE p"
  define w where "w = ReadU16BE (drop 8 p)"
  define vl where "vl = ReadU32BE (drop 10 p)"
  define v where "v = take (unat vl) (drop 14 p)"
  define h where "h = ReadU32BE (drop (14 + unat vl) p)"
  have dec: "length p = 18 + unat vl" "\<not> ResponseStatus_word ResponseStatus_kWrongLeader < w"
    "r = \<lparr>cresp_request_id = i, cresp_status = ResponseStatus_of_word w, cresp_value = v,
           cresp_leader_hint = h\<rparr>"
    using assms
    unfolding DecodeClientResponse_def Let_def if_Inl_eq_Inr i_def w_def vl_def v_def h_def
    by simp_all
  note len = dec(1)
  have e1: "drop 0 p = WriteU64BE [] i @ drop 8 p"
    by (rule split_u64_at) (simp_all add: len i_def)
  have e2: "drop 8 p = WriteU16BE [] w @ drop 10 p"
    by (rule split_u16_at [OF _ _ w_def]) (simp_all add: len)
  have e3: "drop 10 p = WriteU32BE [] vl @ drop 14 p"
    by (rule split_u32_at [OF _ _ vl_def]) (simp_all add: len)
  have e4: "drop 14 p = v @ drop (14 + unat vl) p"
    unfolding v_def by (rule split_bytes_at) simp
  have e5: "drop (14 + unat vl) p = WriteU32BE [] h @ drop (18 + unat vl) p"
    by (rule split_u32_at [OF _ _ h_def]) (simp_all add: len)
  have e6: "drop (18 + unat vl) p = []"
    by (simp add: len)
  have "length v = unat vl" by (simp add: v_def len)
  then have "FramePayload (Frame_ClientResponse r) =
      WriteU64BE [] i @ WriteU16BE [] w @ WriteU32BE [] vl @ v @ WriteU32BE [] h @ []"
    by (simp add: dec(3) ResponseStatus_word_of_word [OF dec(2)])
  also have "\<dots> = drop 0 p" by (simp only: e1 e2 e3 e4 e5 e6)
  finally show ?thesis by (simp only: drop_0)
qed

lemma DecodeClusterRequest_payload:
  assumes "DecodeClusterRequest p = Inr r"
  shows "p = FramePayload (Frame_ClusterRequest r)"
proof -
  define i where "i = ReadU64BE p"
  define b where "b = p ! 8"
  define vl where "vl = ReadU32BE (drop 9 p)"
  define v where "v = take (unat vl) (drop 13 p)"
  have dec: "length p = 13 + unat vl" "\<not> b < ClusterOpcode_byte ClusterOpcode_kPing"
    "\<not> ClusterOpcode_byte ClusterOpcode_kAppendEntries < b"
    "r = \<lparr>clreq_request_id = i, clreq_opcode = ClusterOpcode_of_byte b, clreq_body = v\<rparr>"
    using assms
    unfolding DecodeClusterRequest_def Let_def if_Inl_eq_Inr i_def b_def vl_def v_def
    by simp_all
  note len = dec(1)
  have e1: "drop 0 p = WriteU64BE [] i @ drop 8 p"
    by (rule split_u64_at) (simp_all add: len i_def)
  have e2: "drop 8 p = [b] @ drop 9 p"
    unfolding b_def by (rule split_u8_at) (simp_all add: len)
  have e3: "drop 9 p = WriteU32BE [] vl @ drop 13 p"
    by (rule split_u32_at [OF _ _ vl_def]) (simp_all add: len)
  have e4: "drop 13 p = v"
    by (simp add: v_def len)
  have "length v = unat vl" by (simp add: v_def len)
  then have "FramePayload (Frame_ClusterRequest r) = WriteU64BE [] i @ [b] @ WriteU32BE [] vl @ v"
    by (simp add: dec(4) ClusterOpcode_byte_of_byte [OF dec(2,3)])
  also have "\<dots> = drop 0 p" by (simp only: e1 e2 e3 e4)
  finally show ?thesis by (simp only: drop_0)
qed

lemma DecodeClusterResponse_payload:
  assumes "DecodeClusterResponse p = Inr r"
  shows "p = FramePayload (Frame_ClusterResponse r)"
proof -
  define i where "i = ReadU64BE p"
  define w where "w = ReadU16BE (drop 8 p)"
  define vl where "vl = ReadU32BE (drop 10 p)"
  define v where "v = take (unat vl) (drop 14 p)"
  have dec: "length p = 14 + unat vl" "\<not> ResponseStatus_word ResponseStatus_kWrongLeader < w"
    "r = \<lparr>clresp_request_id = i, clresp_status = ResponseStatus_of_word w, clresp_body = v\<rparr>"
    using assms
    unfolding DecodeClusterResponse_def Let_def if_Inl_eq_Inr i_def w_def vl_def v_def
    by simp_all
  note len = dec(1)
  have e1: "drop 0 p = WriteU64BE [] i @ drop 8 p"
    by (rule split_u64_at) (simp_all add: len i_def)
  have e2: "drop 8 p = WriteU16BE [] w @ drop 10 p"
    by (rule split_u16_at [OF _ _ w_def]) (simp_all add: len)
  have e3: "drop 10 p = WriteU32BE [] vl @ drop 14 p"
    by (rule split_u32_at [OF _ _ vl_def]) (simp_all add: len)
  have e4: "drop 14 p = v"
    by (simp add: v_def len)
  have "length v = unat vl" by (simp add: v_def len)
  then have "FramePayload (Frame_ClusterResponse r) =
      WriteU64BE [] i @ WriteU16BE [] w @ WriteU32BE [] vl @ v"
    by (simp add: dec(3) ResponseStatus_word_of_word [OF dec(2)])
  also have "\<dots> = drop 0 p" by (simp only: e1 e2 e3 e4)
  finally show ?thesis by (simp only: drop_0)
qed

lemma DecodeFramePayload_SomeD:
  assumes "DecodeFramePayload t p = Some f" "length p \<le> unat kMaxPayloadSize"
  shows "t = MessageType_byte (FrameType f) \<and> p = FramePayload f \<and> FrameValid f"
proof -
  consider (cq) r where "t = MessageType_byte MessageType_kClientRequest" "f = Frame_ClientRequest r"
      "DecodeClientRequest p = Inr r"
    | (cp) r where "t = MessageType_byte MessageType_kClientResponse" "f = Frame_ClientResponse r"
      "DecodeClientResponse p = Inr r"
    | (lq) r where "t = MessageType_byte MessageType_kClusterRequest" "f = Frame_ClusterRequest r"
      "DecodeClusterRequest p = Inr r"
    | (lp) r where "t = MessageType_byte MessageType_kClusterResponse" "f = Frame_ClusterResponse r"
      "DecodeClusterResponse p = Inr r"
    using assms(1) by (auto simp: DecodeFramePayload_def split: if_splits sum.splits)
  then show ?thesis
  proof cases
    case cq
    with DecodeClientRequest_payload [OF cq(3)] assms(2) show ?thesis by simp
  next
    case cp
    with DecodeClientResponse_payload [OF cp(3)] assms(2) show ?thesis by simp
  next
    case lq
    with DecodeClusterRequest_payload [OF lq(3)] assms(2) show ?thesis by simp
  next
    case lp
    with DecodeClusterResponse_payload [OF lp(3)] assms(2) show ?thesis by simp
  qed
qed

section \<open>The parser against the encoders\<close>

lemma FrameValid_length: "FrameValid f \<Longrightarrow> length (FramePayload f) \<le> unat kMaxPayloadSize"
  by (cases f) simp_all

lemma TryParseFrame_encoded:
  assumes "EncodeFrame f = Inr out"
  shows "TryParseFrame (out @ rest) = (ParseResult_kComplete, rest, Some f)"
  using assms FrameValid_length [of f] DecodeFramePayload_encoded [of f]
  by (simp add: EncodeFrame_eq FrameBytes_def TryParseFrame_header)

lemma TryParseFrame_complete:
  assumes "TryParseFrame buffer = (ParseResult_kComplete, rest, Some f)"
  shows "\<exists>out. EncodeFrame f = Inr out \<and> buffer = out @ rest"
proof -
  define n where "n = unat (ReadU32BE (drop 4 buffer))"
  have c: "8 \<le> length buffer" "ReadU16BE buffer = kMagic" "buffer ! 2 = kProtocolVersion"
    "n \<le> unat kMaxPayloadSize"
    using assms
    by (auto simp: TryParseFrame_def kFrameHeaderSize_def n_def Let_def word_less_nat_alt split: if_splits)
  define body where "body = drop 8 buffer"
  have b: "buffer = FrameHeader (buffer ! 3) n @ body"
    unfolding n_def body_def by (rule header_of_buffer [OF c(1-3)])
  have dec: "DecodeFramePayload (buffer ! 3) (take n body) = Some f" "rest = drop n body" "n \<le> length body"
    using assms TryParseFrame_header [OF c(4), of "buffer ! 3" body, folded b]
    by (auto split: if_splits option.splits)
  with DecodeFramePayload_SomeD [OF dec(1)] c(4)
  have f: "buffer ! 3 = MessageType_byte (FrameType f)" "take n body = FramePayload f" "FrameValid f"
    by simp_all
  have "buffer = FrameHeader (MessageType_byte (FrameType f)) n @ FramePayload f @ rest"
    using b f(1,2) dec(2) by (metis append_take_drop_id)
  moreover have "length (FramePayload f) = n" using dec(3) f(2) by (metis length_take min.absorb2)
  ultimately show ?thesis
    using f(3) by (simp add: EncodeFrame_eq FrameBytes_def)
qed

section \<open>Properties\<close>

text \<open>
  C19. The parser is the exact inverse of the encoders, on all four message types. \<^verbatim>\<open>TryParseFrame\<close> answers
  kComplete with a frame and a remaining buffer if and only if the encoder of that frame's type succeeds
  and the buffer is the encoding followed by the remaining bytes. So every encoded message is read back
  unchanged whatever follows it, and no byte string that an encoder cannot produce is ever accepted.
\<close>

theorem frame_codec_bijection:
  "TryParseFrame buffer = (ParseResult_kComplete, rest, Some f)
     \<longleftrightarrow> (\<exists>out. EncodeFrame f = Inr out \<and> buffer = out @ rest)"
  using TryParseFrame_encoded TryParseFrame_complete by blast

text \<open>
  A frame that has arrived only in part is waited for: on every strict prefix of an encoded
  message, \<^verbatim>\<open>TryParseFrame\<close> answers kNeedMore and leaves the buffer as it is.
\<close>

lemma frame_prefix_waits:
  assumes "EncodeFrame f = Inr out" and "n < length out"
  shows "TryParseFrame (take n out) = (ParseResult_kNeedMore, take n out, None)"
  using assms FrameValid_length [of f] TryParseFrame_prefix [of "FramePayload f" n "FrameType f"]
  by (auto simp: EncodeFrame_eq split: if_splits)

lemma frame_prefix_waits_example:
  "\<exists>out. EncodeFrame (Frame_ClientRequest
       \<lparr>creq_request_id = 1, creq_opcode = Opcode_kGet, creq_key = [107], creq_value = []\<rparr>) = Inr out
     \<and> TryParseFrame (take 20 out) = (ParseResult_kNeedMore, take 20 out, None)"
proof -
  let ?f = "Frame_ClientRequest \<lparr>creq_request_id = 1, creq_opcode = Opcode_kGet, creq_key = [107], creq_value = []\<rparr>"
  have e: "EncodeFrame ?f = Inr (FrameBytes MessageType_kClientRequest (FramePayload ?f))"
    unfolding EncodeFrame_eq by simp
  show ?thesis using frame_prefix_waits [OF e, of 20] e by simp
qed

end
