(* ===== verification/Posix_IO.thy ===== *)
theory Posix_IO
  imports NKV_Prelude "HOL-Library.Sublist"
begin

text \<open>
  The retry loops around \<^verbatim>\<open>read(2)\<close> and \<^verbatim>\<open>write(2)\<close>: \<^verbatim>\<open>ReadSome\<close> of \<^verbatim>\<open>persistence/wal_record.cpp\<close>,
  \<^verbatim>\<open>WriteAll\<close> of \<^verbatim>\<open>persistence/wal_writer.cpp\<close>, and \<^verbatim>\<open>ReadFull\<close> and \<^verbatim>\<open>WriteFull\<close> of \<^verbatim>\<open>net/socket_utils.cpp\<close>.

  The operating system is a parameter: a descriptor carries the outcomes its next system calls will have.
  A call may be interrupted, fail, or transfer fewer bytes than asked for (but at least one, when there is
  one to transfer). When the list of outcomes is used up, calls transfer everything. The lemmas hold for
  every list of outcomes; where a loop's result depends on the absence of failures the statement says so.
\<close>

section \<open>System calls and their outcomes\<close>

datatype sys =
    SysIntr          \<comment> \<open>returns -1 with EINTR\<close>
  | SysFail string   \<comment> \<open>returns -1 with another errno; the string is its \<^verbatim>\<open>strerror\<close> text\<close>
  | SysShort nat     \<comment> \<open>transfers at most \<open>Suc n\<close> bytes\<close>

fun no_fail :: "sys list \<Rightarrow> bool" where
  "no_fail [] = True"
| "no_fail (SysFail _ # _) = False"
| "no_fail (_ # os) = no_fail os"

text \<open>Nothing fails and nothing is interrupted; transfers may still be short.\<close>

definition calm :: "sys list \<Rightarrow> bool" where
  "calm os \<longleftrightarrow> (\<forall>e \<in> set os. \<exists>n. e = SysShort n)"

lemma calm_no_fail: "calm os \<Longrightarrow> no_fail os"
  by (induction os rule: no_fail.induct) (auto simp: calm_def)

lemma calm_Nil [simp]: "calm []"
  by (simp add: calm_def)

lemma calm_Cons [simp]: "calm (e # os) \<longleftrightarrow> (\<exists>n. e = SysShort n) \<and> calm os"
  by (auto simp: calm_def)

lemma calm_suffix: "suffix os' os \<Longrightarrow> calm os \<Longrightarrow> calm os'"
  by (auto simp: calm_def suffix_def)

text \<open>A call that transfers nothing: \<open>None\<close> when it succeeds, or the text of its errno.\<close>

definition errno_EINTR :: string where "errno_EINTR = ''Interrupted system call''"

definition sys_call :: "sys list \<Rightarrow> string option \<times> sys list" where
  "sys_call os =
     (case os of
        [] \<Rightarrow> (None, [])
      | SysIntr # os' \<Rightarrow> (Some errno_EINTR, os')
      | SysFail e # os' \<Rightarrow> (Some e, os')
      | SysShort _ # os' \<Rightarrow> (None, os'))"

lemma sys_call_calm [simp]: "calm os \<Longrightarrow> fst (sys_call os) = None \<and> calm (snd (sys_call os))"
  by (auto simp: sys_call_def calm_def split: list.split sys.split)

datatype io = IoIntr | IoErr string | IoBytes bytes

record rfd =
  fd_rest :: bytes
  fd_os :: "sys list"

definition sys_read :: "rfd \<Rightarrow> nat \<Rightarrow> io \<times> rfd" where
  "sys_read fd len =
     (case fd_os fd of
        [] \<Rightarrow> (IoBytes (take len (fd_rest fd)), fd\<lparr>fd_rest := drop len (fd_rest fd)\<rparr>)
      | SysIntr # os \<Rightarrow> (IoIntr, fd\<lparr>fd_os := os\<rparr>)
      | SysFail e # os \<Rightarrow> (IoErr e, fd\<lparr>fd_os := os\<rparr>)
      | SysShort n # os \<Rightarrow>
          (let k = min len (Suc n) in
           (IoBytes (take k (fd_rest fd)), fd\<lparr>fd_rest := drop k (fd_rest fd), fd_os := os\<rparr>)))"

lemma sys_read_Bytes:
  "sys_read fd len = (IoBytes bs, fd') \<Longrightarrow>
     length bs \<le> len \<and> fd_rest fd = bs @ fd_rest fd' \<and> length (fd_os fd') \<le> length (fd_os fd)
     \<and> (no_fail (fd_os fd) \<longrightarrow> no_fail (fd_os fd')) \<and> (bs = [] \<longrightarrow> len = 0 \<or> fd_rest fd = [])"
  by (auto simp: sys_read_def Let_def split: list.splits sys.splits)

lemma sys_read_Intr:
  "sys_read fd len = (IoIntr, fd') \<Longrightarrow>
     fd_rest fd' = fd_rest fd \<and> length (fd_os fd') < length (fd_os fd) \<and> (no_fail (fd_os fd) \<longrightarrow> no_fail (fd_os fd'))"
  by (auto simp: sys_read_def Let_def split: list.splits sys.splits)

lemma sys_read_Err:
  "sys_read fd len = (IoErr e, fd') \<Longrightarrow> fd_rest fd' = fd_rest fd \<and> \<not> no_fail (fd_os fd)"
  by (auto simp: sys_read_def Let_def split: list.splits sys.splits)

lemma sys_read_suffix: "suffix (fd_os (snd (sys_read fd len))) (fd_os fd)"
  by (auto simp: sys_read_def Let_def suffix_ConsI split: list.split sys.split)

section \<open>ReadSome and ReadFull\<close>

text \<open>
  \<^verbatim>\<open>ReadSome(fd, buf, len)\<close>: the bytes it stored in \<open>buf\<close>; \<open>total\<close> is their number. An error other than
  EINTR ends the loop just as the end of the file does.
\<close>

function ReadSome_loop :: "rfd \<Rightarrow> nat \<Rightarrow> bytes \<Rightarrow> bytes \<times> rfd" where
  "ReadSome_loop fd len buf =
     (if length buf < len then
        (case sys_read fd (len - length buf) of
           (IoIntr, fd') \<Rightarrow> ReadSome_loop fd' len buf
         | (IoErr _, fd') \<Rightarrow> (buf, fd')
         | (IoBytes bs, fd') \<Rightarrow> if bs = [] then (buf, fd') else ReadSome_loop fd' len (buf @ bs))
      else (buf, fd))"
  by pat_completeness auto
termination
proof (relation "measure (\<lambda>(fd, len, buf). (len - length buf) + length (fd_os fd))", goal_cases)
  case 1
  show ?case by simp
next
  case (2 fd len buf r fd')
  then show ?case using sys_read_Intr [of fd "len - length buf" fd'] by auto
next
  case (3 fd len buf r fd' bs)
  then have "length bs > 0" "length bs \<le> len - length buf" "length (fd_os fd') \<le> length (fd_os fd)"
    using sys_read_Bytes [of fd "len - length buf" bs fd'] by auto
  with \<open>length buf < len\<close> show ?case by (simp only: in_measure prod.case length_append)
qed

declare ReadSome_loop.simps [simp del]

definition ReadSome :: "rfd \<Rightarrow> nat \<Rightarrow> bytes \<times> rfd" where
  "ReadSome fd len = ReadSome_loop fd len []"

lemma ReadSome_loop_consumes:
  "ReadSome_loop fd len buf = (out, fd') \<Longrightarrow> length buf \<le> len \<Longrightarrow>
     \<exists>bs. out = buf @ bs \<and> fd_rest fd = bs @ fd_rest fd' \<and> length out \<le> len"
proof (induction fd len buf rule: ReadSome_loop.induct)
  case (1 fd len buf)
  show ?case
  proof (cases "length buf < len")
    case True
    obtain io fd1 where r: "sys_read fd (len - length buf) = (io, fd1)" by fastforce
    show ?thesis
    proof (cases io)
      case IoIntr
      then show ?thesis
        using 1 True r sys_read_Intr [of fd "len - length buf" fd1] by (simp add: ReadSome_loop.simps [of fd])
    next
      case (IoErr e)
      then show ?thesis
        using 1 True r sys_read_Err [of fd "len - length buf" e fd1] by (simp add: ReadSome_loop.simps [of fd])
    next
      case (IoBytes bs)
      have b: "length bs \<le> len - length buf" "fd_rest fd = bs @ fd_rest fd1"
        using sys_read_Bytes r IoBytes by blast+
      show ?thesis
      proof (cases "bs = []")
        case True
        with b r IoBytes 1 \<open>length buf < len\<close> show ?thesis by (simp add: ReadSome_loop.simps [of fd])
      next
        case False
        then have "ReadSome_loop fd1 len (buf @ bs) = (out, fd')"
          using 1 r IoBytes \<open>length buf < len\<close> by (simp add: ReadSome_loop.simps [of fd])
        then show ?thesis
          using 1(2) [OF True r [symmetric] IoBytes False] b True by fastforce
      qed
    qed
  next
    case False
    with 1 show ?thesis by (simp add: ReadSome_loop.simps [of fd])
  qed
qed

lemma ReadSome_loop_full:
  "no_fail (fd_os fd) \<Longrightarrow> length buf \<le> len \<Longrightarrow>
     fst (ReadSome_loop fd len buf) = buf @ take (len - length buf) (fd_rest fd)
     \<and> fd_rest (snd (ReadSome_loop fd len buf)) = drop (len - length buf) (fd_rest fd)
     \<and> no_fail (fd_os (snd (ReadSome_loop fd len buf)))"
proof (induction fd len buf rule: ReadSome_loop.induct)
  case (1 fd len buf)
  show ?case
  proof (cases "length buf < len")
    case True
    obtain io fd1 where r: "sys_read fd (len - length buf) = (io, fd1)" by fastforce
    show ?thesis
    proof (cases io)
      case IoIntr
      then show ?thesis
        using 1 True r sys_read_Intr [of fd "len - length buf" fd1] by (simp add: ReadSome_loop.simps [of fd])
    next
      case (IoErr e)
      then show ?thesis using 1(3) r sys_read_Err by blast
    next
      case (IoBytes bs)
      note b = sys_read_Bytes [OF r [unfolded IoBytes]]
      show ?thesis
      proof (cases "bs = []")
        case True
        with b r IoBytes 1(3) \<open>length buf < len\<close> show ?thesis by (auto simp: ReadSome_loop.simps [of fd])
      next
        case False
        have "ReadSome_loop fd len buf = ReadSome_loop fd1 len (buf @ bs)"
          using r IoBytes False \<open>length buf < len\<close> by (simp add: ReadSome_loop.simps [of fd])
        moreover have "length (buf @ bs) \<le> len" using b True by auto
        ultimately show ?thesis
          using 1(2) [OF True r [symmetric] IoBytes False] b 1(3) by auto
      qed
    qed
  next
    case False
    with 1 show ?thesis by (simp add: ReadSome_loop.simps [of fd])
  qed
qed

lemma ReadSome_consumes:
  "fd_rest fd = fst (ReadSome fd len) @ fd_rest (snd (ReadSome fd len))"
  "length (fst (ReadSome fd len)) \<le> len"
  using ReadSome_loop_consumes [of fd len "[]"] by (auto simp: ReadSome_def prod_eq_iff)

lemma ReadSome_loop_suffix: "suffix (fd_os (snd (ReadSome_loop fd len buf))) (fd_os fd)"
proof (induction fd len buf rule: ReadSome_loop.induct)
  case (1 fd len buf)
  show ?case
    using 1 sys_read_suffix [of fd "len - length buf"]
    by (subst ReadSome_loop.simps) (auto split: prod.split io.split intro: suffix_order.trans)
qed

lemma ReadSome_suffix: "suffix (fd_os (snd (ReadSome fd len))) (fd_os fd)"
  by (simp add: ReadSome_def ReadSome_loop_suffix)

lemma ReadSome_full [simp]:
  assumes "no_fail (fd_os fd)"
  shows "fst (ReadSome fd len) = take len (fd_rest fd)"
    and "fd_rest (snd (ReadSome fd len)) = drop len (fd_rest fd)"
    and "no_fail (fd_os (snd (ReadSome fd len)))"
  using ReadSome_loop_full [OF assms, of "[]" len] by (simp_all add: ReadSome_def)

text \<open>
  \<^verbatim>\<open>ReadFull(fd, buf, len)\<close>: the same loop, with a status: an error and the end of the stream are both reported.
\<close>

function ReadFull_loop :: "rfd \<Rightarrow> nat \<Rightarrow> bytes \<Rightarrow> Status \<times> bytes \<times> rfd" where
  "ReadFull_loop fd len buf =
     (if length buf < len then
        (case sys_read fd (len - length buf) of
           (IoIntr, fd') \<Rightarrow> ReadFull_loop fd' len buf
         | (IoErr e, fd') \<Rightarrow> (Status_Error ErrorCode_kIOError (''read: '' @ e), buf, fd')
         | (IoBytes bs, fd') \<Rightarrow>
             if bs = [] then (Status_Error ErrorCode_kIOError ''connection closed'', buf, fd')
             else ReadFull_loop fd' len (buf @ bs))
      else (Status_Ok, buf, fd))"
  by pat_completeness auto
termination
proof (relation "measure (\<lambda>(fd, len, buf). (len - length buf) + length (fd_os fd))", goal_cases)
  case 1
  show ?case by simp
next
  case (2 fd len buf r fd')
  then show ?case using sys_read_Intr [of fd "len - length buf" fd'] by auto
next
  case (3 fd len buf r fd' bs)
  then have "length bs > 0" "length bs \<le> len - length buf" "length (fd_os fd') \<le> length (fd_os fd)"
    using sys_read_Bytes [of fd "len - length buf" bs fd'] by auto
  with \<open>length buf < len\<close> show ?case by (simp only: in_measure prod.case length_append)
qed

declare ReadFull_loop.simps [simp del]

definition ReadFull :: "rfd \<Rightarrow> nat \<Rightarrow> Status \<times> bytes \<times> rfd" where
  "ReadFull fd len = ReadFull_loop fd len []"

text \<open>
  \<^verbatim>\<open>ReadFull\<close> stores the same bytes as \<^verbatim>\<open>ReadSome\<close> and answers Ok exactly when it got all of them.
\<close>

lemma ReadFull_loop_ReadSome:
  "snd (ReadFull_loop fd len buf) = ReadSome_loop fd len buf
   \<and> (ok (fst (ReadFull_loop fd len buf)) \<longleftrightarrow> len \<le> length (fst (ReadSome_loop fd len buf)))"
proof (induction fd len buf rule: ReadFull_loop.induct)
  case (1 fd len buf)
  show ?case
  proof (cases "length buf < len")
    case True
    obtain io fd1 where r: "sys_read fd (len - length buf) = (io, fd1)" by fastforce
    show ?thesis
    proof (cases io)
      case IoIntr
      then show ?thesis
        using 1(1) [OF True r [symmetric]] True r
        by (simp add: ReadFull_loop.simps [of fd] ReadSome_loop.simps [of fd])
    next
      case (IoErr e)
      then show ?thesis
        using True r by (simp add: ReadFull_loop.simps [of fd] ReadSome_loop.simps [of fd])
    next
      case (IoBytes bs)
      then show ?thesis
        using 1(2) [OF True r [symmetric]] True r
        by (simp add: ReadFull_loop.simps [of fd] ReadSome_loop.simps [of fd])
    qed
  next
    case False
    then show ?thesis by (simp add: ReadFull_loop.simps [of fd] ReadSome_loop.simps [of fd])
  qed
qed

section \<open>WriteAll and WriteFull\<close>

record wfd =
  wf_data :: bytes
  wf_os :: "sys list"

datatype wio = WioIntr | WioErr string | WioCount nat

definition sys_write :: "wfd \<Rightarrow> bytes \<Rightarrow> wio \<times> wfd" where
  "sys_write fd bs =
     (case wf_os fd of
        [] \<Rightarrow> (WioCount (length bs), fd\<lparr>wf_data := wf_data fd @ bs\<rparr>)
      | SysIntr # os \<Rightarrow> (WioIntr, fd\<lparr>wf_os := os\<rparr>)
      | SysFail e # os \<Rightarrow> (WioErr e, fd\<lparr>wf_os := os\<rparr>)
      | SysShort n # os \<Rightarrow>
          (WioCount (min (length bs) (Suc n)), fd\<lparr>wf_data := wf_data fd @ take (Suc n) bs, wf_os := os\<rparr>))"

text \<open>
  The loop that \<^verbatim>\<open>WriteAll\<close> and \<^verbatim>\<open>WriteFull\<close> share, word for word except for the prefix of the error message.
\<close>

function write_loop :: "string \<Rightarrow> wfd \<Rightarrow> bytes \<Rightarrow> nat \<Rightarrow> Status \<times> wfd" where
  "write_loop what fd bs written =
     (if written < length bs then
        (case sys_write fd (drop written bs) of
           (WioIntr, fd') \<Rightarrow> write_loop what fd' bs written
         | (WioErr e, fd') \<Rightarrow> (Status_Error ErrorCode_kIOError (what @ e), fd')
         | (WioCount n, fd') \<Rightarrow> write_loop what fd' bs (written + n))
      else (Status_Ok, fd))"
  by pat_completeness auto
termination
  by (relation "measure (\<lambda>(what, fd, bs, written). (length bs - written) + length (wf_os fd))")
    (auto simp: sys_write_def split: list.splits sys.splits)

declare write_loop.simps [simp del]

definition WriteAll :: "wfd \<Rightarrow> bytes \<Rightarrow> Status \<times> wfd" where
  "WriteAll fd bs = write_loop ''write wal: '' fd bs 0"

definition WriteFull :: "wfd \<Rightarrow> bytes \<Rightarrow> Status \<times> wfd" where
  "WriteFull fd bs = write_loop ''write: '' fd bs 0"

text \<open>
  Whatever the outcomes, the loop appends a prefix of the buffer to the file, all of it when it answers Ok;
  without failures it answers Ok.
\<close>

lemma write_loop_prefix:
  "write_loop what fd bs written = (st, fd') \<Longrightarrow> written \<le> length bs \<Longrightarrow>
     \<exists>k. written \<le> k \<and> k \<le> length bs \<and> wf_data fd' = wf_data fd @ take (k - written) (drop written bs)
       \<and> (ok st \<longrightarrow> k = length bs) \<and> (no_fail (wf_os fd) \<longrightarrow> ok st \<and> no_fail (wf_os fd'))"
proof (induction what fd bs written rule: write_loop.induct)
  case (1 what fd bs written)
  show ?case
  proof (cases "written < length bs")
    case True
    obtain io fd1 where r: "sys_write fd (drop written bs) = (io, fd1)" by fastforce
    show ?thesis
    proof (cases io)
      case WioIntr
      then have "wf_data fd1 = wf_data fd" "no_fail (wf_os fd) \<longrightarrow> no_fail (wf_os fd1)"
        using r by (auto simp: sys_write_def split: list.splits sys.splits)
      with 1(1) [OF True r [symmetric] WioIntr] 1(3,4) WioIntr True r show ?thesis
        by (auto simp: write_loop.simps [of _ fd])
    next
      case (WioErr e)
      then have "wf_data fd1 = wf_data fd" "\<not> no_fail (wf_os fd)"
        using r by (auto simp: sys_write_def split: list.splits sys.splits)
      with WioErr 1(3) True r show ?thesis by (auto simp: write_loop.simps [of _ fd])
    next
      case (WioCount n)
      then have n: "n \<le> length bs - written" "wf_data fd1 = wf_data fd @ take n (drop written bs)"
          "no_fail (wf_os fd) \<longrightarrow> no_fail (wf_os fd1)"
        using r True by (auto simp: sys_write_def min_def split: list.splits sys.splits)
      have "write_loop what fd1 bs (written + n) = (st, fd')"
        using 1(3) True r WioCount by (simp add: write_loop.simps [of _ fd])
      moreover have "written + n \<le> length bs" using n True by arith
      ultimately obtain k where k: "written + n \<le> k" "k \<le> length bs"
          "wf_data fd' = wf_data fd1 @ take (k - (written + n)) (drop (written + n) bs)"
          "ok st \<longrightarrow> k = length bs" "no_fail (wf_os fd1) \<longrightarrow> ok st \<and> no_fail (wf_os fd')"
        using 1(2) [OF True r [symmetric] WioCount] by blast
      moreover have "take n (drop written bs) @ take (k - (written + n)) (drop (written + n) bs)
          = take (k - written) (drop written bs)"
        using k(1) take_add [of n "k - (written + n)" "drop written bs"] by (simp add: add.commute)
      ultimately show ?thesis using n by (intro exI [of _ k]) auto
    qed
  next
    case False
    with 1(3,4) show ?thesis by (intro exI [of _ written]) (auto simp: write_loop.simps [of _ fd])
  qed
qed

lemma write_loop_suffix: "suffix (wf_os (snd (write_loop what fd bs written))) (wf_os fd)"
proof (induction what fd bs written rule: write_loop.induct)
  case (1 what fd bs written)
  have "suffix (wf_os (snd (sys_write fd (drop written bs)))) (wf_os fd)"
    by (auto simp: sys_write_def suffix_ConsI split: list.split sys.split)
  with 1 show ?case
    by (subst write_loop.simps) (auto split: prod.split wio.split intro: suffix_order.trans)
qed

lemma WriteAll_prefix:
  assumes "WriteAll fd bs = (st, fd')"
  obtains k where "wf_data fd' = wf_data fd @ take k bs" "ok st \<longrightarrow> k = length bs"
    "no_fail (wf_os fd) \<longrightarrow> ok st \<and> no_fail (wf_os fd')"
  using write_loop_prefix [OF assms [unfolded WriteAll_def]] by auto

lemma WriteAll_ok:
  assumes "WriteAll fd bs = (st, fd')" "ok st"
  shows "wf_data fd' = wf_data fd @ bs"
  using WriteAll_prefix [OF assms(1)] assms(2) by (metis take_all order_refl)

end
