(* ===== verification/Crc32.thy ===== *)
theory Crc32
  imports NKV_Prelude
begin

text \<open>
  The bitwise CRC-32 of \<^verbatim>\<open>src/src/persistence/crc32.cpp\<close> on 32-bit words, and what the write-ahead log
  relies on it for: damage confined to a window of at most four consecutive bytes always changes the
  checksum, whatever precedes and follows the window.

  The register update is linear over exclusive or and injective, so a difference introduced by the damaged
  window survives all later bytes; the window itself cannot cancel because the first 32 bits enter the
  register unmixed.
\<close>

section \<open>The checksum loop\<close>

definition crc_bit :: "u32 \<Rightarrow> u32" where
  "crc_bit crc = (if crc AND 1 \<noteq> 0 then drop_bit 1 crc XOR 0xEDB88320 else drop_bit 1 crc)"

definition crc_byte :: "u8 \<Rightarrow> u32 \<Rightarrow> u32" where
  "crc_byte b crc = (crc_bit ^^ 8) (crc XOR ucast b)"

definition Crc32 :: "bytes \<Rightarrow> u32" where
  "Crc32 data = NOT (fold crc_byte data 0xFFFFFFFF)"

section \<open>The register update is linear and injective\<close>

lemma crc_bit_alt: "crc_bit c = drop_bit 1 c XOR (if bit c 0 then 0xEDB88320 else 0)"
  by (simp add: crc_bit_def bit_0 and_one_eq odd_iff_mod_2_eq_one)

lemma crc_bit_xor: "crc_bit (x XOR y) = crc_bit x XOR crc_bit y"
  by (rule bit_word_eqI) (auto simp: crc_bit_alt bit_simps)

lemma crc_bit_eq_0: "crc_bit z = 0 \<Longrightarrow> z = 0"
proof -
  assume z: "crc_bit z = 0"
  have top: "bit (0xEDB88320 :: u32) 31" by simp
  have "bit (crc_bit z) 31 = bit z 0"
    using top bit_imp_le_length [of z 32] by (auto simp: crc_bit_alt bit_simps)
  with z have b0: "\<not> bit z 0" by simp
  have "bit z n = bit (crc_bit z) (n - 1)" if "n \<noteq> 0" for n
    using that b0 by (simp add: crc_bit_alt bit_simps)
  with z b0 have "\<not> bit z n" for n by (cases "n = 0") auto
  then show ?thesis by (simp add: bit_eq_iff)
qed

lemma crc_bits_xor: "(crc_bit ^^ n) (x XOR y) = (crc_bit ^^ n) x XOR (crc_bit ^^ n) y"
  by (induction n) (simp_all add: crc_bit_xor)

lemma crc_bits_eq_0: "(crc_bit ^^ n) z = 0 \<Longrightarrow> z = 0"
  by (induction n) (auto dest: crc_bit_eq_0)

lemma crc_bits_inject: "(crc_bit ^^ n) x = (crc_bit ^^ n) y \<longleftrightarrow> x = y"
proof
  assume "(crc_bit ^^ n) x = (crc_bit ^^ n) y"
  then have "(crc_bit ^^ n) (x XOR y) = 0" by (simp add: crc_bits_xor)
  then have "x XOR y = 0" by (rule crc_bits_eq_0)
  then show "x = y" by (simp add: bit_eq_iff bit_simps)
qed simp

lemma fold_crc_byte_inject: "fold crc_byte bs c = fold crc_byte bs c' \<longleftrightarrow> c = c'"
proof (induction bs arbitrary: c c')
  case (Cons b bs)
  have "c XOR ucast b = c' XOR (ucast b :: u32) \<longleftrightarrow> c = c'"
    by (auto simp: bit_eq_iff bit_simps)
  with Cons show ?case by (simp add: crc_byte_def crc_bits_inject)
qed simp

section \<open>A window of at most 32 bits enters the register unmixed\<close>

fun window :: "bytes \<Rightarrow> u32" where
  "window [] = 0"
| "window (b # bs) = ucast b XOR push_bit 8 (window bs)"

lemma window_high_bits: "8 * length bs \<le> n \<Longrightarrow> \<not> bit (window bs) n"
proof (induction bs arbitrary: n)
  case (Cons b bs)
  then have "\<not> bit (window bs) (n - 8)" by simp
  moreover have "\<not> bit b n" using Cons.prems bit_imp_le_length [of b n] by auto
  ultimately show ?case by (simp add: bit_simps)
qed simp

lemma crc_bits_push:
  assumes "\<And>n. 24 \<le> n \<Longrightarrow> \<not> bit x n" "k \<le> 8"
  shows "(crc_bit ^^ k) (push_bit 8 x) = push_bit (8 - k) x"
  using assms(2)
proof (induction k)
  case (Suc k)
  have small: "n + k < 31" if "bit x (n + k - 7)" for n
    using assms(1) [of "n + k - 7"] that by (cases "24 \<le> n + k - 7") auto
  have "crc_bit (push_bit (8 - k) x) = push_bit (8 - Suc k) x"
    using Suc.prems by (intro bit_word_eqI) (auto simp: crc_bit_alt bit_simps dest: small)
  with Suc show ?case by simp
qed simp

lemma fold_crc_byte_window:
  "length bs \<le> 4 \<Longrightarrow> fold crc_byte bs c = (crc_bit ^^ (8 * length bs)) (c XOR window bs)"
proof (induction bs arbitrary: c)
  case (Cons b bs)
  have w: "(crc_bit ^^ 8) (push_bit 8 (window bs)) = window bs"
    using crc_bits_push [of "window bs" 8] window_high_bits [of bs] Cons.prems by simp
  have "fold crc_byte (b # bs) c = (crc_bit ^^ (8 * length bs)) (crc_byte b c XOR window bs)"
    using Cons by simp
  also have "crc_byte b c XOR window bs = (crc_bit ^^ 8) (c XOR window (b # bs))"
    by (simp add: crc_byte_def crc_bits_xor w xor.assoc)
  also have "(crc_bit ^^ (8 * length bs)) \<dots> = (crc_bit ^^ (8 * length (b # bs))) (c XOR window (b # bs))"
    using funpow_add [of "8 * length bs" 8 crc_bit] by (simp only: length_Cons mult_Suc_right add.commute comp_apply)
  finally show ?case .
qed simp

lemma window_inject:
  "length bs = length bs' \<Longrightarrow> length bs \<le> 4 \<Longrightarrow> window bs = window bs' \<longleftrightarrow> bs = bs'"
proof (induction bs bs' rule: list_induct2)
  case (Cons b bs b' bs')
  show ?case
  proof
    assume eq: "window (b # bs) = window (b' # bs')"
    have low: "bit b n = bit (window (b # bs)) n" "bit b' n = bit (window (b' # bs')) n" if "n < 8" for n
      using that by (simp_all add: bit_simps)
    have "bit b n = bit b' n" if "n < 8" for n
      using low [OF that] eq by (simp only:)
    then have "b = b'" by (intro bit_word_eqI) simp
    have high: "bit (window bs) n = bit (window (b # bs)) (n + 8)"
      "bit (window bs') n = bit (window (b' # bs')) (n + 8)" if "n < 24" for n
      using that bit_imp_le_length [of b "n + 8"] bit_imp_le_length [of b' "n + 8"]
      by (auto simp: bit_simps)
    have "bit (window bs) n = bit (window bs') n" for n
    proof (cases "n < 24")
      case True
      then show ?thesis using high eq by (simp only:)
    next
      case False
      then show ?thesis using window_high_bits [of bs n] window_high_bits [of bs' n] Cons.prems Cons.hyps by simp
    qed
    then have "window bs = window bs'" by (simp add: bit_eq_iff)
    with \<open>b = b'\<close> Cons show "b # bs = b' # bs'" by simp
  qed simp
qed simp

section \<open>Short damage is always detected\<close>

lemma Crc32_burst:
  assumes "length w = length w'" "length w \<le> 4" "w \<noteq> w'"
  shows "Crc32 (xs @ w @ ys) \<noteq> Crc32 (xs @ w' @ ys)"
proof -
  let ?c = "fold crc_byte xs 0xFFFFFFFF"
  have "?c XOR window w \<noteq> ?c XOR window w'"
    using window_inject [of w w'] assms by (auto simp: bit_eq_iff bit_simps)
  then have "fold crc_byte w ?c \<noteq> fold crc_byte w' ?c"
    using assms by (simp add: fold_crc_byte_window crc_bits_inject)
  then show ?thesis by (simp add: Crc32_def fold_crc_byte_inject)
qed

text \<open>The check value of the CRC-32 catalogue: the checksum of the ASCII string "123456789".\<close>

lemma crc_byte_code [code]:
  "crc_byte b c = crc_bit (crc_bit (crc_bit (crc_bit (crc_bit (crc_bit (crc_bit (crc_bit (c XOR ucast b))))))))"
  by (simp add: crc_byte_def numeral_eq_Suc)

lemma Crc32_check_value: "Crc32 [0x31, 0x32, 0x33, 0x34, 0x35, 0x36, 0x37, 0x38, 0x39] = 0xCBF43926"
  by code_simp

end
