(* ===== verification/Wal_Record.thy ===== *)
theory Wal_Record
  imports Posix_IO Big_Endian Crc32
begin

text \<open>
  \<^verbatim>\<open>persistence/wal_record.{h,cpp}\<close>: the on-disk form of a log record and the reader that replays a log.
  The file offset and the outcomes of \<^verbatim>\<open>read(2)\<close> are in the descriptor \<^typ>\<open>rfd\<close>. The loop
  \<^verbatim>\<open>while (true) { ReadNextWalRecord ... }\<close> occurs three times in the code (opening the writer, recovery,
  and loading the Raft log), each time with another body; it is \<open>WalScan\<close> here, with the body as argument.
\<close>

section \<open>Records and their encoding\<close>

datatype WalOp = WalOp_kSet | WalOp_kDelete

fun WalOp_byte :: "WalOp \<Rightarrow> u8" where
  "WalOp_byte WalOp_kSet = 1"
| "WalOp_byte WalOp_kDelete = 2"

record WalRecord =
  w_term :: u64
  w_index :: u64
  w_op :: WalOp
  w_key :: bytes
  w_value :: bytes

definition kFixedHeaderSize :: nat where
  "kFixedHeaderSize = 25"

definition kMaxFieldSize :: u32 where
  "kMaxFieldSize = 64 * 1024 * 1024"

definition CorruptRecord :: "string \<Rightarrow> Status" where
  "CorruptRecord why = Status_Error ErrorCode_kIOError (''wal record corrupt: '' @ why)"

definition WalBody :: "WalRecord \<Rightarrow> bytes" where
  "WalBody r =
     (let body = WriteU64BE [] (w_term r);
          body = WriteU64BE body (w_index r);
          body = WriteU8 body (WalOp_byte (w_op r));
          body = WriteU32BE body (of_nat (length (w_key r)));
          body = body @ w_key r;
          body = WriteU32BE body (of_nat (length (w_value r)))
      in body @ w_value r)"

definition EncodeWalRecord :: "WalRecord \<Rightarrow> bytes \<Rightarrow> bytes" where
  "EncodeWalRecord r out = (let body = WalBody r; out = WriteU32BE out (Crc32 body) in out @ body)"

section \<open>The reader\<close>

definition ReadNextWalRecord :: "rfd \<Rightarrow> Status \<times> WalRecord option \<times> rfd" where
  "ReadNextWalRecord fd =
    (let h = ReadSome fd kFixedHeaderSize; header = fst h; fd = snd h in
     if length header < kFixedHeaderSize then (Status_Ok, None, fd) else
     let crc = ReadU32BE header;
         trm = ReadU64BE (drop 4 header);
         index = ReadU64BE (drop 12 header);
         op = header ! 20;
         key_len = ReadU32BE (drop 21 header) in
     if key_len > kMaxFieldSize then (CorruptRecord ''key length out of range'', None, fd) else
     let k = (if key_len \<noteq> 0 then ReadSome fd (unat key_len) else ([], fd)); key = fst k; fd = snd k in
     if key_len \<noteq> 0 \<and> length key < unat key_len then (Status_Ok, None, fd) else
     let l = ReadSome fd 4; value_len_buf = fst l; fd = snd l in
     if length value_len_buf < 4 then (Status_Ok, None, fd) else
     let value_len = ReadU32BE value_len_buf in
     if value_len > kMaxFieldSize then (CorruptRecord ''value length out of range'', None, fd) else
     let v = (if value_len \<noteq> 0 then ReadSome fd (unat value_len) else ([], fd)); val = fst v; fd = snd v in
     if value_len \<noteq> 0 \<and> length val < unat value_len then (Status_Ok, None, fd) else
     let body = drop 4 header @ key @ value_len_buf @ val in
     if Crc32 body \<noteq> crc then (CorruptRecord ''CRC mismatch'', None, fd) else
     if op \<noteq> WalOp_byte WalOp_kSet \<and> op \<noteq> WalOp_byte WalOp_kDelete then (CorruptRecord ''unknown op'', None, fd) else
     if key = [] then (CorruptRecord ''empty key'', None, fd) else
     if op = WalOp_byte WalOp_kSet \<and> val = [] then (CorruptRecord ''SET with empty value'', None, fd) else
     (Status_Ok,
      Some \<lparr>w_term = trm, w_index = index,
            w_op = (if op = WalOp_byte WalOp_kSet then WalOp_kSet else WalOp_kDelete),
            w_key = key, w_value = val\<rparr>,
      fd))"

lemma if_None_eq_Some:
  "(if c then (s, None, f) else X) = (s', Some r, f') \<longleftrightarrow> \<not> c \<and> X = (s', Some r, f')"
  by simp

lemma ReadSome_le: "length (fd_rest (snd (ReadSome fd n))) \<le> length (fd_rest fd)"
  using arg_cong [OF ReadSome_consumes(1) [of fd n], of length] by simp

lemma ReadNextWalRecord_shrinks:
  assumes "ReadNextWalRecord fd = (st, Some r, fd')"
  shows "length (fd_rest fd') < length (fd_rest fd)"
proof -
  let ?h = "ReadSome fd kFixedHeaderSize"
  have opt: "length (fd_rest (snd (if c then ReadSome g n else ([], g)))) \<le> length (fd_rest g)" for c g n
    by (simp add: ReadSome_le)
  have "\<not> length (fst ?h) < kFixedHeaderSize \<and> length (fd_rest fd') \<le> length (fd_rest (snd ?h))"
    using assms unfolding ReadNextWalRecord_def Let_def if_None_eq_Some prod.inject
    by (elim conjE, hypsubst) (rule conjI, assumption, rule order_trans [OF opt order_trans [OF ReadSome_le opt]])
  then show ?thesis
    using ReadSome_consumes(1) [of fd kFixedHeaderSize, THEN arg_cong, of length]
    by (simp add: kFixedHeaderSize_def)
qed

function WalScan :: "('s \<Rightarrow> WalRecord \<Rightarrow> 's) \<Rightarrow> 's \<Rightarrow> rfd \<Rightarrow> Status \<times> 's \<times> rfd" where
  "WalScan body s fd =
     (case ReadNextWalRecord fd of (read_status, r, fd') \<Rightarrow>
        if \<not> ok read_status then (read_status, s, fd')
        else (case r of
                None \<Rightarrow> (Status_Ok, s, fd')
              | Some record \<Rightarrow> WalScan body (body s record) fd'))"
  by pat_completeness auto
termination
  by (relation "measure (\<lambda>(body, s, fd). length (fd_rest fd))") (auto dest!: sym [THEN ReadNextWalRecord_shrinks])

declare WalScan.simps [simp del]

lemma ReadNextWalRecord_suffix: "suffix (fd_os (snd (snd (ReadNextWalRecord fd)))) (fd_os fd)"
proof -
  have opt: "suffix (fd_os (snd (if c then ReadSome g n else ([], g)))) (fd_os g)" for c g n
    by (simp add: ReadSome_suffix)
  have branch: "suffix (fd_os (snd (snd A))) os \<Longrightarrow> suffix (fd_os (snd (snd B))) os
      \<Longrightarrow> suffix (fd_os (snd (snd (if c then A else B)))) os" for A B :: "Status \<times> WalRecord option \<times> rfd" and c os
    by simp
  note 1 = ReadSome_suffix [of fd kFixedHeaderSize]
  note 2 = suffix_order.trans [OF opt 1]
  note 3 = suffix_order.trans [OF ReadSome_suffix 2]
  note 4 = suffix_order.trans [OF opt 3]
  show ?thesis
    unfolding ReadNextWalRecord_def Let_def
    by (intro branch; unfold snd_conv) (rule 1 2 3 4)+
qed

lemma WalScan_suffix: "suffix (fd_os (snd (snd (WalScan body s fd)))) (fd_os fd)"
proof (induction body s fd rule: WalScan.induct)
  case (1 body s fd)
  obtain st r fd' where n: "ReadNextWalRecord fd = (st, r, fd')" by (rule prod_cases3)
  have s1: "suffix (fd_os fd') (fd_os fd)" using ReadNextWalRecord_suffix [of fd] n by simp
  show ?case
  proof (cases "ok st \<and> r \<noteq> None")
    case True
    then obtain x where "r = Some x" by auto
    with 1 [OF n [symmetric] refl _ this] True n s1 show ?thesis
      by (simp add: WalScan.simps [of _ _ fd] suffix_order.trans [OF _ s1])
  next
    case False
    with n s1 show ?thesis by (auto simp: WalScan.simps [of _ _ fd] split: option.split)
  qed
qed

section \<open>What the reader makes of an encoded record\<close>

definition WalRecordValid :: "WalRecord \<Rightarrow> bool" where
  "WalRecordValid r \<longleftrightarrow>
     w_key r \<noteq> [] \<and> (w_op r = WalOp_kSet \<longrightarrow> w_value r \<noteq> [])
     \<and> length (w_key r) \<le> unat kMaxFieldSize \<and> length (w_value r) \<le> unat kMaxFieldSize"

abbreviation WalBytes :: "WalRecord \<Rightarrow> bytes" where
  "WalBytes r \<equiv> EncodeWalRecord r []"

definition WalLog :: "WalRecord list \<Rightarrow> bytes" where
  "WalLog rs = concat (map WalBytes rs)"

definition WalTorn :: "bytes \<Rightarrow> bool" where
  "WalTorn bs \<longleftrightarrow> (\<exists>r. WalRecordValid r \<and> strict_prefix bs (WalBytes r))"

text \<open>
  A stretch of bytes whose two length fields are consistent with its size. The reader takes exactly these
  bytes, whatever the other fields hold.
\<close>

definition WalFramed :: "bytes \<Rightarrow> nat \<Rightarrow> nat \<Rightarrow> bool" where
  "WalFramed d lk lv \<longleftrightarrow>
     length d = 29 + lk + lv \<and> lk \<le> unat kMaxFieldSize \<and> lv \<le> unat kMaxFieldSize
     \<and> take 4 (drop 21 d) = WriteU32BE [] (of_nat lk) \<and> take 4 (drop (25 + lk) d) = WriteU32BE [] (of_nat lv)"

definition WalVerdict :: "bytes \<Rightarrow> nat \<Rightarrow> Status \<times> WalRecord option" where
  "WalVerdict d lk =
     (if Crc32 (drop 4 d) \<noteq> ReadU32BE d then (CorruptRecord ''CRC mismatch'', None)
      else if d ! 20 \<noteq> 1 \<and> d ! 20 \<noteq> 2 then (CorruptRecord ''unknown op'', None)
      else if lk = 0 then (CorruptRecord ''empty key'', None)
      else if d ! 20 = 1 \<and> length d = 29 + lk then (CorruptRecord ''SET with empty value'', None)
      else (Status_Ok,
        Some \<lparr>w_term = ReadU64BE (drop 4 d), w_index = ReadU64BE (drop 12 d),
              w_op = (if d ! 20 = 1 then WalOp_kSet else WalOp_kDelete),
              w_key = take lk (drop 25 d), w_value = drop (29 + lk) d\<rparr>))"

lemma unat_field [simp]:
  "n \<le> unat kMaxFieldSize \<Longrightarrow> unat (of_nat n :: u32) = n"
  by (simp add: kMaxFieldSize_def unsigned_of_nat take_bit_nat_eq_self)

lemma field_le [simp]:
  "n \<le> unat kMaxFieldSize \<Longrightarrow> (of_nat n :: u32) \<le> kMaxFieldSize"
  by (simp add: word_le_nat_alt)

lemma field_eq_0 [simp]:
  "n \<le> unat kMaxFieldSize \<Longrightarrow> (of_nat n :: u32) = 0 \<longleftrightarrow> n = 0"
  by (metis unat_field unat_0 unat_eq_zero)

lemma Read_take [simp]:
  "4 \<le> n \<Longrightarrow> ReadU32BE (take n p) = ReadU32BE p"
  "8 \<le> n \<Longrightarrow> ReadU64BE (take n p) = ReadU64BE p"
  by (simp_all add: ReadU32BE_def ReadU64BE_def)

lemma WalFramed_lengths:
  assumes "WalFramed d lk lv"
  shows "ReadU32BE (drop 21 d) = of_nat lk" "ReadU32BE (drop (25 + lk) d) = of_nat lv"
proof -
  have "ReadU32BE (drop 21 d) = ReadU32BE (take 4 (drop 21 d))"
    "ReadU32BE (drop (25 + lk) d) = ReadU32BE (take 4 (drop (25 + lk) d))" by simp_all
  then show "ReadU32BE (drop 21 d) = of_nat lk" "ReadU32BE (drop (25 + lk) d) = of_nat lv"
    using assms by (simp_all only: WalFramed_def Read_Write_exact)
qed

lemma WalFramed_body:
  assumes "length d = 29 + lk + lv"
  shows "drop 4 (take 25 d) @ take lk (drop 25 d) @ take 4 (drop (25 + lk) d) @ drop (29 + lk) d = drop 4 d"
proof -
  have "take 4 (drop (25 + lk) d) @ drop (29 + lk) d = drop (25 + lk) d"
    using append_take_drop_id [of 4 "drop (25 + lk) d"] by (simp add: add.commute)
  moreover have "take lk (drop 25 d) @ drop (25 + lk) d = drop 25 d"
    using append_take_drop_id [of lk "drop 25 d"] by (simp add: add.commute)
  moreover have "drop 4 (take 25 d) @ drop 25 d = drop 4 (take 25 d @ drop 25 d)"
    using assms drop_append [of 4 "take 25 d" "drop 25 d"] by (simp del: append_take_drop_id)
  ultimately show ?thesis by (simp only: append_take_drop_id)
qed

lemma ReadNextWalRecord_framed:
  assumes fr: "WalFramed d lk lv" and nf: "no_fail (fd_os fd)" and fd: "fd_rest fd = d @ rest"
  obtains fd' where "ReadNextWalRecord fd = (fst (WalVerdict d lk), snd (WalVerdict d lk), fd')"
    "fd_rest fd' = rest" "no_fail (fd_os fd')"
proof -
  have len: "length d = 29 + lk + lv" and lk: "lk \<le> unat kMaxFieldSize" and lv: "lv \<le> unat kMaxFieldSize"
    using fr by (simp_all add: WalFramed_def)
  define fd1 where "fd1 = snd (ReadSome fd 25)"
  have h: "ReadSome fd 25 = (take 25 d, fd1)" and r1: "fd_rest fd1 = drop 25 d @ rest" "no_fail (fd_os fd1)"
    using nf fd len by (simp_all add: fd1_def prod_eq_iff)
  define k where "k = (if lk \<noteq> 0 then ReadSome fd1 lk else ([], fd1))"
  define fd2 where "fd2 = snd k"
  have k: "k = (take lk (drop 25 d), fd2)" and r2: "fd_rest fd2 = drop (25 + lk) d @ rest" "no_fail (fd_os fd2)"
    using r1 len by (simp_all add: fd2_def k_def prod_eq_iff add.commute)
  define fd3 where "fd3 = snd (ReadSome fd2 4)"
  have l: "ReadSome fd2 4 = (take 4 (drop (25 + lk) d), fd3)"
    and r3: "fd_rest fd3 = drop (29 + lk) d @ rest" "no_fail (fd_os fd3)"
    using r2 len by (simp_all add: fd3_def prod_eq_iff)
  define v where "v = (if lv \<noteq> 0 then ReadSome fd3 lv else ([], fd3))"
  define fd4 where "fd4 = snd v"
  have v: "v = (drop (29 + lk) d, fd4)" and r4: "fd_rest fd4 = rest" "no_fail (fd_os fd4)"
    using r3 len by (simp_all add: fd4_def v_def prod_eq_iff)
  note L = WalFramed_lengths [OF fr]
  have n: "take 25 d ! 20 = d ! 20" "ReadU32BE (take 25 d) = ReadU32BE d"
    "ReadU64BE (drop 4 (take 25 d)) = ReadU64BE (drop 4 d)" "ReadU64BE (drop 12 (take 25 d)) = ReadU64BE (drop 12 d)"
    "ReadU32BE (drop 21 (take 25 d)) = of_nat lk" "ReadU32BE (take 4 (drop (25 + lk) d)) = of_nat lv"
    using L by (simp_all add: drop_take)
  have nle: "\<not> kMaxFieldSize < of_nat lk" "\<not> kMaxFieldSize < of_nat lv" using lk lv by (simp_all add: not_less)
  have lens: "length (take lk (drop 25 d)) = lk" "length (take 4 (drop (25 + lk) d)) = 4"
    "length (drop (29 + lk) d) = lv" "length (take 25 d) = 25" using len by simp_all
  have empty: "take lk (drop 25 d) = [] \<longleftrightarrow> lk = 0" "drop (29 + lk) d = [] \<longleftrightarrow> lv = 0"
    using len by auto
  have "ReadNextWalRecord fd = (fst (WalVerdict d lk), snd (WalVerdict d lk), fd4)"
    unfolding ReadNextWalRecord_def kFixedHeaderSize_def Let_def h fst_conv snd_conv n lens nle
      field_eq_0 [OF lk] field_eq_0 [OF lv] unat_field [OF lk] unat_field [OF lv] WalOp_byte.simps
      k_def [symmetric] k l v_def [symmetric] v WalFramed_body [OF len] empty
    by (simp add: WalVerdict_def len nle)
  then show thesis using r4 that by blast
qed

lemma ReadNextWalRecord_truncated:
  assumes fr: "WalFramed d lk lv" and nf: "no_fail (fd_os fd)"
    and fd: "fd_rest fd = take n d" and n: "n < length d"
  obtains fd' where "ReadNextWalRecord fd = (Status_Ok, None, fd')"
proof -
  have len: "length d = 29 + lk + lv" and lk: "lk \<le> unat kMaxFieldSize" and lv: "lv \<le> unat kMaxFieldSize"
    using fr by (simp_all add: WalFramed_def)
  note L = WalFramed_lengths [OF fr]
  have nle: "\<not> kMaxFieldSize < of_nat lk" "\<not> kMaxFieldSize < of_nat lv" using lk lv by (simp_all add: not_less)
  define fd1 where "fd1 = snd (ReadSome fd 25)"
  have h: "ReadSome fd 25 = (take (min 25 n) d, fd1)" and r1: "fd_rest fd1 = drop 25 (take n d)" "no_fail (fd_os fd1)"
    using nf fd by (simp_all add: fd1_def prod_eq_iff)
  show thesis
  proof (cases "n < 25")
    case True
    then have "length (take (min 25 n) d) < 25" by simp
    then have "ReadNextWalRecord fd = (Status_Ok, None, fd1)"
      unfolding ReadNextWalRecord_def kFixedHeaderSize_def Let_def h fst_conv snd_conv by (simp only: if_True)
    then show thesis by (rule that)
  next
    case False
    then have h: "ReadSome fd 25 = (take 25 d, fd1)" using h by (simp add: min_def)
    have kl: "ReadU32BE (drop 21 (take 25 d)) = of_nat lk" using L by (simp add: drop_take)
    define k where "k = (if lk \<noteq> 0 then ReadSome fd1 lk else ([], fd1))"
    define fd2 where "fd2 = snd k"
    have k: "k = (take lk (drop 25 (take n d)), fd2)" and r2: "fd_rest fd2 = drop (25 + lk) (take n d)" "no_fail (fd_os fd2)"
      using r1 by (simp_all add: fd2_def k_def prod_eq_iff add.commute)
    define fd3 where "fd3 = snd (ReadSome fd2 4)"
    have l: "ReadSome fd2 4 = (take 4 (drop (25 + lk) (take n d)), fd3)"
      and r3: "fd_rest fd3 = drop (29 + lk) (take n d)" "no_fail (fd_os fd3)"
      using r2 by (simp_all add: fd3_def prod_eq_iff)
    define v where "v = (if lv \<noteq> 0 then ReadSome fd3 lv else ([], fd3))"
    have v: "fst v = drop (29 + lk) (take n d)" using r3 len n by (auto simp: v_def)
    have vl: "ReadU32BE (take 4 (drop (25 + lk) (take n d))) = of_nat lv" if "n \<ge> 29 + lk"
      using L(2) that by (simp add: drop_take)
    have l25: "length (take 25 d) = 25" using len by simp
    note unfold1 = ReadNextWalRecord_def kFixedHeaderSize_def Let_def h fst_conv snd_conv l25 kl
        field_eq_0 [OF lk] unat_field [OF lk] k_def [symmetric] k l
    have "\<exists>fd'. ReadNextWalRecord fd = (Status_Ok, None, fd')"
    proof (cases "n < 25 + lk")
      case True
      then have c: "(lk \<noteq> 0 \<and> length (take lk (drop 25 (take n d))) < lk) = True" using False n by auto
      show ?thesis unfolding unfold1 by (simp only: less_irrefl nle c if_True if_False) blast
    next
      case nk: False
      have c: "(lk \<noteq> 0 \<and> length (take lk (drop 25 (take n d))) < lk) = False" using nk n by auto
      show ?thesis
      proof (cases "n < 29 + lk")
        case True
        then have c2: "(length (take 4 (drop (25 + lk) (take n d))) < 4) = True" using n by auto
        show ?thesis unfolding unfold1 by (simp only: less_irrefl nle c c2 if_True if_False) blast
      next
        case False
        then have c2: "(length (take 4 (drop (25 + lk) (take n d))) < 4) = False" using n by auto
        have c3: "(lv \<noteq> 0 \<and> length (fst v) < lv) = True" using False n len v by auto
        have vl: "ReadU32BE (take 4 (drop (25 + lk) (take n d))) = of_nat lv" using vl False by simp
        show ?thesis unfolding unfold1 vl field_eq_0 [OF lv] unat_field [OF lv] v_def [symmetric]
          by (simp only: less_irrefl nle c c2 c3 if_True if_False) blast
      qed
    qed
    then show thesis using that by blast
  qed
qed

section \<open>Replaying a log\<close>

lemma WalBody_eq:
  "WalBody r = WriteU64BE [] (w_term r) @ WriteU64BE [] (w_index r) @ [WalOp_byte (w_op r)]
     @ WriteU32BE [] (of_nat (length (w_key r))) @ w_key r @ WriteU32BE [] (of_nat (length (w_value r))) @ w_value r"
  unfolding WalBody_def Let_def WriteU8_def
  by (simp only: WriteU64BE_append [of "WriteU64BE [] (w_term r)"]
      WriteU32BE_append [of "_ @ _"] append_assoc)

lemma WalBytes_eq: "WalBytes r = WriteU32BE [] (Crc32 (WalBody r)) @ WalBody r"
  by (simp add: EncodeWalRecord_def Let_def)

lemma EncodeWalRecord_append: "EncodeWalRecord r out = out @ WalBytes r"
  by (simp add: EncodeWalRecord_def Let_def WriteU32BE_append [of out])

lemma length_WalBytes: "length (WalBytes r) = 29 + length (w_key r) + length (w_value r)"
  by (simp add: WalBytes_eq WalBody_eq)

lemma WalFramed_WalBytes:
  "WalRecordValid r \<Longrightarrow> WalFramed (WalBytes r) (length (w_key r)) (length (w_value r))"
  unfolding WalFramed_def WalRecordValid_def
  by (simp add: length_WalBytes) (simp add: WalBytes_eq WalBody_eq)

lemma WalVerdict_WalBytes:
  assumes "WalRecordValid r"
  shows "WalVerdict (WalBytes r) (length (w_key r)) = (Status_Ok, Some r)"
proof -
  have "ReadU32BE (WalBytes r) = Crc32 (WalBody r)" "drop 4 (WalBytes r) = WalBody r"
    by (simp_all add: WalBytes_eq be_simps)
  moreover have "WalBytes r ! 20 = WalOp_byte (w_op r)"
    by (simp add: WalBytes_eq WalBody_eq nth_append)
  moreover have "ReadU64BE (WalBody r) = w_term r" "ReadU64BE (drop 12 (WalBytes r)) = w_index r"
    by (simp_all add: WalBytes_eq WalBody_eq be_simps)
  moreover have "take (length (w_key r)) (drop 25 (WalBytes r)) = w_key r"
    "drop (29 + length (w_key r)) (WalBytes r) = w_value r"
    by (simp_all add: WalBytes_eq WalBody_eq)
  ultimately show ?thesis
    using assms length_WalBytes [of r] unfolding WalVerdict_def WalRecordValid_def
    by (cases r; cases "w_op r") auto
qed

lemma WalTornE:
  assumes "WalTorn bs"
  obtains r n where "WalRecordValid r" "bs = take n (WalBytes r)" "n < length (WalBytes r)"
proof -
  obtain r where r: "WalRecordValid r" "strict_prefix bs (WalBytes r)" using assms by (auto simp: WalTorn_def)
  then have "bs = take (length bs) (WalBytes r)" "length bs < length (WalBytes r)"
    by (auto simp: prefix_length_less strict_prefix_def prefix_def)
  with r that show thesis by blast
qed

lemma WalTorn_Nil [simp]: "WalTorn []"
  unfolding WalTorn_def
  by (intro exI [of _ "\<lparr>w_term = 0, w_index = 0, w_op = WalOp_kDelete, w_key = [0], w_value = []\<rparr>"])
    (auto simp: WalRecordValid_def kMaxFieldSize_def strict_prefix_def WalBytes_eq WriteU32BE_def)

text \<open>Reading a stretch of whole records applies the body to each of them and leaves the rest.\<close>

lemma WalScan_records:
  assumes "\<forall>r \<in> set rs. WalRecordValid r" "no_fail (fd_os fd)" "fd_rest fd = WalLog rs @ rest"
  obtains fd' where "WalScan body s fd = WalScan body (fold (\<lambda>r s. body s r) rs s) fd'"
    "no_fail (fd_os fd')" "fd_rest fd' = rest"
  using assms
proof (induction rs arbitrary: s fd thesis)
  case Nil
  then show ?case by (auto simp: WalLog_def)
next
  case (Cons r rs)
  have v: "WalRecordValid r" using Cons.prems by simp
  obtain fd1 where "ReadNextWalRecord fd = (Status_Ok, Some r, fd1)" "fd_rest fd1 = WalLog rs @ rest"
      "no_fail (fd_os fd1)"
    using ReadNextWalRecord_framed [OF WalFramed_WalBytes [OF v] Cons.prems(3), of "WalLog rs @ rest"]
      Cons.prems(4) WalVerdict_WalBytes [OF v] by (auto simp: WalLog_def)
  note 1 = this
  obtain fd' where "WalScan body (body s r) fd1 = WalScan body (fold (\<lambda>r s. body s r) rs (body s r)) fd'"
      "no_fail (fd_os fd')" "fd_rest fd' = rest"
    by (rule Cons.IH [of "body s r" fd1]) (use 1 Cons.prems in auto)
  with 1 show ?case by (intro Cons.prems(1) [of fd']) (simp_all add: WalScan.simps [of _ _ fd])
qed

lemma WalScan_torn:
  assumes "WalTorn (fd_rest fd)" "no_fail (fd_os fd)"
  shows "fst (WalScan body s fd) = Status_Ok" "fst (snd (WalScan body s fd)) = s"
proof -
  obtain r n where r: "WalRecordValid r" "fd_rest fd = take n (WalBytes r)" "n < length (WalBytes r)"
    using assms(1) by (rule WalTornE)
  obtain fd' where "ReadNextWalRecord fd = (Status_Ok, None, fd')"
    using ReadNextWalRecord_truncated [OF WalFramed_WalBytes [OF r(1)] assms(2) r(2,3)] .
  then show "fst (WalScan body s fd) = Status_Ok" "fst (snd (WalScan body s fd)) = s"
    by (simp_all add: WalScan.simps [of _ _ fd])
qed

lemma WalScan_log:
  assumes "\<forall>r \<in> set rs. WalRecordValid r" "WalTorn tail" "no_fail (fd_os fd)" "fd_rest fd = WalLog rs @ tail"
  shows "fst (WalScan body s fd) = Status_Ok" "fst (snd (WalScan body s fd)) = fold (\<lambda>r s. body s r) rs s"
proof -
  obtain fd' where "WalScan body s fd = WalScan body (fold (\<lambda>r s. body s r) rs s) fd'"
      "no_fail (fd_os fd')" "fd_rest fd' = tail"
    using WalScan_records [OF assms(1,3,4)] .
  with WalScan_torn [of fd'] assms(2)
  show "fst (WalScan body s fd) = Status_Ok" "fst (snd (WalScan body s fd)) = fold (\<lambda>r s. body s r) rs s"
    by simp_all
qed

section \<open>Damaged records\<close>

text \<open>
  \<open>WalBurst r d\<close>: the bytes \<open>d\<close> are the encoding of \<open>r\<close> with up to four adjacent bytes overwritten, either all in
  the checksum or all in what it covers, and with the two length fields intact.
\<close>

definition WalBurst :: "WalRecord \<Rightarrow> bytes \<Rightarrow> bool" where
  "WalBurst r d \<longleftrightarrow>
     (\<exists>xs w w' ys. WalBytes r = xs @ w @ ys \<and> d = xs @ w' @ ys \<and> length w' = length w \<and> length w \<le> 4 \<and> w' \<noteq> w
        \<and> (length xs + length w \<le> 4 \<or> 4 \<le> length xs)
        \<and> take 4 (drop 21 d) = take 4 (drop 21 (WalBytes r))
        \<and> take 4 (drop (25 + length (w_key r)) d) = take 4 (drop (25 + length (w_key r)) (WalBytes r)))"

lemma WalBurst_framed:
  assumes "WalRecordValid r" "WalBurst r d"
  shows "WalFramed d (length (w_key r)) (length (w_value r))"
proof -
  have "length d = length (WalBytes r)" using assms(2) by (auto simp: WalBurst_def)
  with WalFramed_WalBytes [OF assms(1)] assms(2) show ?thesis
    by (auto simp: WalFramed_def WalBurst_def)
qed

lemma WalBurst_verdict:
  assumes "WalBurst r d"
  shows "WalVerdict d lk = (CorruptRecord ''CRC mismatch'', None)"
proof -
  obtain xs w w' ys where b: "WalBytes r = xs @ w @ ys" "d = xs @ w' @ ys" "length w' = length w" "length w \<le> 4" "w' \<noteq> w"
      "length xs + length w \<le> 4 \<or> 4 \<le> length xs"
    using assms by (auto simp: WalBurst_def)
  have split: "WalBytes r = WriteU32BE [] (Crc32 (WalBody r)) @ WalBody r" by (rule WalBytes_eq)
  have "Crc32 (drop 4 d) \<noteq> ReadU32BE d"
  proof (cases "4 \<le> length xs")
    case True
    then have x: "take 4 xs = WriteU32BE [] (Crc32 (WalBody r))" "drop 4 xs @ w @ ys = WalBody r"
      using arg_cong [OF b(1) [unfolded split], of "take 4"] arg_cong [OF b(1) [unfolded split], of "drop 4"] by simp_all
    have "ReadU32BE d = ReadU32BE (take 4 xs @ drop 4 xs @ w' @ ys)"
      unfolding b(2) by (simp only: append_assoc [symmetric] append_take_drop_id)
    then have "ReadU32BE d = Crc32 (drop 4 xs @ w @ ys)" by (simp only: x ReadU32BE_Write)
    moreover have "drop 4 d = drop 4 xs @ w' @ ys" using True b(2) by simp
    ultimately show ?thesis using Crc32_burst [of w' w "drop 4 xs" ys] b by simp
  next
    case False
    then have le: "length xs + length w \<le> 4" using b(6) by simp
    define zs where "zs = drop (4 - length xs - length w) ys"
    have "drop 4 d = zs" "drop 4 (WalBytes r) = zs" using le False b(1-3) by (simp_all add: zs_def)
    then have d4: "drop 4 d = WalBody r" using split by simp
    have "d = take 4 d @ WalBody r" using d4 append_take_drop_id [of 4 d] by simp
    moreover have "length (take 4 d) = 4"
      using b(1-3) length_WalBytes [of r] by simp
    ultimately have "d = WriteU32BE [] (ReadU32BE d) @ WalBody r"
      using WriteU32BE_Read [of "take 4 d" "WalBody r"] by simp
    moreover have "d \<noteq> WalBytes r" using b by simp
    ultimately show ?thesis using split d4 by auto
  qed
  then show ?thesis by (simp add: WalVerdict_def)
qed

lemma WalScan_burst:
  assumes "\<forall>r \<in> set rs. WalRecordValid r" "WalRecordValid r" "WalBurst r d" "no_fail (fd_os fd)"
    "fd_rest fd = WalLog rs @ d @ rest"
  shows "fst (WalScan body s fd) = CorruptRecord ''CRC mismatch''"
    "fst (snd (WalScan body s fd)) = fold (\<lambda>r s. body s r) rs s"
proof -
  obtain fd1 where 1: "WalScan body s fd = WalScan body (fold (\<lambda>r s. body s r) rs s) fd1"
      "no_fail (fd_os fd1)" "fd_rest fd1 = d @ rest"
    using WalScan_records [OF assms(1,4,5)] .
  obtain fd2 where "ReadNextWalRecord fd1 = (CorruptRecord ''CRC mismatch'', None, fd2)"
    using ReadNextWalRecord_framed [OF WalBurst_framed [OF assms(2,3)] 1(2,3)] WalBurst_verdict [OF assms(3)]
    by auto
  with 1 show "fst (WalScan body s fd) = CorruptRecord ''CRC mismatch''"
    "fst (snd (WalScan body s fd)) = fold (\<lambda>r s. body s r) rs s"
    by (simp_all add: WalScan.simps [of _ _ fd1] CorruptRecord_def)
qed

section \<open>Properties\<close>

lemma fold_snoc: "fold (\<lambda>r acc. acc @ [r]) rs acc = acc @ rs"
  by (induction rs arbitrary: acc) auto

text \<open>
  C17. Replay of a log. Reading back a file that holds the encodings of any valid records followed by a
  torn tail (a strict prefix of one more record, as a crash in the middle of a write leaves it) answers Ok and
  hands exactly these records, in order, to the loop body. This holds however the operating system chops and
  interrupts the reads, as long as no read fails.
\<close>

theorem wal_replay:
  assumes "\<forall>r \<in> set rs. WalRecordValid r" and "WalTorn tail" and "no_fail os"
  shows "\<exists>fd'. WalScan (\<lambda>acc r. acc @ [r]) [] \<lparr>fd_rest = WalLog rs @ tail, fd_os = os\<rparr> = (Status_Ok, rs, fd')"
proof -
  let ?fd = "\<lparr>fd_rest = WalLog rs @ tail, fd_os = os\<rparr>"
  show ?thesis
    using WalScan_log [OF assms(1,2), of ?fd "\<lambda>acc r. acc @ [r]" "[]"] assms(3)
    by (intro exI [of _ "snd (snd (WalScan (\<lambda>acc r. acc @ [r]) [] ?fd))"]) (simp add: prod_eq_iff fold_snoc)
qed

definition wal_example :: WalRecord where
  "wal_example = \<lparr>w_term = 3, w_index = 7, w_op = WalOp_kSet, w_key = [107], w_value = [118, 119]\<rparr>"

theorem wal_replay_witness:
  "\<exists>fd'. WalScan (\<lambda>acc r. acc @ [r]) [] \<lparr>fd_rest = WalLog [wal_example] @ take 5 (WalBytes wal_example),
       fd_os = [SysShort 2, SysIntr, SysShort 0]\<rparr> = (Status_Ok, [wal_example], fd')"
proof -
  have "WalRecordValid wal_example" by (simp add: wal_example_def WalRecordValid_def kMaxFieldSize_def)
  moreover have "strict_prefix (take 5 (WalBytes wal_example)) (WalBytes wal_example)"
    by (auto simp: strict_prefix_def take_is_prefix length_WalBytes dest!: arg_cong [of _ _ length])
  ultimately show ?thesis
    by (intro wal_replay) (auto simp: WalTorn_def)
qed

text \<open>
  C18. Damage to a record is reported. If up to four adjacent bytes of one record of the log are overwritten with anything else, all of them in the checksum or all of them in the bytes
  the checksum covers, and the two length fields keep their values, then replay stops at that record with an I/O error, having delivered exactly the records before it. Reads
  may be short or interrupted but do not fail. (A burst across the border between the two is excluded, since it can leave a
  checksum that matches.)
\<close>

theorem wal_damage_reported:
  assumes "\<forall>r \<in> set rs. WalRecordValid r" and "WalRecordValid r" and "WalBurst r d" and "no_fail os"
  shows "\<exists>fd'. WalScan (\<lambda>acc r. acc @ [r]) [] \<lparr>fd_rest = WalLog rs @ d @ rest, fd_os = os\<rparr>
           = (Status_Error ErrorCode_kIOError ''wal record corrupt: CRC mismatch'', rs, fd')"
proof -
  let ?fd = "\<lparr>fd_rest = WalLog rs @ d @ rest, fd_os = os\<rparr>"
  show ?thesis
    using WalScan_burst [OF assms(1,2,3), of ?fd rest "\<lambda>acc r. acc @ [r]" "[]"] assms(4)
    by (intro exI [of _ "snd (snd (WalScan (\<lambda>acc r. acc @ [r]) [] ?fd))"]) (simp add: prod_eq_iff fold_snoc CorruptRecord_def)
qed

theorem wal_damage_reported_witness:
  "\<exists>fd'. WalScan (\<lambda>acc r. acc @ [r]) []
       \<lparr>fd_rest = WalLog [wal_example] @ (take 30 (WalBytes wal_example) @ [0, 0]) @ [1, 2, 3], fd_os = [SysIntr]\<rparr>
     = (Status_Error ErrorCode_kIOError ''wal record corrupt: CRC mismatch'', [wal_example], fd')"
proof -
  have v: "WalRecordValid wal_example" by (simp add: wal_example_def WalRecordValid_def kMaxFieldSize_def)
  obtain p where p: "WalBytes wal_example = p @ [118, 119]" and lp: "length p = 30"
    by (rule that [of "take 30 (WalBytes wal_example)"])
      (simp_all add: WalBytes_eq WalBody_eq wal_example_def WriteU32BE_def WriteU64BE_def)
  have k: "length (w_key wal_example) = 1" by (simp add: wal_example_def)
  have "WalBurst wal_example (p @ [0, 0])"
    unfolding WalBurst_def p k
    by (intro exI [of _ p] exI [of _ "[118, 119]"] exI [of _ "[0, 0]"] exI [of _ "[]"]) (simp add: lp)
  moreover have "take 30 (WalBytes wal_example) = p" unfolding p by (simp add: lp)
  ultimately show ?thesis by (intro wal_damage_reported) (use v in auto)
qed

end
