(* ===== verification/Wal_Writer.thy ===== *)
theory Wal_Writer
  imports Wal_Record
begin

text \<open>
  \<^verbatim>\<open>persistence/wal_writer.{h,cpp}\<close>: the append-only writer. The state holds the members of the class, the
  contents of \<^verbatim>\<open>wal.log\<close> as the process sees them (\<open>ww_file\<close>), what the last successful \<^verbatim>\<open>fsync\<close> made durable
  (\<open>ww_disk\<close>) and the outcomes of the system calls to come (\<open>ww_os\<close>). An errno is named by its \<^verbatim>\<open>strerror\<close> text.

  Every method runs under \<^verbatim>\<open>mutex_\<close> except where \<^verbatim>\<open>Sync\<close> waits on the condition variable. \<^verbatim>\<open>Sync\<close> is therefore given
  by the pieces between its waits (\<open>Sync_enter\<close>, \<open>Sync_lead\<close>, \<open>Sync_batch_open\<close>, \<open>Sync_flush\<close>), from which the
  interleaving model of the theory \<^verbatim>\<open>Group_Commit\<close> is built; \<open>WalWriter_Sync\<close> composes them for a caller that
  is alone, with \<open>None\<close> for a wait that nobody will end.
\<close>

section \<open>Error numbers\<close>

definition errno_EEXIST :: string where "errno_EEXIST = ''File exists''"
definition errno_ENOENT :: string where "errno_ENOENT = ''No such file or directory''"

section \<open>MakeDirectoryRecursive\<close>

text \<open>
  \<^verbatim>\<open>path.find('/', pos)\<close>, with \<^verbatim>\<open>npos\<close> already replaced by the length of the path. The result lists the
  directories \<^verbatim>\<open>mkdir\<close> was called on.
\<close>

definition find_slash :: "string \<Rightarrow> nat \<Rightarrow> nat" where
  "find_slash path pos = pos + length (takeWhile (\<lambda>c. c \<noteq> CHR ''/'') (drop pos path))"

function MakeDirectory_loop ::
  "string \<Rightarrow> string \<Rightarrow> nat \<Rightarrow> sys list \<Rightarrow> string list \<Rightarrow> Status \<times> string list \<times> sys list" where
  "MakeDirectory_loop path partial pos os dirs =
     (if pos \<le> length path then
        let nxt = find_slash path pos;
            partial = partial @ take (nxt - pos) (drop pos path) in
        if partial \<noteq> [] then
          let c = sys_call os; os = snd c in
          case fst c of
            Some e \<Rightarrow>
              if e \<noteq> errno_EEXIST then
                (Status_Error ErrorCode_kIOError (''mkdir '' @ partial @ '': '' @ e), dirs @ [partial], os)
              else MakeDirectory_loop path (partial @ ''/'') (nxt + 1) os (dirs @ [partial])
          | None \<Rightarrow> MakeDirectory_loop path (partial @ ''/'') (nxt + 1) os (dirs @ [partial])
        else MakeDirectory_loop path (partial @ ''/'') (nxt + 1) os dirs
      else (Status_Ok, dirs, os))"
  by pat_completeness auto
termination
  by (relation "measure (\<lambda>(path, partial, pos, os, dirs). Suc (length path) - pos)")
    (auto simp: find_slash_def)

declare MakeDirectory_loop.simps [simp del]

definition MakeDirectoryRecursive :: "string \<Rightarrow> sys list \<Rightarrow> Status \<times> string list \<times> sys list" where
  "MakeDirectoryRecursive path os =
     (if path \<noteq> [] \<and> hd path = CHR ''/'' then MakeDirectory_loop path ''/'' 1 os []
      else MakeDirectory_loop path [] 0 os [])"

section \<open>The writer\<close>

record WalWriter =
  ww_open_status :: Status
  ww_last_index :: u64
  ww_synced_index :: u64
  ww_flush_in_progress :: bool
  ww_fsync_count :: u64
  ww_file :: bytes
  ww_disk :: bytes
  ww_os :: "sys list"

definition kGroupCommitMaxRecords :: int where
  "kGroupCommitMaxRecords = 16"

text \<open>
  \<^verbatim>\<open>OpenOrCreate\<close> on a data directory in which \<^verbatim>\<open>wal.log\<close> holds the bytes \<open>file\<close> (none, when it does not exist).
  What is found on disk at open time is durable.
\<close>

definition WalWriter_fresh :: "bytes \<Rightarrow> sys list \<Rightarrow> WalWriter" where
  "WalWriter_fresh file os =
     \<lparr>ww_open_status = Status_Ok, ww_last_index = 0, ww_synced_index = 0, ww_flush_in_progress = False,
      ww_fsync_count = 0, ww_file = file, ww_disk = file, ww_os = os\<rparr>"

definition WalWriter_OpenOrCreate :: "string \<Rightarrow> WalWriter \<Rightarrow> Status \<times> WalWriter" where
  "WalWriter_OpenOrCreate data_dir w =
     (let wal_dir = data_dir @ ''/wal'';
          m = MakeDirectoryRecursive wal_dir (ww_os w); w = w\<lparr>ww_os := snd (snd m)\<rparr> in
      if \<not> ok (fst m) then (fst m, w)
      else
        let wal_path = wal_dir @ ''/wal.log'';
            c = sys_call (ww_os w); w = w\<lparr>ww_os := snd c\<rparr> in
        case fst c of
          Some e \<Rightarrow> (Status_Error ErrorCode_kIOError (''open '' @ wal_path @ '': '' @ e), w)
        | None \<Rightarrow>
            let c = sys_call (ww_os w); w = w\<lparr>ww_os := snd c\<rparr> in
            case fst c of
              Some e \<Rightarrow> (Status_Error ErrorCode_kIOError (''lseek '' @ wal_path @ '': '' @ e), w)
            | None \<Rightarrow>
                (case WalScan (\<lambda>_ record. w_index record) (ww_last_index w) \<lparr>fd_rest = ww_file w, fd_os = ww_os w\<rparr> of
                   (st, last_index, fd) \<Rightarrow>
                     let w = w\<lparr>ww_last_index := last_index, ww_os := fd_os fd\<rparr> in
                     if \<not> ok st then (st, w)
                     else (Status_Ok, w\<lparr>ww_synced_index := ww_last_index w\<rparr>)))"

definition WalWriter_new :: "string \<Rightarrow> bytes \<Rightarrow> sys list \<Rightarrow> WalWriter" where
  "WalWriter_new data_dir file os =
     (case WalWriter_OpenOrCreate data_dir (WalWriter_fresh file os) of (st, w) \<Rightarrow> w\<lparr>ww_open_status := st\<rparr>)"

text \<open>\<^verbatim>\<open>WriteAll\<close> on the writer's descriptor, which is open for appending.\<close>

definition WalWriter_write :: "WalWriter \<Rightarrow> bytes \<Rightarrow> Status \<times> WalWriter" where
  "WalWriter_write w bs =
     (case WriteAll \<lparr>wf_data = ww_file w, wf_os = ww_os w\<rparr> bs of
        (st, fd) \<Rightarrow> (st, w\<lparr>ww_file := wf_data fd, ww_os := wf_os fd\<rparr>))"

definition WalWriter_Append :: "WalWriter \<Rightarrow> WalRecord \<Rightarrow> u64 Result \<times> WalWriter" where
  "WalWriter_Append w record =
     (if \<not> ok (ww_open_status w) then (Inl (ww_open_status w), w)
      else
        let record = record\<lparr>w_index := ww_last_index w + 1\<rparr>;
            encoded = EncodeWalRecord record [] in
        case WalWriter_write w encoded of
          (status, w) \<Rightarrow>
            if \<not> ok status then (Inl status, w)
            else (Inr (w_index record), w\<lparr>ww_last_index := w_index record\<rparr>))"

definition WalWriter_FsyncNow :: "WalWriter \<Rightarrow> Status \<times> WalWriter" where
  "WalWriter_FsyncNow w =
     (let c = sys_call (ww_os w); w = w\<lparr>ww_os := snd c\<rparr> in
      case fst c of
        Some e \<Rightarrow> (Status_Error ErrorCode_kIOError (''fsync wal: '' @ e), w)
      | None \<Rightarrow> (Status_Ok, w\<lparr>ww_disk := ww_file w, ww_fsync_count := ww_fsync_count w + 1\<rparr>))"

section \<open>Sync, piece by piece\<close>

datatype SyncNext = SyncReturn Status | SyncWait | SyncLead

definition Sync_enter :: "WalWriter \<Rightarrow> u64 \<Rightarrow> SyncNext" where
  "Sync_enter w at_least_index =
     (if \<not> ok (ww_open_status w) then SyncReturn (ww_open_status w)
      else if ww_synced_index w \<ge> at_least_index then SyncReturn Status_Ok
      else if ww_flush_in_progress w then SyncWait
      else SyncLead)"

text \<open>The predicate of the follower's wait, and what the follower does when the wait is over.\<close>

definition Sync_wait_over :: "WalWriter \<Rightarrow> u64 \<Rightarrow> bool" where
  "Sync_wait_over w at_least_index \<longleftrightarrow> ww_synced_index w \<ge> at_least_index \<or> \<not> ww_flush_in_progress w"

definition Sync_waited :: "WalWriter \<Rightarrow> u64 \<Rightarrow> SyncNext" where
  "Sync_waited w at_least_index =
     (if ww_synced_index w \<ge> at_least_index then SyncReturn Status_Ok else SyncLead)"

definition Sync_lead :: "WalWriter \<Rightarrow> WalWriter" where
  "Sync_lead w = w\<lparr>ww_flush_in_progress := True\<rparr>"

text \<open>
  The leader's loop waits as long as the batch is open, the deadline is ahead and the last tick brought a new
  record. \<^verbatim>\<open>static_cast<int>\<close> keeps the low 32 bits and reads them as signed.
\<close>

definition Sync_batch_open :: "WalWriter \<Rightarrow> bool" where
  "Sync_batch_open w \<longleftrightarrow>
     sint (ucast (ww_last_index w - ww_synced_index w) :: 32 word) < kGroupCommitMaxRecords"

definition Sync_flush :: "WalWriter \<Rightarrow> u64 \<Rightarrow> Status \<times> WalWriter" where
  "Sync_flush w at_least_index =
     (case WalWriter_FsyncNow w of
        (status, w) \<Rightarrow>
          let w = (if ok status then w\<lparr>ww_synced_index := ww_last_index w\<rparr> else w);
              w = w\<lparr>ww_flush_in_progress := False\<rparr> in
          if \<not> ok status then (status, w)
          else (if ww_synced_index w \<ge> at_least_index then Status_Ok else status, w))"

definition WalWriter_Sync :: "WalWriter \<Rightarrow> u64 \<Rightarrow> (Status \<times> WalWriter) option" where
  "WalWriter_Sync w at_least_index =
     (case Sync_enter w at_least_index of
        SyncReturn st \<Rightarrow> Some (st, w)
      | SyncLead \<Rightarrow> Some (Sync_flush (Sync_lead w) at_least_index)
      | SyncWait \<Rightarrow> None)"

section \<open>RewriteAll\<close>

fun RewriteAll_loop :: "WalWriter \<Rightarrow> WalRecord list \<Rightarrow> Status \<times> WalWriter" where
  "RewriteAll_loop w [] = (Status_Ok, w)"
| "RewriteAll_loop w (record # records) =
     (case WalWriter_write w (EncodeWalRecord record []) of
        (status, w) \<Rightarrow> if \<not> ok status then (status, w) else RewriteAll_loop w records)"

definition WalWriter_RewriteAll :: "WalWriter \<Rightarrow> WalRecord list \<Rightarrow> Status \<times> WalWriter" where
  "WalWriter_RewriteAll w records =
     (if \<not> ok (ww_open_status w) then (ww_open_status w, w)
      else
        let c = sys_call (ww_os w); w = w\<lparr>ww_os := snd c\<rparr> in
        case fst c of
          Some e \<Rightarrow> (Status_Error ErrorCode_kIOError (''ftruncate wal: '' @ e), w)
        | None \<Rightarrow>
            let w = w\<lparr>ww_file := []\<rparr>;
                c = sys_call (ww_os w); w = w\<lparr>ww_os := snd c\<rparr> in
            case fst c of
              Some e \<Rightarrow> (Status_Error ErrorCode_kIOError (''lseek wal: '' @ e), w)
            | None \<Rightarrow>
                (case RewriteAll_loop w records of
                   (status, w) \<Rightarrow>
                     if \<not> ok status then (status, w)
                     else
                       (case WalWriter_FsyncNow w of
                          (status, w) \<Rightarrow>
                            if \<not> ok status then (status, w)
                            else
                              let w = w\<lparr>ww_last_index := (if records = [] then 0 else w_index (last records))\<rparr> in
                              (Status_Ok, w\<lparr>ww_synced_index := ww_last_index w\<rparr>))))"

section \<open>What each method does, on every outcome\<close>

lemma WalWriter_write_cases:
  assumes "WalWriter_write w bs = (st, w')"
  obtains k os where "w' = w\<lparr>ww_file := ww_file w @ take k bs, ww_os := os\<rparr>" "ok st \<longrightarrow> k = length bs"
proof -
  obtain fd where a: "WriteAll \<lparr>wf_data = ww_file w, wf_os = ww_os w\<rparr> bs = (st, fd)"
    and w': "w' = w\<lparr>ww_file := wf_data fd, ww_os := wf_os fd\<rparr>"
    using assms by (auto simp: WalWriter_write_def split: prod.splits)
  from a show thesis by (rule WriteAll_prefix) (use that w' in simp)
qed

lemma WalWriter_write_calm:
  assumes "calm (ww_os w)" "WalWriter_write w bs = (st, w')"
  shows "ok st" "calm (ww_os w')"
proof -
  let ?fd = "\<lparr>wf_data = ww_file w, wf_os = ww_os w\<rparr>"
  obtain fd where a: "WriteAll ?fd bs = (st, fd)" and w': "w' = w\<lparr>ww_file := wf_data fd, ww_os := wf_os fd\<rparr>"
    using assms(2) by (auto simp: WalWriter_write_def split: prod.splits)
  from a have "no_fail (wf_os ?fd) \<longrightarrow> ok st" by (rule WriteAll_prefix) blast
  then show "ok st" using calm_no_fail [OF assms(1)] by simp
  have "suffix (wf_os fd) (wf_os ?fd)" using write_loop_suffix [of _ ?fd bs 0] a by (metis WriteAll_def snd_conv)
  then show "calm (ww_os w')" using calm_suffix assms(1) w' by simp
qed

lemma Append_calm:
  assumes "calm (ww_os w)" "ok (ww_open_status w)"
  obtains os where "WalWriter_Append w r = (Inr (ww_last_index w + 1), w\<lparr>ww_file := ww_file w @ WalBytes (r\<lparr>w_index := ww_last_index w + 1\<rparr>),
    ww_os := os, ww_last_index := ww_last_index w + 1\<rparr>)" "calm os"
proof -
  let ?r = "r\<lparr>w_index := ww_last_index w + 1\<rparr>"
  obtain st w1 where w: "WalWriter_write w (WalBytes ?r) = (st, w1)" by fastforce
  have st: "ok st" "calm (ww_os w1)" using WalWriter_write_calm [OF assms(1) w] by simp_all
  from w obtain k os where "w1 = w\<lparr>ww_file := ww_file w @ take k (WalBytes ?r), ww_os := os\<rparr>" "ok st \<longrightarrow> k = length (WalBytes ?r)"
    by (rule WalWriter_write_cases)
  then show thesis using that [of os] w st assms(2) by (simp add: WalWriter_Append_def Let_def)
qed

lemma Append_Inr:
  assumes "WalWriter_Append w r = (Inr i, w')"
  obtains os where "i = ww_last_index w + 1" "ok (ww_open_status w)"
    "w' = w\<lparr>ww_file := ww_file w @ WalBytes (r\<lparr>w_index := i\<rparr>), ww_os := os, ww_last_index := i\<rparr>"
proof -
  let ?r = "r\<lparr>w_index := ww_last_index w + 1\<rparr>"
  obtain st w1 where w: "WalWriter_write w (WalBytes ?r) = (st, w1)" by fastforce
  then have ok: "ok st" "i = ww_last_index w + 1" "w' = w1\<lparr>ww_last_index := i\<rparr>" "ok (ww_open_status w)"
    using assms by (auto simp: WalWriter_Append_def Let_def split: if_splits)
  from w obtain k os where "w1 = w\<lparr>ww_file := ww_file w @ take k (WalBytes ?r), ww_os := os\<rparr>"
      "ok st \<longrightarrow> k = length (WalBytes ?r)" by (rule WalWriter_write_cases)
  with ok that show thesis by simp
qed

lemma Append_Inl:
  assumes "WalWriter_Append w r = (Inl e, w')"
  obtains os k where "\<not> ok e" "w' = w\<lparr>ww_file := ww_file w @ take k (WalBytes (r\<lparr>w_index := ww_last_index w + 1\<rparr>)), ww_os := os\<rparr>"
proof (cases "ok (ww_open_status w)")
  case True
  let ?r = "r\<lparr>w_index := ww_last_index w + 1\<rparr>"
  obtain st w1 where w: "WalWriter_write w (WalBytes ?r) = (st, w1)" by fastforce
  then have "\<not> ok e" "w' = w1"
    using assms True by (auto simp: WalWriter_Append_def Let_def split: if_splits)
  with w that show thesis by (auto elim: WalWriter_write_cases)
next
  case False
  then have "e = ww_open_status w" "w' = w" using assms by (auto simp: WalWriter_Append_def)
  with False that [of "ww_os w" 0] show thesis by simp
qed

lemma FsyncNow_cases:
  assumes "WalWriter_FsyncNow w = (st, w')"
  obtains (synced) os where "st = Status_Ok" "w' = w\<lparr>ww_os := os, ww_disk := ww_file w, ww_fsync_count := ww_fsync_count w + 1\<rparr>"
    | (failed) os where "\<not> ok st" "w' = w\<lparr>ww_os := os\<rparr>"
  using assms by (auto simp: WalWriter_FsyncNow_def Let_def split: option.splits)

lemma Sync_flush_cases:
  assumes "Sync_flush w i = (st, w')"
  obtains (synced) os where "st = Status_Ok"
      "w' = w\<lparr>ww_os := os, ww_disk := ww_file w, ww_fsync_count := ww_fsync_count w + 1,
             ww_synced_index := ww_last_index w, ww_flush_in_progress := False\<rparr>"
    | (failed) os where "\<not> ok st" "w' = w\<lparr>ww_os := os, ww_flush_in_progress := False\<rparr>"
proof -
  obtain st1 w1 where f: "WalWriter_FsyncNow w = (st1, w1)" by fastforce
  from f show thesis
    by (cases rule: FsyncNow_cases)
      (use f assms that in \<open>auto simp: Sync_flush_def Let_def split: if_splits\<close>)
qed

lemma WalLog_simps [simp]:
  "WalLog [] = []" "WalLog (r # rs) = WalBytes r @ WalLog rs" "WalLog (rs @ rs') = WalLog rs @ WalLog rs'"
  by (simp_all add: WalLog_def)

lemma RewriteAll_loop_ok:
  "RewriteAll_loop w rs = (st, w') \<Longrightarrow> ok st \<Longrightarrow>
     \<exists>os. w' = w\<lparr>ww_file := ww_file w @ WalLog rs, ww_os := os\<rparr>"
proof (induction rs arbitrary: w)
  case Nil
  then show ?case by (intro exI [of _ "ww_os w"]) simp
next
  case (Cons r rs)
  obtain st1 w1 where w: "WalWriter_write w (WalBytes r) = (st1, w1)" by fastforce
  have ok1: "ok st1" "RewriteAll_loop w1 rs = (st, w')" using Cons.prems w by (auto split: if_splits)
  from w obtain k os where "w1 = w\<lparr>ww_file := ww_file w @ take k (WalBytes r), ww_os := os\<rparr>"
      "ok st1 \<longrightarrow> k = length (WalBytes r)" by (rule WalWriter_write_cases)
  with Cons.IH [OF ok1(2) Cons.prems(2)] ok1(1) show ?case by auto
qed

lemma RewriteAll_ok:
  assumes "WalWriter_RewriteAll w rs = (st, w')" "ok st"
  obtains os where "w' = w\<lparr>ww_file := WalLog rs, ww_os := os, ww_disk := WalLog rs, ww_fsync_count := ww_fsync_count w + 1,
      ww_last_index := (if rs = [] then 0 else w_index (last rs)),
      ww_synced_index := (if rs = [] then 0 else w_index (last rs))\<rparr>"
proof -
  from assms obtain w1 st2 w2 st3 w3 os1 where
      w1: "w1 = w\<lparr>ww_file := [], ww_os := os1\<rparr>"
    and l: "RewriteAll_loop w1 rs = (st2, w2)" "ok st2"
    and f: "WalWriter_FsyncNow w2 = (st3, w3)" "ok st3"
    and w': "w' = w3\<lparr>ww_last_index := (if rs = [] then 0 else w_index (last rs)),
                      ww_synced_index := (if rs = [] then 0 else w_index (last rs))\<rparr>"
    by (auto simp: WalWriter_RewriteAll_def Let_def split: if_splits option.splits prod.splits)
  obtain os2 where w2: "w2 = w1\<lparr>ww_file := ww_file w1 @ WalLog rs, ww_os := os2\<rparr>"
    using RewriteAll_loop_ok [OF l] by blast
  from f(1) show thesis
    by (cases rule: FsyncNow_cases) (use f w' w2 w1 that in auto)
qed

lemma Sync_alone:
  assumes "ok (ww_open_status w)" "\<not> ww_flush_in_progress w" "ww_synced_index w < i"
  shows "WalWriter_Sync w i = Some (Sync_flush (Sync_lead w) i)"
  using assms by (simp add: WalWriter_Sync_def Sync_enter_def not_le [symmetric])

text \<open>Opening: the indices of the writer are those of the last record found.\<close>

definition last_wal_index :: "u64 \<Rightarrow> WalRecord list \<Rightarrow> u64" where
  "last_wal_index i rs = (if rs = [] then i else w_index (last rs))"

lemma fold_last_index: "fold (\<lambda>r _. w_index r) rs i = last_wal_index i rs"
  by (induction rs arbitrary: i) (auto simp: last_wal_index_def)

lemma MakeDirectory_loop_calm:
  "calm os \<Longrightarrow> fst (MakeDirectory_loop path partial pos os dirs) = Status_Ok
     \<and> calm (snd (snd (MakeDirectory_loop path partial pos os dirs)))"
proof (induction path partial pos os dirs rule: MakeDirectory_loop.induct)
  case (1 path partial pos os dirs)
  then show ?case
    by (subst (1 2) MakeDirectory_loop.simps) (simp add: Let_def)
qed

lemma MakeDirectoryRecursive_calm:
  "calm os \<Longrightarrow> fst (MakeDirectoryRecursive path os) = Status_Ok \<and> calm (snd (snd (MakeDirectoryRecursive path os)))"
  by (simp add: MakeDirectoryRecursive_def MakeDirectory_loop_calm)

lemma WalWriter_new_log:
  assumes rs: "\<forall>r \<in> set rs. WalRecordValid r" and tail: "WalTorn tail" and f: "file = WalLog rs @ tail"
    and os: "calm os" and w: "w = WalWriter_new data_dir file os"
  shows "ww_open_status w = Status_Ok" "ww_last_index w = last_wal_index 0 rs" "ww_synced_index w = last_wal_index 0 rs"
    "ww_file w = file" "ww_disk w = file" "\<not> ww_flush_in_progress w" "calm (ww_os w)"
proof -
  define os1 where "os1 = snd (snd (MakeDirectoryRecursive (data_dir @ ''/wal'') os))"
  define os2 where "os2 = snd (sys_call (snd (sys_call os1)))"
  have 1: "calm os1" unfolding os1_def using MakeDirectoryRecursive_calm os by blast
  then have 2: "calm os2" by (simp add: os2_def)
  let ?fd = "\<lparr>fd_rest = file, fd_os = os2\<rparr>"
  obtain st i fd where s: "WalScan (\<lambda>_ record. w_index record) (0 :: u64) ?fd = (st, i, fd)"
    by (rule prod_cases3)
  then have st: "st = Status_Ok" "i = last_wal_index 0 rs"
    using WalScan_log [OF rs tail, of ?fd "\<lambda>_ record. w_index record" "0 :: u64"] f calm_no_fail [OF 2]
    by (simp_all add: fold_last_index)
  have 3: "calm (fd_os fd)"
    using WalScan_suffix [of "\<lambda>_ record. w_index record" "0 :: u64" ?fd] s calm_suffix [OF _ 2] by simp
  have "w = \<lparr>ww_open_status = Status_Ok, ww_last_index = last_wal_index 0 rs, ww_synced_index = last_wal_index 0 rs,
      ww_flush_in_progress = False, ww_fsync_count = 0, ww_file = file, ww_disk = file, ww_os = fd_os fd\<rparr>"
    using s st 1 MakeDirectoryRecursive_calm [OF os, of "data_dir @ ''/wal''"]
    by (simp add: w WalWriter_new_def WalWriter_OpenOrCreate_def WalWriter_fresh_def Let_def
        os1_def [symmetric] os2_def [symmetric])
  then show "ww_open_status w = Status_Ok" "ww_last_index w = last_wal_index 0 rs" "ww_synced_index w = last_wal_index 0 rs"
    "ww_file w = file" "ww_disk w = file" "\<not> ww_flush_in_progress w" "calm (ww_os w)"
    using 3 by simp_all
qed

end
