(* ===== verification/Sharded_KV.thy ===== *)
theory Sharded_KV
  imports Wal_Record
begin

text \<open>
  \<^verbatim>\<open>storage/sharded_kv.{h,cpp}\<close>: the in-memory store, 256 shards with a hash map each. \<^verbatim>\<open>std::hash\<close> is the
  parameter \<open>hash\<close>; nothing is assumed about it. Each operation holds the lock of the one shard it works on
  for its whole duration, so operations are atomic and are modelled as state transformers.

  The locale \<open>kv_store\<close> is the contract the rest of the code relies on: the store behaves as a finite map.
  Its lemmas are about replaying log records into any such store; the sharded store is its instance.
\<close>

section \<open>The sharded store\<close>

definition kShardCount :: nat where
  "kShardCount = 256"

type_synonym Shard = "(bytes \<times> bytes) list"

record ShardedKV =
  kv_shards :: "Shard list"

definition ShardedKV_init :: ShardedKV where
  "ShardedKV_init = \<lparr>kv_shards = replicate kShardCount []\<rparr>"

definition ShardedKV_ShardFor :: "(bytes \<Rightarrow> u64) \<Rightarrow> bytes \<Rightarrow> nat" where
  "ShardedKV_ShardFor hash key = unat (hash key) mod kShardCount"

definition ShardedKV_Set :: "(bytes \<Rightarrow> u64) \<Rightarrow> ShardedKV \<Rightarrow> bytes \<Rightarrow> bytes \<Rightarrow> Status \<times> ShardedKV" where
  "ShardedKV_Set hash kv key val =
     (if key = [] then (Status_Error ErrorCode_kInvalidArgument ''key must not be empty'', kv)
      else
        let i = ShardedKV_ShardFor hash key; shard = kv_shards kv ! i in
        (Status_Ok, kv\<lparr>kv_shards := (kv_shards kv)[i := AList.update key val shard]\<rparr>))"

definition ShardedKV_Get :: "(bytes \<Rightarrow> u64) \<Rightarrow> ShardedKV \<Rightarrow> bytes \<Rightarrow> bytes Result" where
  "ShardedKV_Get hash kv key =
     (if key = [] then Inl (Status_Error ErrorCode_kInvalidArgument ''key must not be empty'')
      else
        let shard = kv_shards kv ! ShardedKV_ShardFor hash key in
        case map_of shard key of
          None \<Rightarrow> Inl (Status_Error ErrorCode_kNotFound ''key not found'')
        | Some v \<Rightarrow> Inr v)"

definition ShardedKV_Delete :: "(bytes \<Rightarrow> u64) \<Rightarrow> ShardedKV \<Rightarrow> bytes \<Rightarrow> Status \<times> ShardedKV" where
  "ShardedKV_Delete hash kv key =
     (if key = [] then (Status_Error ErrorCode_kInvalidArgument ''key must not be empty'', kv)
      else
        let i = ShardedKV_ShardFor hash key; shard = kv_shards kv ! i in
        case map_of shard key of
          None \<Rightarrow> (Status_Error ErrorCode_kNotFound ''key not found'', kv)
        | Some _ \<Rightarrow> (Status_Ok, kv\<lparr>kv_shards := (kv_shards kv)[i := AList.delete key shard]\<rparr>))"

definition ShardedKV_Size :: "ShardedKV \<Rightarrow> nat" where
  "ShardedKV_Size kv = fold (\<lambda>shard total. total + length shard) (kv_shards kv) 0"

text \<open>The invariant: every shard is a map, and holds only keys that hash to it.\<close>

definition ShardedKV_inv :: "(bytes \<Rightarrow> u64) \<Rightarrow> ShardedKV \<Rightarrow> bool" where
  "ShardedKV_inv hash kv \<longleftrightarrow>
     length (kv_shards kv) = kShardCount
     \<and> (\<forall>i < kShardCount. distinct (map fst (kv_shards kv ! i)) \<and>
          (\<forall>k v. map_of (kv_shards kv ! i) k = Some v \<longrightarrow> k \<noteq> [] \<and> ShardedKV_ShardFor hash k = i))"

definition ShardedKV_abs :: "(bytes \<Rightarrow> u64) \<Rightarrow> ShardedKV \<Rightarrow> bytes \<rightharpoonup> bytes" where
  "ShardedKV_abs hash kv = (\<lambda>k. map_of (kv_shards kv ! ShardedKV_ShardFor hash k) k)"

section \<open>The contract of a store\<close>

locale kv_store =
  fixes init :: 's
    and inv :: "'s \<Rightarrow> bool"
    and abs :: "'s \<Rightarrow> bytes \<rightharpoonup> bytes"
    and set_op :: "'s \<Rightarrow> bytes \<Rightarrow> bytes \<Rightarrow> Status \<times> 's"
    and get_op :: "'s \<Rightarrow> bytes \<Rightarrow> bytes Result"
    and del_op :: "'s \<Rightarrow> bytes \<Rightarrow> Status \<times> 's"
  assumes init_inv: "inv init"
    and init_abs: "abs init = Map.empty"
    and set_status: "fst (set_op s k v) =
      (if k = [] then Status_Error ErrorCode_kInvalidArgument ''key must not be empty'' else Status_Ok)"
    and set_inv: "inv s \<Longrightarrow> inv (snd (set_op s k v))"
    and set_abs: "inv s \<Longrightarrow> abs (snd (set_op s k v)) = (if k = [] then abs s else (abs s)(k \<mapsto> v))"
    and get_result: "inv s \<Longrightarrow> get_op s k =
      (if k = [] then Inl (Status_Error ErrorCode_kInvalidArgument ''key must not be empty'')
       else case abs s k of
         None \<Rightarrow> Inl (Status_Error ErrorCode_kNotFound ''key not found'')
       | Some v \<Rightarrow> Inr v)"
    and del_status: "inv s \<Longrightarrow> fst (del_op s k) =
      (if k = [] then Status_Error ErrorCode_kInvalidArgument ''key must not be empty''
       else if abs s k = None then Status_Error ErrorCode_kNotFound ''key not found'' else Status_Ok)"
    and del_inv: "inv s \<Longrightarrow> inv (snd (del_op s k))"
    and del_abs: "inv s \<Longrightarrow> abs (snd (del_op s k)) = (if k = [] then abs s else (abs s)(k := None))"

text \<open>
  The switch on \<^verbatim>\<open>record.op\<close> that recovery and \<^verbatim>\<open>ApplyCommitted\<close> share, over any store, and what it does to a map.
\<close>

definition apply_record ::
  "('s \<Rightarrow> bytes \<Rightarrow> bytes \<Rightarrow> Status \<times> 's) \<Rightarrow> ('s \<Rightarrow> bytes \<Rightarrow> Status \<times> 's) \<Rightarrow> 's \<Rightarrow> WalRecord \<Rightarrow> 's" where
  "apply_record set_op del_op s r =
     (case w_op r of
        WalOp_kSet \<Rightarrow> snd (set_op s (w_key r) (w_value r))
      | WalOp_kDelete \<Rightarrow> snd (del_op s (w_key r)))"

definition wal_effect :: "WalRecord \<Rightarrow> (bytes \<rightharpoonup> bytes) \<Rightarrow> (bytes \<rightharpoonup> bytes)" where
  "wal_effect r m =
     (if w_key r = [] then m
      else case w_op r of WalOp_kSet \<Rightarrow> m(w_key r \<mapsto> w_value r) | WalOp_kDelete \<Rightarrow> m(w_key r := None))"

text \<open>Calls on a store and what they return, one call after the other.\<close>

datatype KvCall = KvSet bytes bytes | KvGet bytes | KvDelete bytes
datatype KvReturn = RetStatus Status | RetValue "bytes Result"

fun kv_call ::
  "('s \<Rightarrow> bytes \<Rightarrow> bytes \<Rightarrow> Status \<times> 's) \<Rightarrow> ('s \<Rightarrow> bytes \<Rightarrow> bytes Result) \<Rightarrow> ('s \<Rightarrow> bytes \<Rightarrow> Status \<times> 's)
   \<Rightarrow> 's \<Rightarrow> KvCall \<Rightarrow> KvReturn \<times> 's" where
  "kv_call set_op get_op del_op s (KvSet k v) = (RetStatus (fst (set_op s k v)), snd (set_op s k v))"
| "kv_call set_op get_op del_op s (KvGet k) = (RetValue (get_op s k), s)"
| "kv_call set_op get_op del_op s (KvDelete k) = (RetStatus (fst (del_op s k)), snd (del_op s k))"

fun kv_calls :: "('s \<Rightarrow> 'c \<Rightarrow> 'r \<times> 's) \<Rightarrow> 's \<Rightarrow> 'c list \<Rightarrow> 'r list \<times> 's" where
  "kv_calls call s [] = ([], s)"
| "kv_calls call s (c # cs) =
     (case call s c of (r, s') \<Rightarrow> case kv_calls call s' cs of (rs, s'') \<Rightarrow> (r # rs, s''))"

fun map_call :: "(bytes \<rightharpoonup> bytes) \<Rightarrow> KvCall \<Rightarrow> KvReturn \<times> (bytes \<rightharpoonup> bytes)" where
  "map_call m (KvSet k v) =
     (if k = [] then (RetStatus (Status_Error ErrorCode_kInvalidArgument ''key must not be empty''), m)
      else (RetStatus Status_Ok, m(k \<mapsto> v)))"
| "map_call m (KvGet k) =
     (RetValue
       (if k = [] then Inl (Status_Error ErrorCode_kInvalidArgument ''key must not be empty'')
        else case m k of None \<Rightarrow> Inl (Status_Error ErrorCode_kNotFound ''key not found'') | Some v \<Rightarrow> Inr v), m)"
| "map_call m (KvDelete k) =
     (if k = [] then (RetStatus (Status_Error ErrorCode_kInvalidArgument ''key must not be empty''), m)
      else if m k = None then (RetStatus (Status_Error ErrorCode_kNotFound ''key not found''), m)
      else (RetStatus Status_Ok, m(k := None)))"

context kv_store
begin

lemma apply_record_refines:
  assumes "inv s"
  shows "inv (apply_record set_op del_op s r)" "abs (apply_record set_op del_op s r) = wal_effect r (abs s)"
  using assms set_inv set_abs del_inv del_abs
  by (auto simp: apply_record_def wal_effect_def split: WalOp.split)

lemma replay_refines:
  assumes "inv s"
  shows "inv (fold (\<lambda>r s. apply_record set_op del_op s r) rs s)
    \<and> abs (fold (\<lambda>r s. apply_record set_op del_op s r) rs s) = fold wal_effect rs (abs s)"
  using assms by (induction rs arbitrary: s) (simp_all add: apply_record_refines)

lemma call_refines:
  assumes "inv s" "kv_call set_op get_op del_op s c = (r, s')"
  shows "inv s' \<and> map_call (abs s) c = (r, abs s')"
  using assms set_inv set_abs set_status get_result del_inv del_abs del_status
  by (cases c) (auto simp: fun_eq_iff)

lemma calls_refine:
  assumes "inv s" "kv_calls (kv_call set_op get_op del_op) s cs = (rs, s')"
  shows "inv s' \<and> kv_calls map_call (abs s) cs = (rs, abs s')"
  using assms
proof (induction cs arbitrary: s rs)
  case (Cons c cs)
  then obtain r s1 rs1 where 1: "kv_call set_op get_op del_op s c = (r, s1)"
      "kv_calls (kv_call set_op get_op del_op) s1 cs = (rs1, s')" "rs = r # rs1"
    by (auto split: prod.splits)
  with Cons.IH [of s1 rs1] call_refines [OF Cons.prems(1) 1(1)] show ?case by simp
qed simp

end

section \<open>The sharded store meets the contract\<close>

lemma ShardFor_less [simp]: "ShardedKV_ShardFor hash k < kShardCount"
  by (simp add: ShardedKV_ShardFor_def kShardCount_def)

lemma ShardedKV_invD:
  assumes "ShardedKV_inv hash kv" "i < kShardCount"
  shows "distinct (map fst (kv_shards kv ! i))"
    and "map_of (kv_shards kv ! i) k = Some v \<Longrightarrow> k \<noteq> [] \<and> ShardedKV_ShardFor hash k = i"
  using assms by (auto simp: ShardedKV_inv_def simp del: map_of_eq_Some_iff)

lemma ShardedKV_inv_upd:
  assumes "ShardedKV_inv hash kv" "i < kShardCount" "distinct (map fst m)"
    "\<And>k v. map_of m k = Some v \<Longrightarrow> k \<noteq> [] \<and> ShardedKV_ShardFor hash k = i"
  shows "ShardedKV_inv hash (kv\<lparr>kv_shards := (kv_shards kv)[i := m]\<rparr>)"
  using assms by (auto simp: ShardedKV_inv_def nth_list_update)

lemma ShardedKV_abs_upd:
  assumes "ShardedKV_inv hash kv" "i = ShardedKV_ShardFor hash k"
    "\<And>k'. map_of m k' = (if k' = k then x else map_of (kv_shards kv ! i) k')"
  shows "ShardedKV_abs hash (kv\<lparr>kv_shards := (kv_shards kv)[i := m]\<rparr>) = (ShardedKV_abs hash kv)(k := x)"
  using assms by (auto simp: ShardedKV_abs_def ShardedKV_inv_def nth_list_update fun_eq_iff)

interpretation sharded: kv_store ShardedKV_init "ShardedKV_inv hash" "ShardedKV_abs hash"
  "ShardedKV_Set hash" "ShardedKV_Get hash" "ShardedKV_Delete hash" for hash
proof (unfold_locales, goal_cases)
  case 1
  show ?case by (simp add: ShardedKV_inv_def ShardedKV_init_def)
next
  case 2
  show ?case by (simp add: ShardedKV_abs_def ShardedKV_init_def fun_eq_iff)
next
  case (3 s k v)
  show ?case by (simp add: ShardedKV_Set_def Let_def)
next
  case (4 s k v)
  show ?case
  proof (cases "k = []")
    case False
    have "ShardedKV_inv hash (s\<lparr>kv_shards := (kv_shards s)[ShardedKV_ShardFor hash k :=
        AList.update k v (kv_shards s ! ShardedKV_ShardFor hash k)]\<rparr>)"
      by (rule ShardedKV_inv_upd [OF 4])
        (use ShardedKV_invD [OF 4 ShardFor_less] False in \<open>auto simp: update_conv distinct_keys_update simp del: map_of_eq_Some_iff split: if_splits\<close>)
    with False show ?thesis by (simp add: ShardedKV_Set_def Let_def)
  qed (use 4 in \<open>simp add: ShardedKV_Set_def\<close>)
next
  case (5 s k v)
  then show ?case
    by (simp add: ShardedKV_Set_def Let_def)
      (auto simp: update_conv intro!: ShardedKV_abs_upd)
next
  case (6 s k)
  show ?case by (simp add: ShardedKV_Get_def ShardedKV_abs_def Let_def)
next
  case (7 s k)
  then show ?case by (auto simp: ShardedKV_Delete_def ShardedKV_abs_def Let_def split: option.splits)
next
  case (8 s k)
  have "ShardedKV_inv hash (s\<lparr>kv_shards := (kv_shards s)[ShardedKV_ShardFor hash k :=
      AList.delete k (kv_shards s ! ShardedKV_ShardFor hash k)]\<rparr>)"
    by (rule ShardedKV_inv_upd [OF 8])
      (use ShardedKV_invD [OF 8 ShardFor_less] in \<open>auto simp: delete_conv distinct_keys_delete simp del: map_of_eq_Some_iff split: if_splits\<close>)
  with 8 show ?case by (simp add: ShardedKV_Delete_def Let_def split: option.split)
next
  case (9 s k)
  have "ShardedKV_abs hash (s\<lparr>kv_shards := (kv_shards s)[ShardedKV_ShardFor hash k :=
      AList.delete k (kv_shards s ! ShardedKV_ShardFor hash k)]\<rparr>) = (ShardedKV_abs hash s)(k := None)"
    by (rule ShardedKV_abs_upd [OF 9]) (simp_all add: delete_conv)
  then show ?case
    by (auto simp: ShardedKV_Delete_def Let_def ShardedKV_abs_def [of _ s] fun_eq_iff split: option.split)
qed

section \<open>Properties\<close>

lemma ShardedKV_Size_sum: "ShardedKV_Size kv = (\<Sum>i < length (kv_shards kv). length (kv_shards kv ! i))"
proof -
  have "fold (\<lambda>shard total. total + length shard) xs n = n + sum_list (map length xs)" for xs :: "Shard list" and n
    by (induction xs arbitrary: n) simp_all
  then show ?thesis by (simp add: ShardedKV_Size_def sum_list_sum_nth atLeast0LessThan)
qed

lemma ShardedKV_Size_abs:
  assumes "ShardedKV_inv hash kv"
  shows "ShardedKV_Size kv = card (dom (ShardedKV_abs hash kv))"
proof -
  let ?D = "\<lambda>i. dom (map_of (kv_shards kv ! i))"
  have len: "length (kv_shards kv) = kShardCount"
    and shard: "\<And>i k v. i < kShardCount \<Longrightarrow> map_of (kv_shards kv ! i) k = Some v \<Longrightarrow> ShardedKV_ShardFor hash k = i"
    and dist: "\<And>i. i < kShardCount \<Longrightarrow> distinct (map fst (kv_shards kv ! i))"
    using assms by (auto simp: ShardedKV_inv_def)
  have "dom (ShardedKV_abs hash kv) = (\<Union>i < kShardCount. ?D i)"
    using shard by (fastforce simp: ShardedKV_abs_def dom_def)
  moreover have "card (\<Union>i < kShardCount. ?D i) = (\<Sum>i < kShardCount. card (?D i))"
    using shard by (intro card_UN_disjoint) (auto simp: finite_dom_map_of, metis option.inject)
  ultimately show ?thesis
    by (simp add: ShardedKV_Size_sum len length_eq_card_dom_map_of dist)
qed

text \<open>
  C20. The sharded store is a map. For every hash function and every sequence of Set, Get and Delete
  calls on a fresh store, every call returns exactly what it would return on a single map from keys to values,
  errors included, the final store holds the contents of that map, and \<^verbatim>\<open>Size\<close> is the number of its keys.
\<close>

theorem sharded_kv_is_map:
  "case kv_calls (kv_call (ShardedKV_Set hash) (ShardedKV_Get hash) (ShardedKV_Delete hash)) ShardedKV_init calls of
     (rets, kv) \<Rightarrow>
       kv_calls map_call Map.empty calls = (rets, ShardedKV_abs hash kv)
       \<and> ShardedKV_Size kv = card (dom (ShardedKV_abs hash kv))"
  using sharded.calls_refine [OF sharded.init_inv] ShardedKV_Size_abs
  by (fastforce simp: sharded.init_abs split: prod.split)

end
