(* ===== verification/Durable_Storage.thy ===== *)
theory Durable_Storage
  imports Wal_Writer Sharded_KV
begin

text \<open>
  \<^verbatim>\<open>persistence/recovery.cpp\<close> and \<^verbatim>\<open>persistence/durable_storage.{h,cpp}\<close>: replaying the log into the store at
  startup, and the log-then-apply write path. \<^verbatim>\<open>Set\<close> and \<^verbatim>\<open>Delete\<close> are given by their pieces (checks and record,
  append, sync, apply), which the theory \<^verbatim>\<open>Group_Commit\<close> interleaves; the definitions \<open>DurableStorage_Set\<close> and
  \<open>DurableStorage_Delete\<close> run the pieces for a caller that is alone, with \<open>None\<close> for a wait nobody will end.
\<close>

section \<open>Recovery\<close>

definition RecoverFromWal ::
  "(bytes \<Rightarrow> u64) \<Rightarrow> string \<Rightarrow> bytes \<Rightarrow> sys list \<Rightarrow> ShardedKV \<Rightarrow> Status \<times> ShardedKV \<times> u64 \<times> sys list" where
  "RecoverFromWal hash data_dir file os kv =
     (let wal_path = data_dir @ ''/wal/wal.log''; c = sys_call os in
      case fst c of
        Some e \<Rightarrow>
          if e = errno_ENOENT then (Status_Ok, kv, 0, snd c)
          else (Status_Error ErrorCode_kIOError (''open '' @ wal_path @ '': '' @ e), kv, 0, snd c)
      | None \<Rightarrow>
          (case WalScan (\<lambda>s record. (apply_record (ShardedKV_Set hash) (ShardedKV_Delete hash) (fst s) record, w_index record))
                  (kv, 0) \<lparr>fd_rest = file, fd_os = snd c\<rparr> of
             (status, s, fd) \<Rightarrow> (status, fst s, snd s, fd_os fd)))"

section \<open>DurableStorage\<close>

record DurableStorage =
  ds_data_dir :: string
  ds_kv :: ShardedKV
  ds_wal :: WalWriter
  ds_last_applied_index :: u64
  ds_recovery_status :: Status

definition DurableStorage_new :: "(bytes \<Rightarrow> u64) \<Rightarrow> string \<Rightarrow> bytes \<Rightarrow> sys list \<Rightarrow> DurableStorage" where
  "DurableStorage_new hash data_dir file os =
     (let wal = WalWriter_new data_dir file os in
      case RecoverFromWal hash data_dir (ww_file wal) (ww_os wal) ShardedKV_init of
        (status, kv, last_applied_index, os) \<Rightarrow>
          \<lparr>ds_data_dir = data_dir, ds_kv = kv, ds_wal = wal\<lparr>ww_os := os\<rparr>,
           ds_last_applied_index = last_applied_index, ds_recovery_status = status\<rparr>)"

definition DurableStorage_Open :: "(bytes \<Rightarrow> u64) \<Rightarrow> string \<Rightarrow> bytes \<Rightarrow> sys list \<Rightarrow> DurableStorage Result" where
  "DurableStorage_Open hash data_dir file os =
     (let storage = DurableStorage_new hash data_dir file os in
      if \<not> ok (ds_recovery_status storage) then Inl (ds_recovery_status storage) else Inr storage)"

text \<open>The checks at the top of \<^verbatim>\<open>Set\<close> and \<^verbatim>\<open>Delete\<close>, and the record they append.\<close>

datatype WriteOp = WriteSet bytes bytes | WriteDelete bytes

fun write_record :: "WriteOp \<Rightarrow> WalRecord Result" where
  "write_record (WriteSet key val) =
     (if key = [] then Inl (Status_Error ErrorCode_kInvalidArgument ''key must not be empty'')
      else if val = [] then Inl (Status_Error ErrorCode_kInvalidArgument ''SET requires a non-empty value'')
      else Inr \<lparr>w_term = 0, w_index = 0, w_op = WalOp_kSet, w_key = key, w_value = val\<rparr>)"
| "write_record (WriteDelete key) =
     (if key = [] then Inl (Status_Error ErrorCode_kInvalidArgument ''key must not be empty'')
      else Inr \<lparr>w_term = 0, w_index = 0, w_op = WalOp_kDelete, w_key = key, w_value = []\<rparr>)"

text \<open>The critical section under \<^verbatim>\<open>apply_mutex_\<close>, entered once \<^verbatim>\<open>last_applied_index_ == index - 1\<close>.\<close>

fun write_apply :: "(bytes \<Rightarrow> u64) \<Rightarrow> ShardedKV \<Rightarrow> WriteOp \<Rightarrow> Status \<times> ShardedKV" where
  "write_apply hash kv (WriteSet key val) = ShardedKV_Set hash kv key val"
| "write_apply hash kv (WriteDelete key) = ShardedKV_Delete hash kv key"

definition apply_ready :: "u64 \<Rightarrow> u64 \<Rightarrow> bool" where
  "apply_ready last_applied index \<longleftrightarrow> last_applied = index - 1"

definition DurableStorage_write ::
  "(bytes \<Rightarrow> u64) \<Rightarrow> DurableStorage \<Rightarrow> WriteOp \<Rightarrow> (Status \<times> DurableStorage) option" where
  "DurableStorage_write hash st wop =
     (case write_record wop of
        Inl e \<Rightarrow> Some (e, st)
      | Inr record \<Rightarrow>
          (case WalWriter_Append (ds_wal st) record of
             (Inl e, wal) \<Rightarrow> Some (e, st\<lparr>ds_wal := wal\<rparr>)
           | (Inr index, wal) \<Rightarrow>
               (case WalWriter_Sync wal index of
                  None \<Rightarrow> None
                | Some (status, wal) \<Rightarrow>
                    if \<not> ok status then Some (status, st\<lparr>ds_wal := wal\<rparr>)
                    else if apply_ready (ds_last_applied_index st) index then
                      (case write_apply hash (ds_kv st) wop of
                         (apply_status, kv) \<Rightarrow>
                           Some (apply_status, st\<lparr>ds_wal := wal, ds_kv := kv, ds_last_applied_index := index\<rparr>))
                    else None)))"

definition DurableStorage_Set ::
  "(bytes \<Rightarrow> u64) \<Rightarrow> DurableStorage \<Rightarrow> bytes \<Rightarrow> bytes \<Rightarrow> (Status \<times> DurableStorage) option" where
  "DurableStorage_Set hash st key val = DurableStorage_write hash st (WriteSet key val)"

definition DurableStorage_Delete ::
  "(bytes \<Rightarrow> u64) \<Rightarrow> DurableStorage \<Rightarrow> bytes \<Rightarrow> (Status \<times> DurableStorage) option" where
  "DurableStorage_Delete hash st key = DurableStorage_write hash st (WriteDelete key)"

definition DurableStorage_Get :: "(bytes \<Rightarrow> u64) \<Rightarrow> DurableStorage \<Rightarrow> bytes \<Rightarrow> bytes Result" where
  "DurableStorage_Get hash st key = ShardedKV_Get hash (ds_kv st) key"

definition DurableStorage_ApplyCommitted :: "(bytes \<Rightarrow> u64) \<Rightarrow> DurableStorage \<Rightarrow> WalRecord \<Rightarrow> DurableStorage" where
  "DurableStorage_ApplyCommitted hash st record =
     st\<lparr>ds_kv := apply_record (ShardedKV_Set hash) (ShardedKV_Delete hash) (ds_kv st) record,
        ds_last_applied_index := w_index record\<rparr>"

section \<open>Recovery replays the log\<close>

lemma fold_apply_index:
  "fold (\<lambda>r s. (f (fst s) r, w_index r)) rs s
     = (fold (\<lambda>r kv. f kv r) rs (fst s), last_wal_index (snd s) rs)"
  by (induction rs arbitrary: s) (auto simp: last_wal_index_def)

lemma RecoverFromWal_log:
  assumes "\<forall>r \<in> set rs. WalRecordValid r" "WalTorn tail" "file = WalLog rs @ tail" "calm os"
  obtains kv os' where "RecoverFromWal hash data_dir file os ShardedKV_init = (Status_Ok, kv, last_wal_index 0 rs, os')"
    "ShardedKV_inv hash kv" "ShardedKV_abs hash kv = fold wal_effect rs Map.empty" "calm os'"
proof -
  let ?f = "apply_record (ShardedKV_Set hash) (ShardedKV_Delete hash)"
  let ?b = "\<lambda>s record. (?f (fst s) record, w_index record)"
  let ?kv = "fold (\<lambda>r kv. ?f kv r) rs ShardedKV_init"
  let ?fd = "\<lparr>fd_rest = file, fd_os = snd (sys_call os)\<rparr>"
  have c: "fst (sys_call os) = None" "calm (snd (sys_call os))" using sys_call_calm [OF assms(4)] by simp_all
  obtain st s fd where w: "WalScan ?b (ShardedKV_init, 0) ?fd = (st, s, fd)" by (rule prod_cases3)
  then have "st = Status_Ok" "s = (?kv, last_wal_index 0 rs)"
    using WalScan_log [OF assms(1,2), of ?fd ?b "(ShardedKV_init, 0)"] assms(3) calm_no_fail [OF c(2)]
    by (simp_all add: fold_apply_index)
  then have "RecoverFromWal hash data_dir file os ShardedKV_init = (Status_Ok, ?kv, last_wal_index 0 rs, fd_os fd)"
    using c(1) w by (simp add: RecoverFromWal_def Let_def)
  moreover have "calm (fd_os fd)"
    using WalScan_suffix [of ?b "(ShardedKV_init, 0)" ?fd] w calm_suffix [OF _ c(2)] by simp
  moreover have "ShardedKV_inv hash ?kv" "ShardedKV_abs hash ?kv = fold wal_effect rs Map.empty"
    using sharded.replay_refines [OF sharded.init_inv, of hash rs] by (simp_all add: sharded.init_abs)
  ultimately show thesis using that by blast
qed

lemma DurableStorage_Open_log:
  assumes "\<forall>r \<in> set rs. WalRecordValid r" "WalTorn tail" "file = WalLog rs @ tail" "calm os"
  obtains st where "DurableStorage_Open hash data_dir file os = Inr st"
    "ShardedKV_inv hash (ds_kv st)" "ShardedKV_abs hash (ds_kv st) = fold wal_effect rs Map.empty"
    "ds_last_applied_index st = last_wal_index 0 rs" "ww_last_index (ds_wal st) = last_wal_index 0 rs"
    "ww_synced_index (ds_wal st) = last_wal_index 0 rs"
    "ww_open_status (ds_wal st) = Status_Ok" "ww_file (ds_wal st) = file" "ww_disk (ds_wal st) = file"
    "\<not> ww_flush_in_progress (ds_wal st)" "calm (ww_os (ds_wal st))"
proof -
  note w = WalWriter_new_log [OF assms refl, of data_dir]
  obtain kv os' where r: "RecoverFromWal hash data_dir file (ww_os (WalWriter_new data_dir file os)) ShardedKV_init
      = (Status_Ok, kv, last_wal_index 0 rs, os')"
    "ShardedKV_inv hash kv" "ShardedKV_abs hash kv = fold wal_effect rs Map.empty" "calm os'"
    using RecoverFromWal_log [OF assms(1-3) w(7)] by blast
  show thesis
    by (rule that [of "DurableStorage_new hash data_dir file os"])
      (use r w in \<open>simp_all add: DurableStorage_Open_def DurableStorage_new_def Let_def\<close>)
qed

end
