(* ===== verification/Group_Commit.thy ===== *)
theory Group_Commit
  imports Durable_Storage
begin

text \<open>
  Group commit: any number of threads inside \<^verbatim>\<open>DurableStorage::Set\<close> and \<^verbatim>\<open>Delete\<close> at once. Between two waits a thread
  runs under \<^verbatim>\<open>mutex_\<close> (in the writer) or under \<^verbatim>\<open>apply_mutex_\<close> (in the apply section), so a step of the system is
  one such stretch of one thread, built from the pieces of \<^verbatim>\<open>Wal_Writer\<close> and \<^verbatim>\<open>Durable_Storage\<close>. Time is left open: the
  batch leader's deadline may pass at any moment, so it may flush at any moment. The labels of the steps record what was
  appended, acknowledged and refused; the properties are about all runs, with every interleaving and every
  outcome of the system calls.
\<close>

section \<open>The interleaving model\<close>

type_synonym tid = nat

datatype Phase =
    Idle
  | Appended WriteOp u64        \<comment> \<open>\<^verbatim>\<open>Append\<close> returned this index\<close>
  | Waiting WriteOp u64         \<comment> \<open>in \<^verbatim>\<open>Sync\<close>, waiting for the flush in progress\<close>
  | Leading WriteOp u64 u64     \<comment> \<open>in \<^verbatim>\<open>Sync\<close> as the batch leader, with \<^verbatim>\<open>observed_index\<close>\<close>
  | Synced WriteOp u64          \<comment> \<open>\<^verbatim>\<open>Sync\<close> returned Ok; waiting for its turn to apply\<close>

record GC =
  gc_store :: DurableStorage
  gc_phase :: "tid \<Rightarrow> Phase"

abbreviation gc_wal :: "GC \<Rightarrow> WalWriter" where
  "gc_wal s \<equiv> ds_wal (gc_store s)"

datatype GcEvent =
    EvReject tid WriteOp Status         \<comment> \<open>returned with an argument error\<close>
  | EvAppend tid WriteOp u64
  | EvAppendFailed tid WriteOp Status nat \<comment> \<open>returned with the error of \<^verbatim>\<open>Append\<close>, which left so many bytes in the file\<close>
  | EvSyncFailed tid WriteOp u64 Status \<comment> \<open>returned with the error of \<^verbatim>\<open>Sync\<close>\<close>
  | EvAck tid WriteOp u64 Status        \<comment> \<open>applied, and returned with the store's status\<close>
  | EvTau

definition gc_upd :: "GC \<Rightarrow> tid \<Rightarrow> Phase \<Rightarrow> WalWriter \<Rightarrow> GC" where
  "gc_upd s t p wal = s\<lparr>gc_store := (gc_store s)\<lparr>ds_wal := wal\<rparr>, gc_phase := (gc_phase s)(t := p)\<rparr>"

inductive gc_step :: "(bytes \<Rightarrow> u64) \<Rightarrow> GC \<Rightarrow> GcEvent \<Rightarrow> GC \<Rightarrow> bool" for hash where
  reject: "gc_phase s t = Idle \<Longrightarrow> write_record wop = Inl e \<Longrightarrow> gc_step hash s (EvReject t wop e) s"
| append_ok: "gc_phase s t = Idle \<Longrightarrow> write_record wop = Inr r \<Longrightarrow> WalWriter_Append (gc_wal s) r = (Inr i, wal)
    \<Longrightarrow> gc_step hash s (EvAppend t wop i) (gc_upd s t (Appended wop i) wal)"
| append_failed: "gc_phase s t = Idle \<Longrightarrow> write_record wop = Inr r \<Longrightarrow> WalWriter_Append (gc_wal s) r = (Inl e, wal)
    \<Longrightarrow> gc_step hash s (EvAppendFailed t wop e (length (ww_file wal) - length (ww_file (gc_wal s)))) (gc_upd s t Idle wal)"
| sync_covered: "gc_phase s t = Appended wop i \<Longrightarrow> Sync_enter (gc_wal s) i = SyncReturn st \<Longrightarrow> ok st
    \<Longrightarrow> gc_step hash s EvTau (gc_upd s t (Synced wop i) (gc_wal s))"
| sync_closed: "gc_phase s t = Appended wop i \<Longrightarrow> Sync_enter (gc_wal s) i = SyncReturn st \<Longrightarrow> \<not> ok st
    \<Longrightarrow> gc_step hash s (EvSyncFailed t wop i st) (gc_upd s t Idle (gc_wal s))"
| sync_wait: "gc_phase s t = Appended wop i \<Longrightarrow> Sync_enter (gc_wal s) i = SyncWait
    \<Longrightarrow> gc_step hash s EvTau (gc_upd s t (Waiting wop i) (gc_wal s))"
| sync_lead: "gc_phase s t = Appended wop i \<Longrightarrow> Sync_enter (gc_wal s) i = SyncLead
    \<Longrightarrow> gc_step hash s EvTau (gc_upd s t (Leading wop i (ww_last_index (gc_wal s))) (Sync_lead (gc_wal s)))"
| waited_covered: "gc_phase s t = Waiting wop i \<Longrightarrow> Sync_wait_over (gc_wal s) i
    \<Longrightarrow> Sync_waited (gc_wal s) i = SyncReturn st \<Longrightarrow> gc_step hash s EvTau (gc_upd s t (Synced wop i) (gc_wal s))"
| waited_lead: "gc_phase s t = Waiting wop i \<Longrightarrow> Sync_wait_over (gc_wal s) i \<Longrightarrow> Sync_waited (gc_wal s) i = SyncLead
    \<Longrightarrow> gc_step hash s EvTau (gc_upd s t (Leading wop i (ww_last_index (gc_wal s))) (Sync_lead (gc_wal s)))"
| lead_tick: "gc_phase s t = Leading wop i observed \<Longrightarrow> Sync_batch_open (gc_wal s) \<Longrightarrow> ww_last_index (gc_wal s) \<noteq> observed
    \<Longrightarrow> gc_step hash s EvTau (gc_upd s t (Leading wop i (ww_last_index (gc_wal s))) (gc_wal s))"
| flush_ok: "gc_phase s t = Leading wop i observed \<Longrightarrow> Sync_flush (gc_wal s) i = (st, wal) \<Longrightarrow> ok st
    \<Longrightarrow> gc_step hash s EvTau (gc_upd s t (Synced wop i) wal)"
| flush_failed: "gc_phase s t = Leading wop i observed \<Longrightarrow> Sync_flush (gc_wal s) i = (st, wal) \<Longrightarrow> \<not> ok st
    \<Longrightarrow> gc_step hash s (EvSyncFailed t wop i st) (gc_upd s t Idle wal)"
| apply_write: "gc_phase s t = Synced wop i \<Longrightarrow> apply_ready (ds_last_applied_index (gc_store s)) i
    \<Longrightarrow> write_apply hash (ds_kv (gc_store s)) wop = (st, kv)
    \<Longrightarrow> gc_step hash s (EvAck t wop i st)
          \<lparr>gc_store = (gc_store s)\<lparr>ds_kv := kv, ds_last_applied_index := i\<rparr>, gc_phase = (gc_phase s)(t := Idle)\<rparr>"

inductive gc_run :: "(bytes \<Rightarrow> u64) \<Rightarrow> GC \<Rightarrow> GcEvent list \<Rightarrow> GC \<Rightarrow> bool" for hash s0 where
  run_start: "gc_run hash s0 [] s0"
| run_step: "gc_run hash s0 es s \<Longrightarrow> gc_step hash s e s' \<Longrightarrow> gc_run hash s0 (es @ [e]) s'"

definition gc_start :: "DurableStorage \<Rightarrow> GC" where
  "gc_start st = \<lparr>gc_store = st, gc_phase = (\<lambda>_. Idle)\<rparr>"

section \<open>What a run has written\<close>

text \<open>The record that a write puts in the log at index \<open>i\<close>, and the records a run has appended.\<close>

fun log_record :: "WriteOp \<Rightarrow> u64 \<Rightarrow> WalRecord" where
  "log_record (WriteSet k v) i = \<lparr>w_term = 0, w_index = i, w_op = WalOp_kSet, w_key = k, w_value = v\<rparr>"
| "log_record (WriteDelete k) i = \<lparr>w_term = 0, w_index = i, w_op = WalOp_kDelete, w_key = k, w_value = []\<rparr>"

fun ev_record :: "GcEvent \<Rightarrow> WalRecord list" where
  "ev_record (EvAppend t wop i) = [log_record wop i]"
| "ev_record _ = []"

definition gc_log :: "GcEvent list \<Rightarrow> WalRecord list" where
  "gc_log es = concat (map ev_record es)"

lemma gc_log_simps [simp]: "gc_log [] = []" "gc_log (es @ es') = gc_log es @ gc_log es'" "gc_log [e] = ev_record e"
  by (simp_all add: gc_log_def)

lemma length_gc_log: "length (gc_log es) \<le> length es"
  by (induction es rule: rev_induct) (auto, rename_tac e es, case_tac e, auto)

lemma write_record_log: "write_record wop = Inr r \<Longrightarrow> r\<lparr>w_index := i\<rparr> = log_record wop i"
  by (cases wop) (auto split: if_splits)

lemma w_index_log_record [simp]: "w_index (log_record wop i) = i"
  by (cases wop) auto

lemma write_apply_record:
  "snd (write_apply hash kv wop) = apply_record (ShardedKV_Set hash) (ShardedKV_Delete hash) kv (log_record wop i)"
  by (cases wop) (auto simp: apply_record_def)

text \<open>An operation whose key and value fit the reader's field bound.\<close>

fun write_fits :: "WriteOp \<Rightarrow> bool" where
  "write_fits (WriteSet k v) \<longleftrightarrow> length k \<le> unat kMaxFieldSize \<and> length v \<le> unat kMaxFieldSize"
| "write_fits (WriteDelete k) \<longleftrightarrow> length k \<le> unat kMaxFieldSize"

lemma log_record_valid: "write_record wop = Inr r \<Longrightarrow> write_fits wop \<Longrightarrow> WalRecordValid (log_record wop i)"
  by (cases wop) (auto simp: WalRecordValid_def split: if_splits)

section \<open>The invariant\<close>

fun pending :: "Phase \<Rightarrow> (WriteOp \<times> u64) option" where
  "pending Idle = None"
| "pending (Appended wop i) = Some (wop, i)"
| "pending (Waiting wop i) = Some (wop, i)"
| "pending (Leading wop i _) = Some (wop, i)"
| "pending (Synced wop i) = Some (wop, i)"

fun is_leading :: "Phase \<Rightarrow> bool" where
  "is_leading (Leading _ _ _) = True"
| "is_leading _ = False"

fun is_synced :: "Phase \<Rightarrow> bool" where
  "is_synced (Synced _ _) = True"
| "is_synced _ = False"

text \<open>
  Indices are compared through \<^const>\<open>unat\<close>; \<open>b\<close> is the last index at the start of the run, so the record at
  position \<open>k\<close> of the run's log has index \<open>b + k + 1\<close>.
\<close>

definition gc_base :: "GC \<Rightarrow> nat" where
  "gc_base s0 = unat (ww_last_index (gc_wal s0))"

abbreviation gc_applied :: "GC \<Rightarrow> nat" where
  "gc_applied s \<equiv> unat (ds_last_applied_index (gc_store s))"

abbreviation gc_synced :: "GC \<Rightarrow> nat" where
  "gc_synced s \<equiv> unat (ww_synced_index (gc_wal s))"

definition inv_log :: "GC \<Rightarrow> GcEvent list \<Rightarrow> GC \<Rightarrow> bool" where
  "inv_log s0 es s \<longleftrightarrow>
     ok (ww_open_status (gc_wal s)) \<and> ww_file (gc_wal s) = ww_file (gc_wal s0) @ WalLog (gc_log es)
     \<and> unat (ww_last_index (gc_wal s)) = gc_base s0 + length (gc_log es)
     \<and> (\<forall>k < length (gc_log es). unat (w_index (gc_log es ! k)) = gc_base s0 + k + 1)"

definition inv_disk :: "GC \<Rightarrow> GcEvent list \<Rightarrow> GC \<Rightarrow> bool" where
  "inv_disk s0 es s \<longleftrightarrow>
     gc_base s0 \<le> gc_synced s \<and> gc_synced s \<le> gc_base s0 + length (gc_log es)
     \<and> ww_disk (gc_wal s) = ww_file (gc_wal s0) @ WalLog (take (gc_synced s - gc_base s0) (gc_log es))"

definition inv_applied :: "(bytes \<Rightarrow> u64) \<Rightarrow> GC \<Rightarrow> GcEvent list \<Rightarrow> GC \<Rightarrow> bool" where
  "inv_applied hash s0 es s \<longleftrightarrow>
     gc_base s0 \<le> gc_applied s \<and> gc_applied s \<le> gc_synced s
     \<and> ds_kv (gc_store s) =
         fold (\<lambda>r kv. apply_record (ShardedKV_Set hash) (ShardedKV_Delete hash) kv r)
           (take (gc_applied s - gc_base s0) (gc_log es)) (ds_kv (gc_store s0))"

definition in_log :: "GC \<Rightarrow> GcEvent list \<Rightarrow> WriteOp \<Rightarrow> u64 \<Rightarrow> bool" where
  "in_log s0 es wop i \<longleftrightarrow>
     gc_base s0 < unat i \<and> unat i \<le> gc_base s0 + length (gc_log es)
     \<and> gc_log es ! (unat i - gc_base s0 - 1) = log_record wop i"

definition inv_pending :: "GC \<Rightarrow> GcEvent list \<Rightarrow> GC \<Rightarrow> bool" where
  "inv_pending s0 es s \<longleftrightarrow>
     (\<forall>t wop i. pending (gc_phase s t) = Some (wop, i) \<longrightarrow>
        gc_applied s < unat i \<and> in_log s0 es wop i \<and> (is_synced (gc_phase s t) \<longrightarrow> unat i \<le> gc_synced s))
     \<and> (\<forall>t t' wop wop' i. pending (gc_phase s t) = Some (wop, i) \<longrightarrow> pending (gc_phase s t') = Some (wop', i) \<longrightarrow> t = t')"

definition inv_leader :: "GC \<Rightarrow> bool" where
  "inv_leader s \<longleftrightarrow>
     (ww_flush_in_progress (gc_wal s) \<longleftrightarrow> (\<exists>t. is_leading (gc_phase s t)))
     \<and> (\<forall>t t'. is_leading (gc_phase s t) \<longrightarrow> is_leading (gc_phase s t') \<longrightarrow> t = t')"

definition inv_history :: "GC \<Rightarrow> GcEvent list \<Rightarrow> GC \<Rightarrow> bool" where
  "inv_history s0 es s \<longleftrightarrow>
     (\<forall>t wop i st. EvAck t wop i st \<in> set es \<longrightarrow> unat i \<le> gc_applied s \<and> in_log s0 es wop i)
     \<and> (\<forall>t wop i st. EvSyncFailed t wop i st \<in> set es \<longrightarrow>
          gc_applied s < unat i \<and> unat i \<le> gc_base s0 + length (gc_log es)
          \<and> (\<forall>t' wop'. pending (gc_phase s t') \<noteq> Some (wop', i)))"

definition inv_cover :: "GC \<Rightarrow> GcEvent list \<Rightarrow> GC \<Rightarrow> bool" where
  "inv_cover s0 es s \<longleftrightarrow>
     (\<forall>j. gc_applied s < j \<longrightarrow> j \<le> gc_base s0 + length (gc_log es) \<longrightarrow>
        (\<exists>t wop i. pending (gc_phase s t) = Some (wop, i) \<and> unat i = j)
        \<or> (\<exists>t wop i st. EvSyncFailed t wop i st \<in> set es \<and> unat i = j))"

definition gc_inv :: "(bytes \<Rightarrow> u64) \<Rightarrow> GC \<Rightarrow> GcEvent list \<Rightarrow> GC \<Rightarrow> bool" where
  "gc_inv hash s0 es s \<longleftrightarrow>
     inv_log s0 es s \<and> inv_disk s0 es s \<and> inv_applied hash s0 es s \<and> inv_pending s0 es s
     \<and> inv_leader s \<and> inv_history s0 es s \<and> inv_cover s0 es s"

lemmas inv_defs = inv_log_def inv_disk_def inv_applied_def inv_pending_def inv_leader_def inv_history_def inv_cover_def

lemma gc_invD:
  assumes "gc_inv hash s0 es s"
  shows "inv_log s0 es s" "inv_disk s0 es s" "inv_applied hash s0 es s" "inv_leader s" "inv_cover s0 es s"
    and "pending (gc_phase s t) = Some (wop, i) \<Longrightarrow> gc_applied s < unat i \<and> in_log s0 es wop i"
    and "gc_phase s t = Synced wop i \<Longrightarrow> unat i \<le> gc_synced s"
    and "pending (gc_phase s t) = Some (wop, i) \<Longrightarrow> pending (gc_phase s t') = Some (wop', i) \<Longrightarrow> t = t'"
    and "EvAck t wop i st \<in> set es \<Longrightarrow> unat i \<le> gc_applied s \<and> in_log s0 es wop i"
    and "EvSyncFailed t wop i st \<in> set es \<Longrightarrow> gc_applied s < unat i \<and> unat i \<le> gc_base s0 + length (gc_log es)"
    and "EvSyncFailed t wop i st \<in> set es \<Longrightarrow> pending (gc_phase s t') \<noteq> Some (wop', i)"
proof -
  show "inv_log s0 es s" "inv_disk s0 es s" "inv_applied hash s0 es s" "inv_leader s" "inv_cover s0 es s"
    using assms by (simp_all add: gc_inv_def)
  have p: "inv_pending s0 es s" and h: "inv_history s0 es s" using assms by (simp_all add: gc_inv_def)
  show "pending (gc_phase s t) = Some (wop, i) \<Longrightarrow> gc_applied s < unat i \<and> in_log s0 es wop i"
    "pending (gc_phase s t) = Some (wop, i) \<Longrightarrow> pending (gc_phase s t') = Some (wop', i) \<Longrightarrow> t = t'"
    using p unfolding inv_pending_def by blast+
  have "is_synced (gc_phase s t) \<Longrightarrow> pending (gc_phase s t) = Some (wop, i) \<Longrightarrow> unat i \<le> gc_synced s"
    using p unfolding inv_pending_def by blast
  then show "gc_phase s t = Synced wop i \<Longrightarrow> unat i \<le> gc_synced s" by simp
  show "EvAck t wop i st \<in> set es \<Longrightarrow> unat i \<le> gc_applied s \<and> in_log s0 es wop i"
    "EvSyncFailed t wop i st \<in> set es \<Longrightarrow> gc_applied s < unat i \<and> unat i \<le> gc_base s0 + length (gc_log es)"
    "EvSyncFailed t wop i st \<in> set es \<Longrightarrow> pending (gc_phase s t') \<noteq> Some (wop', i)"
    using h unfolding inv_history_def by blast+
qed

text \<open>A write of a thread that only moves between the waits of \<^verbatim>\<open>Sync\<close>.\<close>

lemma gc_inv_move:
  assumes inv: "gc_inv hash s0 es s"
    and p: "pending p = pending (gc_phase s t)" "is_synced p \<longrightarrow> (\<forall>wop i. p = Synced wop i \<longrightarrow> unat i \<le> gc_synced s)"
    and f: "is_leading p \<longrightarrow> f = True \<and> (is_leading (gc_phase s t) \<or> \<not> ww_flush_in_progress (gc_wal s))"
      "\<not> is_leading p \<longrightarrow> f = ww_flush_in_progress (gc_wal s) \<and> \<not> is_leading (gc_phase s t)"
  shows "gc_inv hash s0 (es @ [EvTau]) (gc_upd s t p ((gc_wal s)\<lparr>ww_flush_in_progress := f\<rparr>))"
proof -
  let ?s = "gc_upd s t p ((gc_wal s)\<lparr>ww_flush_in_progress := f\<rparr>)"
  have pend: "pending (gc_phase ?s t') = pending (gc_phase s t')" for t'
    using p(1) by (simp add: gc_upd_def)
  have "unat i \<le> gc_synced s" if "is_synced p" "pending (gc_phase s t) = Some (wop, i)" for wop i
    using p that by (cases p) auto
  then have "inv_pending s0 (es @ [EvTau]) ?s"
    using inv unfolding gc_inv_def inv_pending_def pend by (auto simp: gc_upd_def in_log_def)
  moreover have "inv_history s0 (es @ [EvTau]) ?s" "inv_cover s0 (es @ [EvTau]) ?s"
    using inv unfolding gc_inv_def inv_history_def inv_cover_def pend by (auto simp: gc_upd_def in_log_def)
  moreover have "inv_leader ?s"
    using inv f unfolding gc_inv_def inv_leader_def by (cases "is_leading p") (auto simp: gc_upd_def)
  moreover have "inv_log s0 (es @ [EvTau]) ?s" "inv_disk s0 (es @ [EvTau]) ?s" "inv_applied hash s0 (es @ [EvTau]) ?s"
    using inv by (auto simp: gc_inv_def inv_log_def inv_disk_def inv_applied_def gc_upd_def)
  ultimately show ?thesis by (simp add: gc_inv_def)
qed

lemma gc_inv_append:
  assumes inv: "gc_inv hash s0 es s" and idle: "gc_phase s t = Idle"
    and r: "write_record wop = Inr r" and a: "WalWriter_Append (gc_wal s) r = (Inr i, wal)"
    and bound: "gc_base s0 + length (gc_log es) + 1 < 2 ^ 64"
  shows "gc_inv hash s0 (es @ [EvAppend t wop i]) (gc_upd s t (Appended wop i) wal)"
proof -
  let ?s = "gc_upd s t (Appended wop i) wal" and ?es = "es @ [EvAppend t wop i]"
  obtain os where i: "i = ww_last_index (gc_wal s) + 1"
    and wal: "wal = (gc_wal s)\<lparr>ww_file := ww_file (gc_wal s) @ WalBytes (r\<lparr>w_index := i\<rparr>), ww_os := os, ww_last_index := i\<rparr>"
    using a by (rule Append_Inr)
  have log: "gc_log ?es = gc_log es @ [log_record wop i]" by simp
  have last: "unat (ww_last_index (gc_wal s)) = gc_base s0 + length (gc_log es)"
    using inv by (simp add: gc_inv_def inv_log_def)
  then have ui: "unat i = gc_base s0 + length (gc_log es) + 1"
    using bound by (simp add: i unat_word_ariths)
  have mono: "in_log s0 es wop' j \<Longrightarrow> in_log s0 ?es wop' j" for wop' j
    by (auto simp: in_log_def nth_append)
  have new: "in_log s0 ?es wop i" by (simp add: in_log_def ui nth_append)
  have le: "in_log s0 es wop' j \<Longrightarrow> unat j < unat i" for wop' j by (simp add: in_log_def ui)
  have appl: "gc_applied s < unat i" using inv by (simp add: gc_inv_def inv_applied_def inv_disk_def ui)
  have other: "pending (gc_phase s t') = Some (wop', j) \<Longrightarrow> unat j < unat i" for t' wop' j
    using gc_invD(6) [OF inv] le by blast
  have failed: "EvSyncFailed t' wop' j st \<in> set es \<Longrightarrow> unat j < unat i" for t' wop' j st
    using gc_invD(10) [OF inv, of t' wop' j st] by (simp add: ui)
  have lead: "is_leading (gc_phase ?s t') = is_leading (gc_phase s t')" for t'
    using idle by (simp add: gc_upd_def)
  have "inv_log s0 ?es ?s"
    using inv ui wal write_record_log [OF r, of i]
    by (auto simp: gc_inv_def inv_log_def gc_upd_def nth_append less_Suc_eq)
  moreover have "inv_disk s0 ?es ?s" "inv_applied hash s0 ?es ?s"
    using inv wal by (auto simp: gc_inv_def inv_disk_def inv_applied_def gc_upd_def)
  moreover have "inv_pending s0 ?es ?s"
    using inv mono new appl other wal unfolding gc_inv_def inv_pending_def
    by (auto simp: gc_upd_def simp del: gc_log_simps) (blast dest: less_irrefl_nat)+
  moreover have "inv_leader ?s"
    using gc_invD(4) [OF inv] wal unfolding inv_leader_def lead by (simp add: gc_upd_def)
  moreover have "inv_history s0 ?es ?s"
    using gc_invD(9,10,11) [OF inv] mono wal failed unfolding inv_history_def
    by (auto simp: gc_upd_def split: if_splits) (fastforce simp: le_SucI)+
  moreover have "inv_cover s0 ?es ?s"
    unfolding inv_cover_def
  proof (intro allI impI)
    fix j assume j: "gc_applied ?s < j" "j \<le> gc_base s0 + length (gc_log ?es)"
    show "(\<exists>t wop i. pending (gc_phase ?s t) = Some (wop, i) \<and> unat i = j)
      \<or> (\<exists>t wop i st. EvSyncFailed t wop i st \<in> set ?es \<and> unat i = j)"
    proof (cases "j = unat i")
      case True
      then show ?thesis by (intro disjI1 exI [of _ t]) (simp add: gc_upd_def)
    next
      case False
      with j ui have "gc_applied s < j" "j \<le> gc_base s0 + length (gc_log es)" by (auto simp: gc_upd_def)
      with inv have "(\<exists>t wop i. pending (gc_phase s t) = Some (wop, i) \<and> unat i = j)
        \<or> (\<exists>t wop i st. EvSyncFailed t wop i st \<in> set es \<and> unat i = j)"
        by (auto simp: gc_inv_def inv_cover_def)
      with idle show ?thesis by (auto simp: gc_upd_def) (metis option.distinct(1) pending.simps(1))+
    qed
  qed
  ultimately show ?thesis by (simp add: gc_inv_def)
qed

lemma gc_inv_flush_ok:
  assumes inv: "gc_inv hash s0 es s" and ph: "gc_phase s t = Leading wop i observed"
    and f: "Sync_flush (gc_wal s) i = (st, wal)" and "ok st"
  shows "gc_inv hash s0 (es @ [EvTau]) (gc_upd s t (Synced wop i) wal)"
proof -
  let ?s = "gc_upd s t (Synced wop i) wal" and ?es = "es @ [EvTau]"
  from f \<open>ok st\<close> obtain os where wal: "wal = (gc_wal s)\<lparr>ww_os := os, ww_disk := ww_file (gc_wal s),
      ww_fsync_count := ww_fsync_count (gc_wal s) + 1, ww_synced_index := ww_last_index (gc_wal s),
      ww_flush_in_progress := False\<rparr>"
    by (cases rule: Sync_flush_cases) auto
  have last: "unat (ww_last_index (gc_wal s)) = gc_base s0 + length (gc_log es)"
    and file_: "ww_file (gc_wal s) = ww_file (gc_wal s0) @ WalLog (gc_log es)"
    using gc_invD(1) [OF inv] by (simp_all add: inv_log_def)
  have syn: "gc_synced ?s = gc_base s0 + length (gc_log es)" by (simp add: gc_upd_def wal last)
  have pend: "pending (gc_phase ?s t') = pending (gc_phase s t')" for t'
    using ph by (simp add: gc_upd_def)
  have same: "gc_applied ?s = gc_applied s" "in_log s0 ?es = in_log s0 es" by (auto simp: gc_upd_def in_log_def fun_eq_iff)
  have "inv_log s0 ?es ?s" using gc_invD(1) [OF inv] wal by (simp add: inv_log_def gc_upd_def)
  moreover have "inv_disk s0 ?es ?s"
    unfolding inv_disk_def syn by (simp add: gc_upd_def wal file_)
  moreover have "inv_applied hash s0 ?es ?s"
    using gc_invD(2,3) [OF inv] unfolding inv_applied_def inv_disk_def syn by (simp add: gc_upd_def wal last)
  moreover have "inv_pending s0 ?es ?s"
    unfolding inv_pending_def pend same syn
    using gc_invD(6,8) [OF inv] by (fastforce simp: in_log_def)
  moreover have "inv_leader ?s"
    using gc_invD(4) [OF inv] ph unfolding inv_leader_def by (auto simp: gc_upd_def wal)
  moreover have "inv_history s0 ?es ?s" "inv_cover s0 ?es ?s"
    using inv unfolding gc_inv_def inv_history_def inv_cover_def pend same by auto
  ultimately show ?thesis by (simp add: gc_inv_def)
qed

lemma gc_inv_flush_failed:
  assumes inv: "gc_inv hash s0 es s" and ph: "gc_phase s t = Leading wop i observed"
    and f: "Sync_flush (gc_wal s) i = (st, wal)" and "\<not> ok st"
  shows "gc_inv hash s0 (es @ [EvSyncFailed t wop i st]) (gc_upd s t Idle wal)"
proof -
  let ?s = "gc_upd s t Idle wal" and ?es = "es @ [EvSyncFailed t wop i st]"
  from f \<open>\<not> ok st\<close> obtain os where wal: "wal = (gc_wal s)\<lparr>ww_os := os, ww_flush_in_progress := False\<rparr>"
    by (cases rule: Sync_flush_cases) auto
  have pend: "pending (gc_phase ?s t') = Some x \<longleftrightarrow> t' \<noteq> t \<and> pending (gc_phase s t') = Some x" for t' x
    by (simp add: gc_upd_def)
  have same: "gc_applied ?s = gc_applied s" "gc_synced ?s = gc_synced s" "in_log s0 ?es = in_log s0 es"
    by (auto simp: gc_upd_def wal in_log_def fun_eq_iff)
  have pt: "pending (gc_phase s t) = Some (wop, i)" using ph by simp
  have "inv_log s0 ?es ?s" "inv_disk s0 ?es ?s" "inv_applied hash s0 ?es ?s"
    using gc_invD(1-3) [OF inv] wal by (simp_all add: inv_log_def inv_disk_def inv_applied_def gc_upd_def)
  moreover have "inv_pending s0 ?es ?s"
    using inv unfolding gc_inv_def inv_pending_def pend same by (auto simp: gc_upd_def)
  moreover have "inv_leader ?s"
    using gc_invD(4) [OF inv] ph unfolding inv_leader_def by (auto simp: gc_upd_def wal)
  moreover have "inv_history s0 ?es ?s"
    using gc_invD(9-11) [OF inv] gc_invD(6) [OF inv pt] gc_invD(8) [OF inv pt]
    unfolding inv_history_def pend same by (fastforce simp: in_log_def)
  moreover have "inv_cover s0 ?es ?s"
    using gc_invD(5) [OF inv] ph unfolding inv_cover_def pend same by (auto simp: pt) (metis option.inject pt prod.inject)
  ultimately show ?thesis by (simp add: gc_inv_def)
qed

lemma gc_inv_apply:
  assumes inv: "gc_inv hash s0 es s" and ph: "gc_phase s t = Synced wop i"
    and ready: "apply_ready (ds_last_applied_index (gc_store s)) i"
    and kv: "write_apply hash (ds_kv (gc_store s)) wop = (st, kv)"
  defines "s' \<equiv> \<lparr>gc_store = (gc_store s)\<lparr>ds_kv := kv, ds_last_applied_index := i\<rparr>, gc_phase = (gc_phase s)(t := Idle)\<rparr>"
  shows "gc_inv hash s0 (es @ [EvAck t wop i st]) s'"
proof -
  let ?es = "es @ [EvAck t wop i st]" and ?b = "gc_base s0"
  have pt: "pending (gc_phase s t) = Some (wop, i)" using ph by simp
  note il = gc_invD(6) [OF inv pt]
  have a: "gc_applied s = unat i - 1"
  proof -
    have "i \<noteq> 0" using il by (auto simp: in_log_def)
    then have "unat (i - 1) = unat i - 1" by (rule unat_minus_one)
    then show ?thesis using ready by (simp add: apply_ready_def)
  qed
  have ui: "unat i = gc_applied s + 1" "unat i \<le> gc_synced s" "?b \<le> gc_applied s"
    using a il gc_invD(7) [OF inv ph] gc_invD(3) [OF inv] by (simp_all add: in_log_def inv_applied_def)
  have fields: "gc_applied s' = unat i" "gc_synced s' = gc_synced s" "in_log s0 ?es = in_log s0 es" "gc_wal s' = gc_wal s"
    "ds_kv (gc_store s') = kv"
    by (auto simp: s'_def in_log_def fun_eq_iff)
  have pend: "pending (gc_phase s' t') = Some x \<longleftrightarrow> t' \<noteq> t \<and> pending (gc_phase s t') = Some x" for t' x
    by (simp add: s'_def)
  have later: "gc_applied s < unat j \<Longrightarrow> j \<noteq> i \<Longrightarrow> unat i < unat j" for j
    using ui(1) by (metis Suc_eq_plus1 Suc_leI le_neq_implies_less word_unat_eq_iff)
  have lead: "is_leading (gc_phase s' t') = is_leading (gc_phase s t')" for t' by (simp add: s'_def ph)
  have synced_: "is_synced (gc_phase s' t') \<Longrightarrow> is_synced (gc_phase s t')" for t' by (auto simp: s'_def split: if_splits)
  have "inv_log s0 ?es s'" "inv_disk s0 ?es s'" using gc_invD(1,2) [OF inv] by (simp_all add: inv_log_def inv_disk_def s'_def)
  moreover have "inv_applied hash s0 ?es s'"
  proof -
    have "unat i - ?b = Suc (gc_applied s - ?b)" using ui by simp
    moreover have "gc_applied s - ?b < length (gc_log es)" "gc_log es ! (gc_applied s - ?b) = log_record wop i"
      using il ui by (auto simp: in_log_def)
    ultimately show ?thesis
      using gc_invD(3) [OF inv] ui write_apply_record [of hash "ds_kv (gc_store s)" wop i] kv
      unfolding inv_applied_def fields by (simp add: take_Suc_conv_app_nth)
  qed
  moreover have "inv_pending s0 ?es s'"
    using inv later gc_invD(8) [OF inv pt] synced_
    unfolding gc_inv_def inv_pending_def pend fields by blast
  moreover have "inv_leader s'"
    using gc_invD(4) [OF inv] unfolding inv_leader_def lead by (simp add: fields)
  moreover have "inv_history s0 ?es s'"
    using gc_invD(9-11) [OF inv] later il ui gc_invD(11) [OF inv] pt
    unfolding inv_history_def pend fields by fastforce
  moreover have "inv_cover s0 ?es s'"
    unfolding inv_cover_def pend fields
  proof (intro allI impI)
    fix j assume j: "unat i < j" "j \<le> ?b + length (gc_log ?es)"
    then have "(\<exists>t wop i. pending (gc_phase s t) = Some (wop, i) \<and> unat i = j)
        \<or> (\<exists>t wop i st. EvSyncFailed t wop i st \<in> set es \<and> unat i = j)"
      using gc_invD(5) [OF inv] ui by (simp add: inv_cover_def)
    moreover have "t' \<noteq> t" if "pending (gc_phase s t') = Some (wop', i')" "unat i' = j" for t' wop' i'
      using that j pt by auto
    moreover have "set es \<subseteq> set ?es" by auto
    ultimately show "(\<exists>t' wop i. (t' \<noteq> t \<and> pending (gc_phase s t') = Some (wop, i)) \<and> unat i = j)
        \<or> (\<exists>t wop i' st'. EvSyncFailed t wop i' st' \<in> set ?es \<and> unat i' = j)"
      by blast
  qed
  ultimately show ?thesis by (simp add: gc_inv_def)
qed

text \<open>
  A failed append that leaves part of its record in the file puts everything appended later out of the reach of recovery. The properties exclude such an
  event and no other: appends may fail without writing anything, and a sync may fail at any time.
\<close>

definition ev_clean :: "GcEvent \<Rightarrow> bool" where
  "ev_clean e \<longleftrightarrow> (case e of EvAppendFailed _ _ _ left \<Rightarrow> left = 0 | _ \<Rightarrow> True)"

lemma gc_inv_append_failed:
  assumes "gc_inv hash s0 es s" "gc_phase s t = Idle"
  shows "gc_inv hash s0 (es @ [EvAppendFailed t wop e k]) (gc_upd s t Idle ((gc_wal s)\<lparr>ww_os := os\<rparr>))"
proof -
  have "(gc_phase s)(t := Idle) = gc_phase s" using assms(2) by auto
  then show ?thesis using assms(1) by (auto simp: gc_inv_def inv_defs in_log_def gc_upd_def)
qed

lemma gc_inv_reject: "gc_inv hash s0 es s \<Longrightarrow> gc_inv hash s0 (es @ [EvReject t wop e]) s"
  by (auto simp: gc_inv_def inv_defs in_log_def)

lemma gc_inv_step:
  assumes inv: "gc_inv hash s0 es s" and step: "gc_step hash s e s'" and clean: "ev_clean e"
    and bound: "gc_base s0 + length es + 1 < 2 ^ 64"
  shows "gc_inv hash s0 (es @ [e]) s'"
  using step
proof cases
  case (reject t wop e)
  then show ?thesis using inv gc_inv_reject by simp
next
  case (append_ok t wop r i wal)
  have "gc_base s0 + length (gc_log es) + 1 < 2 ^ 64" using bound length_gc_log [of es] by simp
  with append_ok show ?thesis using gc_inv_append [OF inv] by blast
next
  case (append_failed t wop r e wal)
  obtain os k where wal: "wal = (gc_wal s)\<lparr>ww_file := ww_file (gc_wal s) @ take k (WalBytes (r\<lparr>w_index := ww_last_index (gc_wal s) + 1\<rparr>)), ww_os := os\<rparr>"
    using append_failed(5) by (rule Append_Inl)
  have "length (ww_file wal) - length (ww_file (gc_wal s)) = 0" using clean append_failed(1) by (simp add: ev_clean_def)
  then have "take k (WalBytes (r\<lparr>w_index := ww_last_index (gc_wal s) + 1\<rparr>)) = []" unfolding wal by (auto simp: min_def split: if_splits)
  then have "wal = (gc_wal s)\<lparr>ww_os := os\<rparr>" unfolding wal by simp
  then show ?thesis using gc_inv_append_failed [OF inv append_failed(3)] append_failed(1,2) by simp
next
  case (sync_covered t wop i st)
  have "unat i \<le> gc_synced s"
    using sync_covered gc_invD(1) [OF inv]
    by (auto simp: Sync_enter_def inv_log_def word_le_nat_alt split: if_splits)
  then show ?thesis
    using sync_covered gc_inv_move [OF inv, of "Synced wop i" t "ww_flush_in_progress (gc_wal s)"] by simp
next
  case (sync_closed t wop i st)
  then show ?thesis using gc_invD(1) [OF inv] by (auto simp: Sync_enter_def inv_log_def split: if_splits)
next
  case (sync_wait t wop i)
  then show ?thesis using gc_inv_move [OF inv, of "Waiting wop i" t "ww_flush_in_progress (gc_wal s)"] by simp
next
  case (sync_lead t wop i)
  then show ?thesis
    using gc_inv_move [OF inv, of "Leading wop i (ww_last_index (gc_wal s))" t True]
    by (simp add: Sync_enter_def Sync_lead_def split: if_splits)
next
  case (waited_covered t wop i st)
  then have "unat i \<le> gc_synced s" by (auto simp: Sync_waited_def word_le_nat_alt split: if_splits)
  then show ?thesis
    using waited_covered gc_inv_move [OF inv, of "Synced wop i" t "ww_flush_in_progress (gc_wal s)"] by simp
next
  case (waited_lead t wop i)
  then show ?thesis
    using gc_inv_move [OF inv, of "Leading wop i (ww_last_index (gc_wal s))" t True]
    by (auto simp: Sync_wait_over_def Sync_waited_def Sync_lead_def split: if_splits)
next
  case (lead_tick t wop i observed)
  then have "ww_flush_in_progress (gc_wal s)" using gc_invD(4) [OF inv] by (auto simp: inv_leader_def intro: exI [of _ t])
  then have "(gc_wal s)\<lparr>ww_flush_in_progress := True\<rparr> = gc_wal s" by simp
  then show ?thesis
    using lead_tick gc_inv_move [OF inv, of "Leading wop i (ww_last_index (gc_wal s))" t True] by simp
next
  case (flush_ok t wop i observed st wal)
  then show ?thesis using gc_inv_flush_ok [OF inv] by simp
next
  case (flush_failed t wop i observed st wal)
  then show ?thesis using gc_inv_flush_failed [OF inv] by simp
next
  case (apply_write t wop i st kv)
  then show ?thesis using gc_inv_apply [OF inv] by simp
qed

definition gc_fresh :: "(bytes \<Rightarrow> u64) \<Rightarrow> GC \<Rightarrow> bool" where
  "gc_fresh hash s0 \<longleftrightarrow>
     ok (ww_open_status (gc_wal s0)) \<and> ww_disk (gc_wal s0) = ww_file (gc_wal s0)
     \<and> ww_synced_index (gc_wal s0) = ww_last_index (gc_wal s0)
     \<and> ds_last_applied_index (gc_store s0) = ww_last_index (gc_wal s0)
     \<and> \<not> ww_flush_in_progress (gc_wal s0) \<and> gc_phase s0 = (\<lambda>_. Idle)"

lemma gc_inv_run:
  assumes "gc_run hash s0 es s" "gc_fresh hash s0" "list_all ev_clean es" "gc_base s0 + length es < 2 ^ 64"
  shows "gc_inv hash s0 es s"
  using assms
proof (induction es s rule: gc_run.induct)
  case run_start
  then show ?case by (auto simp: gc_inv_def inv_defs gc_fresh_def gc_base_def)
next
  case (run_step es s e s')
  then show ?case by (intro gc_inv_step) auto
qed

section \<open>Crashes\<close>

text \<open>
  After a crash, \<^verbatim>\<open>wal.log\<close> holds everything that was synced, and any part of what was written after that.
\<close>

definition crash_file :: "WalWriter \<Rightarrow> bytes \<Rightarrow> bool" where
  "crash_file w f \<longleftrightarrow> prefix (ww_disk w) f \<and> prefix f (ww_file w)"

lemma WalLog_split: "WalLog rs = WalLog (take d rs) @ WalLog (drop d rs)"
  by (metis append_take_drop_id concat_append map_append WalLog_def)

lemma gc_disk_crash: "gc_inv hash s0 es s \<Longrightarrow> crash_file (gc_wal s) (ww_disk (gc_wal s))"
  using gc_invD(1,2) [of hash s0 es s] WalLog_split [of "gc_log es" "gc_synced s - gc_base s0"]
  unfolding crash_file_def inv_log_def inv_disk_def by (metis append_assoc prefixI prefix_order.refl)

lemma prefix_WalLog:
  "prefix f (WalLog rs) \<Longrightarrow> \<forall>r \<in> set rs. WalRecordValid r \<Longrightarrow>
     \<exists>m tail. m \<le> length rs \<and> f = WalLog (take m rs) @ tail \<and> WalTorn tail"
proof (induction rs arbitrary: f)
  case Nil
  then show ?case by (intro exI [of _ 0] exI [of _ "[]"]) simp
next
  case (Cons r rs)
  show ?case
  proof (cases "prefix (WalBytes r) f")
    case True
    then obtain g where g: "f = WalBytes r @ g" by (auto simp: prefix_def)
    with Cons.prems have "prefix g (WalLog rs)" by simp
    then obtain m tail where "m \<le> length rs" "g = WalLog (take m rs) @ tail" "WalTorn tail"
      using Cons.IH [of g] Cons.prems(2) by auto
    with g show ?thesis by (intro exI [of _ "Suc m"] exI [of _ tail]) simp
  next
    case False
    then have "strict_prefix f (WalBytes r)"
      using Cons.prems by (auto simp: prefix_append strict_prefix_def)
    then have "WalTorn f" using Cons.prems by (auto simp: WalTorn_def)
    then show ?thesis by (intro exI [of _ 0] exI [of _ f]) simp
  qed
qed

lemma gc_log_valid:
  assumes "gc_run hash s0 es s" "\<forall>t wop i. EvAppend t wop i \<in> set es \<longrightarrow> write_fits wop"
  shows "\<forall>r \<in> set (gc_log es). WalRecordValid r"
  using assms
proof (induction es s rule: gc_run.induct)
  case (run_step es s e s')
  from run_step.hyps(2) have "\<forall>r \<in> set (ev_record e). WalRecordValid r"
    using run_step.prems by cases (auto intro: log_record_valid)
  with run_step show ?case by auto
qed simp

lemma gc_start_fresh:
  assumes "\<forall>r \<in> set rs. WalRecordValid r" "DurableStorage_Open hash data_dir (WalLog rs) os = Inr st" "calm os"
  shows "gc_fresh hash (gc_start st)" "gc_base (gc_start st) = unat (last_wal_index 0 rs)"
    "ww_file (gc_wal (gc_start st)) = WalLog rs" "ShardedKV_inv hash (ds_kv st)"
    "ShardedKV_abs hash (ds_kv st) = fold wal_effect rs Map.empty"
proof -
  obtain st' where "DurableStorage_Open hash data_dir (WalLog rs) os = Inr st'"
    "ShardedKV_inv hash (ds_kv st')" "ShardedKV_abs hash (ds_kv st') = fold wal_effect rs Map.empty"
    "ds_last_applied_index st' = last_wal_index 0 rs" "ww_last_index (ds_wal st') = last_wal_index 0 rs"
    "ww_synced_index (ds_wal st') = last_wal_index 0 rs"
    "ww_open_status (ds_wal st') = Status_Ok" "ww_file (ds_wal st') = WalLog rs" "ww_disk (ds_wal st') = WalLog rs"
    "\<not> ww_flush_in_progress (ds_wal st')"
    using DurableStorage_Open_log [OF assms(1) WalTorn_Nil _ assms(3), of "WalLog rs" hash data_dir] by auto
  then show "gc_fresh hash (gc_start st)" "gc_base (gc_start st) = unat (last_wal_index 0 rs)"
    "ww_file (gc_wal (gc_start st)) = WalLog rs" "ShardedKV_inv hash (ds_kv st)"
    "ShardedKV_abs hash (ds_kv st) = fold wal_effect rs Map.empty"
    using assms(2) by (simp_all add: gc_fresh_def gc_start_def gc_base_def)
qed

lemma in_log_take:
  assumes "in_log s0 es wop i" "unat i \<le> gc_base s0 + m"
  shows "log_record wop i \<in> set (take m (gc_log es))"
proof -
  have "unat i - gc_base s0 - 1 < length (take m (gc_log es))"
    "take m (gc_log es) ! (unat i - gc_base s0 - 1) = log_record wop i"
    using assms by (auto simp: in_log_def)
  then show ?thesis by (metis nth_mem)
qed

section \<open>Progress\<close>

text \<open>Some thread that is inside a call can take a step that moves it on.\<close>

definition gc_can_move :: "(bytes \<Rightarrow> u64) \<Rightarrow> GC \<Rightarrow> bool" where
  "gc_can_move hash s \<longleftrightarrow> (\<exists>t e s'. gc_phase s t \<noteq> Idle \<and> gc_step hash s e s' \<and> gc_phase s' t \<noteq> gc_phase s t)"

lemma gc_can_moveI:
  "gc_step hash s e (gc_upd s t p wal) \<Longrightarrow> gc_phase s t \<noteq> Idle \<Longrightarrow> p \<noteq> gc_phase s t \<Longrightarrow> gc_can_move hash s"
  unfolding gc_can_move_def by (intro exI [of _ t] exI conjI) (assumption | simp add: gc_upd_def)+

lemma Leading_moves: "gc_phase s t = Leading wop i ob \<Longrightarrow> gc_can_move hash s"
proof -
  assume ph: "gc_phase s t = Leading wop i ob"
  obtain st wal where f: "Sync_flush (gc_wal s) i = (st, wal)" by fastforce
  show ?thesis
    by (cases "ok st") (rule gc_can_moveI [OF flush_ok [OF ph f]] gc_can_moveI [OF flush_failed [OF ph f]]; simp add: ph)+
qed

lemma Appended_moves:
  assumes ph: "gc_phase s t = Appended wop i"
  shows "gc_can_move hash s"
proof (cases "Sync_enter (gc_wal s) i")
  case (SyncReturn st)
  show ?thesis
    by (cases "ok st") (rule gc_can_moveI [OF sync_covered [OF ph SyncReturn]]
        gc_can_moveI [OF sync_closed [OF ph SyncReturn]]; simp add: ph)+
next
  case SyncWait
  show ?thesis by (rule gc_can_moveI [OF sync_wait [OF ph SyncWait]]) (simp_all add: ph)
next
  case SyncLead
  show ?thesis by (rule gc_can_moveI [OF sync_lead [OF ph SyncLead]]) (simp_all add: ph)
qed

lemma Waiting_moves:
  assumes inv: "gc_inv hash s0 es s" and ph: "gc_phase s t = Waiting wop i" and none: "\<not> (\<exists>t. is_leading (gc_phase s t))"
  shows "gc_can_move hash s"
proof -
  have over: "Sync_wait_over (gc_wal s) i"
    using none gc_invD(4) [OF inv] by (simp add: Sync_wait_over_def inv_leader_def)
  show ?thesis
  proof (cases "Sync_waited (gc_wal s) i")
    case (SyncReturn st)
    show ?thesis by (rule gc_can_moveI [OF waited_covered [OF ph over SyncReturn]]) (simp_all add: ph)
  next
    case SyncLead
    show ?thesis by (rule gc_can_moveI [OF waited_lead [OF ph over SyncLead]]) (simp_all add: ph)
  qed (simp add: Sync_waited_def split: if_splits)
qed

lemma Synced_moves:
  assumes inv: "gc_inv hash s0 es s" and fine: "\<forall>t wop i st. EvSyncFailed t wop i st \<notin> set es"
    and all: "\<And>t. gc_phase s t = Idle \<or> is_synced (gc_phase s t)" and busy: "gc_phase s t0 \<noteq> Idle"
  shows "gc_can_move hash s"
proof -
  obtain wop0 i0 where p0: "pending (gc_phase s t0) = Some (wop0, i0)" using busy by (cases "gc_phase s t0") auto
  have "gc_applied s < unat i0" "unat i0 \<le> gc_base s0 + length (gc_log es)"
    using gc_invD(6) [OF inv p0] by (auto simp: in_log_def)
  then have "gc_applied s < gc_applied s + 1" "gc_applied s + 1 \<le> gc_base s0 + length (gc_log es)" by simp_all
  then obtain t wop i where t: "pending (gc_phase s t) = Some (wop, i)" "unat i = gc_applied s + 1"
    using gc_invD(5) [OF inv] fine unfolding inv_cover_def by blast
  then have ph: "gc_phase s t = Synced wop i" using all [of t] by (cases "gc_phase s t") simp_all
  have "i \<noteq> 0" using t(2) by auto
  then have "unat (i - 1) = unat i - 1" by (rule unat_minus_one)
  then have ready: "apply_ready (ds_last_applied_index (gc_store s)) i"
    unfolding apply_ready_def by (simp add: word_unat_eq_iff t(2))
  obtain st kv where "write_apply hash (ds_kv (gc_store s)) wop = (st, kv)" by fastforce
  note step = apply_write [OF ph ready this]
  show ?thesis
    unfolding gc_can_move_def by (rule exI [of _ t], intro exI conjI, simp add: ph, rule step, simp add: ph)
qed

lemma gc_progress:
  assumes inv: "gc_inv hash s0 es s" and fine: "\<forall>t wop i st. EvSyncFailed t wop i st \<notin> set es"
    and busy: "gc_phase s t0 \<noteq> Idle"
  shows "gc_can_move hash s"
proof -
  have "gc_can_move hash s \<or> gc_phase s t = Idle \<or> is_synced (gc_phase s t)" for t
  proof (cases "gc_phase s t")
    case (Waiting wop i)
    show ?thesis
    proof (cases "\<exists>t. is_leading (gc_phase s t)")
      case True
      then show ?thesis using Leading_moves by (metis is_leading.elims(2))
    qed (use Waiting_moves [OF inv Waiting] in blast)
  qed (auto intro: Appended_moves Leading_moves)
  then show ?thesis using Synced_moves [OF inv fine _ busy] by blast
qed

section \<open>A thread that is alone\<close>

lemma WriteAll_short:
  assumes "bs \<noteq> []" "length bs \<le> Suc n"
  shows "WriteAll \<lparr>wf_data = d, wf_os = SysShort n # os\<rparr> bs = (Status_Ok, \<lparr>wf_data = d @ bs, wf_os = os\<rparr>)"
  using assms by (simp add: WriteAll_def write_loop.simps sys_write_def min_def)

lemma Append_short:
  assumes "ww_os w = SysShort n # os" "ok (ww_open_status w)" "29 + length (w_key r) + length (w_value r) \<le> Suc n"
  shows "WalWriter_Append w r = (Inr (ww_last_index w + 1),
    w\<lparr>ww_file := ww_file w @ WalBytes (r\<lparr>w_index := ww_last_index w + 1\<rparr>), ww_os := os, ww_last_index := ww_last_index w + 1\<rparr>)"
proof -
  let ?bs = "WalBytes (r\<lparr>w_index := ww_last_index w + 1\<rparr>)"
  have "?bs \<noteq> []" "length ?bs \<le> Suc n" using assms(3) length_WalBytes [of "r\<lparr>w_index := ww_last_index w + 1\<rparr>"] by auto
  then show ?thesis
    using assms(1,2) by (simp add: WalWriter_Append_def WalWriter_write_def Let_def WriteAll_short)
qed

text \<open>One write from start to end, by a thread that is alone, when its \<^verbatim>\<open>write\<close> and \<^verbatim>\<open>fsync\<close> succeed.\<close>

lemma gc_solo_lead:
  assumes run: "gc_run hash s0 es s" and idle: "gc_phase s t = Idle" and r: "write_record wop = Inr r"
    and app: "WalWriter_Append (gc_wal s) r = (Inr i, (gc_wal s)\<lparr>ww_file := f, ww_os := os, ww_last_index := i\<rparr>)"
    and w: "ok (ww_open_status (gc_wal s))" "\<not> ww_flush_in_progress (gc_wal s)"
      "ww_synced_index (gc_wal s) = ww_last_index (gc_wal s)"
    and i: "i = ww_last_index (gc_wal s) + 1" "ww_last_index (gc_wal s) < i"
  shows "gc_run hash s0 (es @ [EvAppend t wop i, EvTau])
     (gc_upd s t (Leading wop i i) ((gc_wal s)\<lparr>ww_file := f, ww_os := os, ww_last_index := i, ww_flush_in_progress := True\<rparr>))"
proof -
  define wal where wal: "wal = (gc_wal s)\<lparr>ww_file := f, ww_os := os, ww_last_index := i\<rparr>"
  have a: "gc_run hash s0 (es @ [EvAppend t wop i]) (gc_upd s t (Appended wop i) wal)"
    using run_step [OF run append_ok [OF idle r app]] by (simp add: wal)
  let ?s1 = "gc_upd s t (Appended wop i) wal"
  have fields: "ok (ww_open_status wal)" "\<not> ww_flush_in_progress wal" "ww_synced_index wal < i" "ww_last_index wal = i"
    using w i(2) by (simp_all add: wal)
  have "gc_phase ?s1 t = Appended wop i" "gc_wal ?s1 = wal" by (simp_all add: gc_upd_def)
  moreover have "Sync_enter wal i = SyncLead" using fields by (simp add: Sync_enter_def)
  ultimately have "gc_step hash ?s1 EvTau (gc_upd ?s1 t (Leading wop i (ww_last_index wal)) (Sync_lead wal))"
    using sync_lead [of ?s1 t wop i hash] by simp
  from run_step [OF a this]
  have "gc_run hash s0 (es @ [EvAppend t wop i, EvTau]) (gc_upd ?s1 t (Leading wop i (ww_last_index wal)) (Sync_lead wal))"
    by simp
  moreover have "gc_upd ?s1 t (Leading wop i (ww_last_index wal)) (Sync_lead wal) = gc_upd s t (Leading wop i i)
      ((gc_wal s)\<lparr>ww_file := f, ww_os := os, ww_last_index := i, ww_flush_in_progress := True\<rparr>)"
    unfolding fields(4) by (simp add: gc_upd_def Sync_lead_def wal)
  ultimately show ?thesis by simp
qed

lemma gc_solo_write:
  assumes run: "gc_run hash s0 es s" and idle: "gc_phase s t = Idle" and r: "write_record wop = Inr r"
    and app: "WalWriter_Append (gc_wal s) r = (Inr i, (gc_wal s)\<lparr>ww_file := f, ww_os := os1, ww_last_index := i\<rparr>)"
    and fs: "sys_call os1 = (None, os)"
    and w: "ok (ww_open_status (gc_wal s))" "\<not> ww_flush_in_progress (gc_wal s)"
      "ww_synced_index (gc_wal s) = ww_last_index (gc_wal s)"
    and i: "i = ww_last_index (gc_wal s) + 1" "ww_last_index (gc_wal s) < i"
    and a: "ds_last_applied_index (gc_store s) = ww_last_index (gc_wal s)"
  obtains st k kv where "gc_run hash s0 (es @ [EvAppend t wop i, EvTau, EvTau, EvAck t wop i st])
     \<lparr>gc_store = (gc_store s)\<lparr>ds_wal := (gc_wal s)\<lparr>ww_file := f, ww_last_index := i, ww_os := os, ww_disk := f,
         ww_fsync_count := k, ww_synced_index := i, ww_flush_in_progress := False\<rparr>, ds_kv := kv, ds_last_applied_index := i\<rparr>, gc_phase = gc_phase s\<rparr>"
proof -
  note b = gc_solo_lead [OF run idle r app w i]
  let ?w2 = "(gc_wal s)\<lparr>ww_file := f, ww_os := os1, ww_last_index := i, ww_flush_in_progress := True\<rparr>"
  let ?s2 = "gc_upd s t (Leading wop i i) ?w2"
  let ?w3 = "?w2\<lparr>ww_os := os, ww_disk := f, ww_fsync_count := ww_fsync_count (gc_wal s) + 1, ww_synced_index := i,
    ww_flush_in_progress := False\<rparr>"
  have "Sync_flush ?w2 i = (Status_Ok, ?w3)"
    by (simp add: Sync_flush_def WalWriter_FsyncNow_def fs)
  then have "gc_step hash ?s2 EvTau (gc_upd ?s2 t (Synced wop i) ?w3)"
    by (intro flush_ok [where st = Status_Ok and observed = i]) (simp_all add: gc_upd_def)
  from run_step [OF b this]
  have c: "gc_run hash s0 (es @ [EvAppend t wop i, EvTau, EvTau]) (gc_upd ?s2 t (Synced wop i) ?w3)" by simp
  let ?s3 = "gc_upd ?s2 t (Synced wop i) ?w3"
  obtain st kv where kv: "write_apply hash (ds_kv (gc_store s)) wop = (st, kv)" by fastforce
  have "gc_step hash ?s3 (EvAck t wop i st)
      \<lparr>gc_store = (gc_store ?s3)\<lparr>ds_kv := kv, ds_last_applied_index := i\<rparr>, gc_phase = (gc_phase ?s3)(t := Idle)\<rparr>"
    by (rule apply_write) (use kv a i(1) in \<open>simp_all add: gc_upd_def apply_ready_def\<close>)
  from run_step [OF c this] have "gc_run hash s0 (es @ [EvAppend t wop i, EvTau, EvTau, EvAck t wop i st])
      \<lparr>gc_store = (gc_store ?s3)\<lparr>ds_kv := kv, ds_last_applied_index := i\<rparr>, gc_phase = (gc_phase ?s3)(t := Idle)\<rparr>"
    by simp
  moreover have "(gc_phase ?s3)(t := Idle) = gc_phase s" using idle by (auto simp: gc_upd_def fun_eq_iff)
  ultimately show thesis using that by (simp add: gc_upd_def)
qed

section \<open>Properties\<close>

lemma gc_recovers:
  assumes rs: "\<forall>r \<in> set rs. WalRecordValid r" and inv: "gc_inv hash s0 es s"
    and file0: "ww_file (gc_wal s0) = WalLog rs" and valid: "\<forall>r \<in> set (gc_log es). WalRecordValid r"
    and crash: "crash_file (gc_wal s) f" and os: "calm os"
  obtains st m where "DurableStorage_Open hash data_dir f os = Inr st"
    "ShardedKV_abs hash (ds_kv st) = fold wal_effect (rs @ take m (gc_log es)) Map.empty"
    "gc_synced s \<le> gc_base s0 + m"
proof -
  let ?L = "gc_log es" and ?d = "gc_synced s - gc_base s0"
  have disk: "ww_disk (gc_wal s) = WalLog (rs @ take ?d ?L)"
    using gc_invD(2) [OF inv] file0 by (simp add: inv_disk_def)
  have cache: "ww_file (gc_wal s) = WalLog (rs @ take ?d ?L) @ WalLog (drop ?d ?L)"
    using gc_invD(1) [OF inv] file0 WalLog_split [of ?L ?d] by (simp add: inv_log_def)
  obtain g where g: "f = WalLog (rs @ take ?d ?L) @ g" "prefix g (WalLog (drop ?d ?L))"
    using crash unfolding crash_file_def disk cache by (auto simp: prefix_def)
  obtain m tail where m: "m \<le> length (drop ?d ?L)" "g = WalLog (take m (drop ?d ?L)) @ tail" "WalTorn tail"
    using prefix_WalLog [OF g(2)] valid by (auto dest: in_set_dropD)
  have take_: "take ?d ?L @ take m (drop ?d ?L) = take (?d + m) ?L" by (simp add: take_add)
  have f: "f = WalLog (rs @ take (?d + m) ?L) @ tail"
    using g(1) m(2) unfolding take_ [symmetric] by simp
  have v: "\<forall>r \<in> set (rs @ take (?d + m) ?L). WalRecordValid r" using rs valid by (auto dest: in_set_takeD)
  obtain st where "DurableStorage_Open hash data_dir f os = Inr st"
      "ShardedKV_abs hash (ds_kv st) = fold wal_effect (rs @ take (?d + m) ?L) Map.empty"
    by (rule DurableStorage_Open_log [OF v m(3) f os, of hash data_dir])
  then show thesis using that [of st "?d + m"] by simp
qed

text \<open>The same store with other outcomes of the system calls to come.\<close>

definition with_os :: "sys list \<Rightarrow> DurableStorage \<Rightarrow> DurableStorage" where
  "with_os os st = st\<lparr>ds_wal := (ds_wal st)\<lparr>ww_os := os\<rparr>\<rparr>"

lemma with_os_start [simp]:
  "gc_fresh hash (gc_start (with_os os st)) = gc_fresh hash (gc_start st)" "gc_base (gc_start (with_os os st)) = gc_base (gc_start st)"
  "ww_file (gc_wal (gc_start (with_os os st))) = ww_file (gc_wal (gc_start st))" "with_os (ww_os (ds_wal st)) st = st"
  by (simp_all add: with_os_def gc_fresh_def gc_start_def gc_base_def)

text \<open>
  C7. Acknowledged writes survive a crash. Open a store on a log of valid records without a torn tail, let any number of threads
  run any number of Set and Delete calls on it with group commit, in any interleaving and with any outcomes of the writes and syncs, and crash at any moment: the
  log file then holds all that was synced and an arbitrary part of what was written after. Reopening succeeds,
  and the recovered contents are the effect of the old log followed by a prefix of the records appended during the
  run. The record of every call that was acknowledged is in that prefix. Opening and reopening are on calls that do not fail, and no append fails after it has
  written part of its record: the known limitation of the log, that it is not repaired behind a torn record, is excluded.
\<close>

theorem acked_writes_survive_crash:
  assumes "\<forall>r \<in> set rs. WalRecordValid r" and "calm os" and "DurableStorage_Open hash data_dir (WalLog rs) os = Inr st0"
    and "gc_run hash (gc_start (with_os os1 st0)) es s" and "list_all ev_clean es"
    and "\<forall>t wop i. EvAppend t wop i \<in> set es \<longrightarrow> write_fits wop"
    and "unat (last_wal_index 0 rs) + length es < 2 ^ 64"
    and "crash_file (gc_wal s) f" and "calm os'"
  shows "\<exists>st m. DurableStorage_Open hash data_dir f os' = Inr st
     \<and> ShardedKV_abs hash (ds_kv st) = fold wal_effect (rs @ take m (gc_log es)) Map.empty
     \<and> (\<forall>t wop i ret. EvAck t wop i ret \<in> set es \<longrightarrow> log_record wop i \<in> set (take m (gc_log es)))"
proof -
  let ?s0 = "gc_start (with_os os1 st0)"
  note st0 = gc_start_fresh [OF assms(1,3,2)]
  have inv: "gc_inv hash ?s0 es s"
    using gc_inv_run [OF assms(4) _ assms(5)] assms(7) st0(1,2) by simp
  have f0: "ww_file (gc_wal ?s0) = WalLog rs" using st0(3) by simp
  obtain st m where r: "DurableStorage_Open hash data_dir f os' = Inr st"
      "ShardedKV_abs hash (ds_kv st) = fold wal_effect (rs @ take m (gc_log es)) Map.empty"
      "gc_synced s \<le> gc_base ?s0 + m"
    using gc_recovers [OF assms(1) inv f0 gc_log_valid [OF assms(4,6)] assms(8,9)] .
  have "log_record wop i \<in> set (take m (gc_log es))" if "EvAck t wop i ret \<in> set es" for t wop i ret
    using gc_invD(9) [OF inv that] gc_invD(3) [OF inv] r(3) in_log_take [of ?s0 es wop i m]
    by (simp add: inv_applied_def)
  with r show ?thesis by blast
qed

abbreviation gc_demo_op :: WriteOp where
  "gc_demo_op \<equiv> WriteSet [107] [118]"

lemma gc_demo_run:
  obtains st0 ret s where "DurableStorage_Open (\<lambda>_. 0) ''d'' (WalLog []) [] = Inr st0"
    "gc_run (\<lambda>_. 0) (gc_start st0) [EvAppend 0 gc_demo_op 1, EvTau, EvTau, EvAck 0 gc_demo_op 1 ret] s"
proof -
  obtain st0 where o: "DurableStorage_Open (\<lambda>_. 0) ''d'' (WalLog []) [] = Inr st0" and
    st: "ds_last_applied_index st0 = 0" "ww_last_index (ds_wal st0) = 0" "ww_synced_index (ds_wal st0) = 0"
      "ok (ww_open_status (ds_wal st0))" "\<not> ww_flush_in_progress (ds_wal st0)" "calm (ww_os (ds_wal st0))"
    by (rule DurableStorage_Open_log [of "[]" "[]" "WalLog []" "[]" "\<lambda>_. 0" "''d''"])
      (simp_all add: last_wal_index_def)
  have r: "write_record gc_demo_op = Inr \<lparr>w_term = 0, w_index = 0, w_op = WalOp_kSet, w_key = [107], w_value = [118]\<rparr>"
    by simp
  obtain f os1 where a: "WalWriter_Append (ds_wal st0) \<lparr>w_term = 0, w_index = 0, w_op = WalOp_kSet, w_key = [107], w_value = [118]\<rparr>
      = (Inr (ww_last_index (ds_wal st0) + 1),
         (ds_wal st0)\<lparr>ww_file := f, ww_os := os1, ww_last_index := ww_last_index (ds_wal st0) + 1\<rparr>)" "calm os1"
    using Append_calm [OF st(6,4)] by blast
  have fs: "sys_call os1 = (None, snd (sys_call os1))" using sys_call_calm [OF a(2)] by (simp add: prod_eq_iff)
  let ?s = "gc_start st0"
  have idle: "gc_phase ?s 0 = Idle" and wal: "gc_wal ?s = ds_wal st0" and store: "gc_store ?s = st0"
    by (simp_all add: gc_start_def)
  have a': "WalWriter_Append (gc_wal ?s) \<lparr>w_term = 0, w_index = 0, w_op = WalOp_kSet, w_key = [107], w_value = [118]\<rparr>
      = (Inr 1, (gc_wal ?s)\<lparr>ww_file := f, ww_os := os1, ww_last_index := 1\<rparr>)"
    using a(1) unfolding wal st(2) by simp
  have i: "(1 :: u64) = ww_last_index (gc_wal ?s) + 1" "ww_last_index (gc_wal ?s) < 1"
    unfolding wal st(2) by simp_all
  have w: "ok (ww_open_status (gc_wal ?s))" "\<not> ww_flush_in_progress (gc_wal ?s)"
      "ww_synced_index (gc_wal ?s) = ww_last_index (gc_wal ?s)" "ds_last_applied_index (gc_store ?s) = ww_last_index (gc_wal ?s)"
    unfolding wal store st(1-3) using st(4,5) by simp_all
  obtain ret s where "gc_run (\<lambda>_. 0) ?s ([] @ [EvAppend 0 gc_demo_op 1, EvTau, EvTau, EvAck 0 gc_demo_op 1 ret]) s"
    by (rule gc_solo_write [OF run_start idle r a' fs w(1-3) i w(4)])
  with o that show thesis by simp
qed

theorem acked_writes_survive_crash_witness:
  "\<exists>st0 es s ret st m. DurableStorage_Open (\<lambda>_. 0) ''d'' (WalLog []) [] = Inr st0
     \<and> gc_run (\<lambda>_. 0) (gc_start st0) es s \<and> EvAck 0 gc_demo_op 1 ret \<in> set es
     \<and> DurableStorage_Open (\<lambda>_. 0) ''d'' (ww_disk (gc_wal s)) [] = Inr st
     \<and> log_record gc_demo_op 1 \<in> set (take m (gc_log es))
     \<and> ShardedKV_abs (\<lambda>_. 0) (ds_kv st) = fold wal_effect (take m (gc_log es)) Map.empty"
proof -
  obtain st0 ret s where o: "DurableStorage_Open (\<lambda>_. 0) ''d'' (WalLog []) [] = Inr st0"
    and run: "gc_run (\<lambda>_. 0) (gc_start st0) [EvAppend 0 gc_demo_op 1, EvTau, EvTau, EvAck 0 gc_demo_op 1 ret] s"
    by (rule gc_demo_run)
  let ?es = "[EvAppend 0 gc_demo_op 1, EvTau, EvTau, EvAck 0 gc_demo_op 1 ret]"
  have clean: "list_all ev_clean ?es" by (simp add: ev_clean_def)
  have fits: "\<forall>t wop i. EvAppend t wop i \<in> set ?es \<longrightarrow> write_fits wop" by (simp add: kMaxFieldSize_def)
  have bound: "unat (last_wal_index 0 []) + length ?es < 2 ^ 64" by (simp add: last_wal_index_def)
  have inv: "gc_inv (\<lambda>_. 0) (gc_start st0) ?es s"
    by (rule gc_inv_run [OF run _ clean]) (use gc_start_fresh [OF _ o] bound in simp_all)
  note crash = gc_disk_crash [OF inv]
  have "\<exists>st m. DurableStorage_Open (\<lambda>_. 0) ''d'' (ww_disk (gc_wal s)) [] = Inr st
     \<and> ShardedKV_abs (\<lambda>_. 0) (ds_kv st) = fold wal_effect ([] @ take m (gc_log ?es)) Map.empty
     \<and> (\<forall>t wop i ret'. EvAck t wop i ret' \<in> set ?es \<longrightarrow> log_record wop i \<in> set (take m (gc_log ?es)))"
    by (rule acked_writes_survive_crash [where ?os1.0 = "ww_os (ds_wal st0)", OF _ _ o _ clean fits bound crash]) (simp_all add: run)
  then obtain st m where r: "DurableStorage_Open (\<lambda>_. 0) ''d'' (ww_disk (gc_wal s)) [] = Inr st"
     "ShardedKV_abs (\<lambda>_. 0) (ds_kv st) = fold wal_effect ([] @ take m (gc_log ?es)) Map.empty"
     "\<forall>t wop i ret'. EvAck t wop i ret' \<in> set ?es \<longrightarrow> log_record wop i \<in> set (take m (gc_log ?es))"
    by blast
  have ack: "EvAck 0 gc_demo_op 1 ret \<in> set ?es" by simp
  show ?thesis
    by (rule exI [of _ st0], rule exI [of _ ?es], rule exI [of _ s], rule exI [of _ ret], rule exI [of _ st], rule exI [of _ m])
      (intro conjI o run ack r(1) r(3) [rule_format, OF ack] r(2) [unfolded append_Nil])
qed

text \<open>A fresh store on an empty directory, and a run on it in which the second write's \<^verbatim>\<open>fsync\<close> fails.\<close>

definition gc_demo :: "sys list \<Rightarrow> GC" where
  "gc_demo os = gc_start \<lparr>ds_data_dir = ''d'', ds_kv = ShardedKV_init, ds_wal = WalWriter_fresh [] os,
     ds_last_applied_index = 0, ds_recovery_status = Status_Ok\<rparr>"

lemma gc_demo_fresh: "gc_fresh hash (gc_demo os)" "gc_base (gc_demo os) = 0"
  by (simp_all add: gc_fresh_def gc_demo_def gc_start_def gc_base_def WalWriter_fresh_def)

abbreviation gc_demo_os :: "sys list" where
  "gc_demo_os \<equiv> [SysShort 99, SysShort 0, SysShort 99, SysFail ''EIO'']"

abbreviation gc_demo_events :: "Status \<Rightarrow> Status \<Rightarrow> GcEvent list" where
  "gc_demo_events ret st \<equiv> [EvAppend 0 gc_demo_op 1, EvTau, EvTau, EvAck 0 gc_demo_op 1 ret,
     EvAppend 1 gc_demo_op 2, EvTau, EvSyncFailed 1 gc_demo_op 2 st]"

lemma gc_demo_fail_run:
  obtains ret st s where "gc_run hash (gc_demo gc_demo_os) (gc_demo_events ret st) s"
proof -
  let ?r = "\<lparr>w_term = 0, w_index = 0, w_op = WalOp_kSet, w_key = [107], w_value = [118]\<rparr>" and ?s = "gc_demo gc_demo_os"
  have r: "write_record gc_demo_op = Inr ?r" by simp
  have os: "ww_os (gc_wal ?s) = SysShort 99 # tl gc_demo_os" and li: "ww_last_index (gc_wal ?s) = 0"
    and open1: "ok (ww_open_status (gc_wal ?s))"
    by (simp_all add: gc_demo_def gc_start_def WalWriter_fresh_def)
  have len: "29 + length (w_key ?r) + length (w_value ?r) \<le> Suc 99" by simp
  note a = Append_short [OF os open1 len, unfolded li]
  obtain ret k kv where run1: "gc_run hash ?s ([] @ [EvAppend 0 gc_demo_op 1, EvTau, EvTau, EvAck 0 gc_demo_op 1 ret])
     \<lparr>gc_store = (gc_store ?s)\<lparr>ds_wal := (gc_wal ?s)\<lparr>ww_file := ww_file (gc_wal ?s) @ WalBytes (?r\<lparr>w_index := 1\<rparr>),
         ww_last_index := 1, ww_os := tl (tl gc_demo_os), ww_disk := ww_file (gc_wal ?s) @ WalBytes (?r\<lparr>w_index := 1\<rparr>),
         ww_fsync_count := k, ww_synced_index := 1, ww_flush_in_progress := False\<rparr>, ds_kv := kv, ds_last_applied_index := 1\<rparr>,
       gc_phase = gc_phase ?s\<rparr>"
    by (rule gc_solo_write [OF run_start _ r, where s = ?s and t = 0 and i = 1 and ?os1.0 = "tl gc_demo_os"
          and os = "tl (tl gc_demo_os)" and hash = hash and f = "ww_file (gc_wal ?s) @ WalBytes (?r\<lparr>w_index := 1\<rparr>)"])
      (use a in \<open>simp_all add: gc_demo_def gc_start_def WalWriter_fresh_def sys_call_def\<close>)
  define s1 where "s1 = \<lparr>gc_store = (gc_store ?s)\<lparr>ds_wal := (gc_wal ?s)\<lparr>ww_file := ww_file (gc_wal ?s) @ WalBytes (?r\<lparr>w_index := 1\<rparr>),
         ww_last_index := 1, ww_os := tl (tl gc_demo_os), ww_disk := ww_file (gc_wal ?s) @ WalBytes (?r\<lparr>w_index := 1\<rparr>),
         ww_fsync_count := k, ww_synced_index := 1, ww_flush_in_progress := False\<rparr>, ds_kv := kv, ds_last_applied_index := 1\<rparr>,
       gc_phase = gc_phase ?s\<rparr>"
  have s1: "ww_os (gc_wal s1) = SysShort 99 # [SysFail ''EIO'']" "ww_last_index (gc_wal s1) = 1" "ok (ww_open_status (gc_wal s1))"
      "\<not> ww_flush_in_progress (gc_wal s1)" "ww_synced_index (gc_wal s1) = 1" "gc_phase s1 1 = Idle"
    by (simp_all add: s1_def gc_demo_def gc_start_def WalWriter_fresh_def)
  note a2 = Append_short [OF s1(1,3) len, unfolded s1(2)]
  have "gc_run hash ?s (([] @ [EvAppend 0 gc_demo_op 1, EvTau, EvTau, EvAck 0 gc_demo_op 1 ret]) @ [EvAppend 1 gc_demo_op 2, EvTau])
     (gc_upd s1 1 (Leading gc_demo_op 2 2) ((gc_wal s1)\<lparr>ww_file := ww_file (gc_wal s1) @ WalBytes (?r\<lparr>w_index := 2\<rparr>),
        ww_os := [SysFail ''EIO''], ww_last_index := 2, ww_flush_in_progress := True\<rparr>))"
    by (rule gc_solo_lead [OF run1 [folded s1_def] s1(6) r]) (use a2 s1 in simp_all)
  moreover let ?w2 = "(gc_wal s1)\<lparr>ww_file := ww_file (gc_wal s1) @ WalBytes (?r\<lparr>w_index := 2\<rparr>),
        ww_os := [SysFail ''EIO''], ww_last_index := 2, ww_flush_in_progress := True\<rparr>"
  obtain st w3 where f: "Sync_flush ?w2 2 = (st, w3)" "\<not> ok st"
    by (simp add: Sync_flush_def WalWriter_FsyncNow_def sys_call_def)
  have "gc_step hash (gc_upd s1 1 (Leading gc_demo_op 2 2) ?w2) (EvSyncFailed 1 gc_demo_op 2 st)
      (gc_upd (gc_upd s1 1 (Leading gc_demo_op 2 2) ?w2) 1 Idle w3)"
    by (rule flush_failed [of _ _ _ _ 2]) (use f in \<open>simp_all add: gc_upd_def\<close>)
  ultimately show thesis using run_step that by fastforce
qed

text \<open>
  C8. What readers see is durable and in log order. At every moment of every run, the in-memory
  contents are the starting contents with the effects of the first \<open>a\<close> appended records, in the order of their
  indices; these records are already synced to disk; and the record of every acknowledged call is among them. So
  threads whose syncs finish out of order still apply in log order.
\<close>

theorem applied_in_log_order:
  assumes "gc_fresh hash s0" and "ShardedKV_inv hash (ds_kv (gc_store s0))" and "gc_run hash s0 es s"
    and "list_all ev_clean es" and "gc_base s0 + length es < 2 ^ 64"
  shows "\<exists>a d. a \<le> d \<and> d \<le> length (gc_log es)
     \<and> ShardedKV_abs hash (ds_kv (gc_store s)) = fold wal_effect (take a (gc_log es)) (ShardedKV_abs hash (ds_kv (gc_store s0)))
     \<and> ww_disk (gc_wal s) = ww_file (gc_wal s0) @ WalLog (take d (gc_log es))
     \<and> (\<forall>t wop i ret. EvAck t wop i ret \<in> set es \<longrightarrow> log_record wop i \<in> set (take a (gc_log es)))"
proof -
  have inv: "gc_inv hash s0 es s" using gc_inv_run [OF assms(3,1,4,5)] .
  let ?a = "gc_applied s - gc_base s0" and ?d = "gc_synced s - gc_base s0"
  have "?a \<le> ?d \<and> ?d \<le> length (gc_log es)"
    using gc_invD(2,3) [OF inv] by (auto simp: inv_disk_def inv_applied_def)
  moreover have "ShardedKV_abs hash (ds_kv (gc_store s)) =
      fold wal_effect (take ?a (gc_log es)) (ShardedKV_abs hash (ds_kv (gc_store s0)))"
    using gc_invD(3) [OF inv] sharded.replay_refines [OF assms(2)] by (simp add: inv_applied_def)
  moreover have "ww_disk (gc_wal s) = ww_file (gc_wal s0) @ WalLog (take ?d (gc_log es))"
    using gc_invD(2) [OF inv] by (simp add: inv_disk_def)
  moreover have "log_record wop i \<in> set (take ?a (gc_log es))" if "EvAck t wop i ret \<in> set es" for t wop i ret
    using gc_invD(9) [OF inv that] gc_invD(3) [OF inv] in_log_take [of s0 es wop i ?a] by (simp add: inv_applied_def)
  ultimately show ?thesis by blast
qed

theorem applied_in_log_order_witness:
  "\<exists>ret st s a d. gc_run (\<lambda>_. 0) (gc_demo gc_demo_os) (gc_demo_events ret st) s \<and> a \<le> d
     \<and> ShardedKV_abs (\<lambda>_. 0) (ds_kv (gc_store s)) = fold wal_effect (take a (gc_log (gc_demo_events ret st))) Map.empty
     \<and> ww_disk (gc_wal s) = WalLog (take d (gc_log (gc_demo_events ret st)))"
proof -
  obtain ret st s where run: "gc_run (\<lambda>_. 0) (gc_demo gc_demo_os) (gc_demo_events ret st) s" by (rule gc_demo_fail_run)
  have kv: "ds_kv (gc_store (gc_demo os)) = ShardedKV_init" "ww_file (gc_wal (gc_demo os)) = []" for os
    by (simp_all add: gc_demo_def gc_start_def WalWriter_fresh_def)
  have "list_all ev_clean (gc_demo_events ret st)" by (simp add: ev_clean_def)
  moreover have "gc_base (gc_demo gc_demo_os) + length (gc_demo_events ret st) < 2 ^ 64" by (simp add: gc_demo_fresh)
  ultimately show ?thesis
    using applied_in_log_order [OF gc_demo_fresh(1) _ run] sharded.init_inv [of "\<lambda>_. 0"] run
    unfolding kv sharded.init_abs append_Nil by blast
qed

text \<open>
  C23. No deadlock. As long as no \<^verbatim>\<open>Append\<close> and no \<^verbatim>\<open>Sync\<close> has failed, whenever some thread is inside a call there is a
  thread inside a call that can take a step and moves on: no reachable state has every caller waiting, neither
  in the group-commit wait nor at the apply barrier.
\<close>

theorem group_commit_no_deadlock:
  assumes "gc_fresh hash s0" and "gc_run hash s0 es s" and "list_all ev_clean es"
    and "gc_base s0 + length es < 2 ^ 64" and "\<forall>t wop i st. EvSyncFailed t wop i st \<notin> set es"
    and "gc_phase s t0 \<noteq> Idle"
  shows "\<exists>t e s'. gc_phase s t \<noteq> Idle \<and> gc_step hash s e s' \<and> gc_phase s' t \<noteq> gc_phase s t"
  using gc_progress [OF gc_inv_run [OF assms(2,1,3,4)] assms(5,6)] by (simp add: gc_can_move_def)

theorem group_commit_no_deadlock_witness:
  "\<exists>s. gc_run (\<lambda>_. 0) (gc_demo []) [EvAppend 0 gc_demo_op 1] s \<and> gc_phase s 0 \<noteq> Idle
     \<and> (\<exists>t e s'. gc_phase s t \<noteq> Idle \<and> gc_step (\<lambda>_. 0) s e s' \<and> gc_phase s' t \<noteq> gc_phase s t)"
proof -
  let ?r = "\<lparr>w_term = 0, w_index = 0, w_op = WalOp_kSet, w_key = [107], w_value = [118]\<rparr>" and ?s = "gc_demo []"
  have li: "ww_last_index (gc_wal ?s) = 0" "calm (ww_os (gc_wal ?s))" "ok (ww_open_status (gc_wal ?s))"
      "gc_phase ?s 0 = Idle"
    by (simp_all add: gc_demo_def gc_start_def WalWriter_fresh_def)
  obtain wal where a: "WalWriter_Append (gc_wal ?s) ?r = (Inr 1, wal)"
    using Append_calm [OF li(2,3), of ?r] unfolding li(1) by auto
  have "gc_step (\<lambda>_. 0) ?s (EvAppend 0 gc_demo_op 1) (gc_upd ?s 0 (Appended gc_demo_op 1) wal)"
    by (rule append_ok [OF li(4) _ a]) simp
  from run_step [OF run_start this] have run: "gc_run (\<lambda>_. 0) ?s [EvAppend 0 gc_demo_op 1] (gc_upd ?s 0 (Appended gc_demo_op 1) wal)"
    by simp
  have busy: "gc_phase (gc_upd ?s 0 (Appended gc_demo_op 1) wal) 0 \<noteq> Idle" by (simp add: gc_upd_def)
  show ?thesis
    using group_commit_no_deadlock [OF gc_demo_fresh(1) run _ _ _ busy] run busy
    by (intro exI [of _ "gc_upd ?s 0 (Appended gc_demo_op 1) wal"]) (simp add: ev_clean_def gc_demo_fresh)
qed

text \<open>
  One flush at a time. In every reachable state at most one thread is the batch leader, and the flag
  \<^verbatim>\<open>flush_in_progress_\<close> is set exactly when there is one.
\<close>

lemma one_batch_leader:
  assumes "gc_fresh hash s0" and "gc_run hash s0 es s" and "list_all ev_clean es" and "gc_base s0 + length es < 2 ^ 64"
  shows "(ww_flush_in_progress (gc_wal s) \<longleftrightarrow> (\<exists>t wop i ob. gc_phase s t = Leading wop i ob))
     \<and> (\<forall>t t' wop wop' i i' ob ob'. gc_phase s t = Leading wop i ob \<and> gc_phase s t' = Leading wop' i' ob' \<longrightarrow> t = t')"
proof -
  have lead: "is_leading p \<longleftrightarrow> (\<exists>wop i ob. p = Leading wop i ob)" for p by (cases p) auto
  show ?thesis
    using gc_invD(4) [OF gc_inv_run [OF assms(2,1,3,4)]] unfolding inv_leader_def lead by metis
qed

lemma one_batch_leader_example:
  "\<not> ww_flush_in_progress (gc_wal (gc_demo [])) \<longleftrightarrow> (\<forall>t wop i ob. gc_phase (gc_demo []) t \<noteq> Leading wop i ob)"
  using one_batch_leader [OF gc_demo_fresh(1) run_start, of "[]"] by (simp add: gc_demo_fresh)

text \<open>
  C33. After a failed sync nothing later is ever acknowledged. If \<^verbatim>\<open>Sync\<close> failed for the write at index \<open>i\<close>, then every
  call that was or ever will be acknowledged has a smaller index: the caller of the failed write has
  returned, so the apply barrier \<^verbatim>\<open>last_applied_index_ == index - 1\<close> is never passed by a later write, and those calls wait
  for ever.
\<close>

theorem failed_sync_blocks_later_writes:
  assumes "gc_fresh hash s0" and "gc_run hash s0 es s" and "list_all ev_clean es" and "gc_base s0 + length es < 2 ^ 64"
    and "EvSyncFailed t wop i st \<in> set es" and "EvAck t' wop' j ret \<in> set es"
  shows "j < i"
  using gc_invD(9) [OF gc_inv_run [OF assms(2,1,3,4)] assms(6)] gc_invD(10) [OF gc_inv_run [OF assms(2,1,3,4)] assms(5)]
  by (simp add: word_less_nat_alt)

theorem failed_sync_blocks_later_writes_witness:
  "\<exists>ret st s. gc_run (\<lambda>_. 0) (gc_demo gc_demo_os) (gc_demo_events ret st) s \<and> (1 :: u64) < 2"
proof -
  obtain ret st s where run: "gc_run (\<lambda>_. 0) (gc_demo gc_demo_os) (gc_demo_events ret st) s" by (rule gc_demo_fail_run)
  have "(1 :: u64) < 2"
    by (rule failed_sync_blocks_later_writes [OF gc_demo_fresh(1) run, of 1 gc_demo_op 2 st 0 gc_demo_op 1 ret])
      (simp_all add: ev_clean_def gc_demo_fresh)
  with run show ?thesis by blast
qed

end
