(* ===== verification/Socket_Utils.thy ===== *)
theory Socket_Utils
  imports Posix_IO Big_Endian
begin

text \<open>
  \<^verbatim>\<open>net/socket_utils.{h,cpp}\<close> (its read and write loops are in \<open>Posix_IO\<close>): the owner of a descriptor, and how sockets are opened.

  The process's view of the kernel is a record: the descriptors it has open, how many results of \<^verbatim>\<open>getaddrinfo\<close> it has not freed,
  how many times it closed a descriptor that was not open, and the outcomes of the system calls to come. A successful call
  returns the lowest free descriptor, as POSIX demands. The name resolution is an argument. Destructors are written out where C++ runs them.
\<close>

section \<open>The kernel\<close>

record Kernel =
  k_open :: "int list"
  k_addrs :: nat
  k_stray :: nat
  k_flags :: "int \<Rightarrow> u32"
  k_os :: "sys list"

fun free_from :: "nat \<Rightarrow> int \<Rightarrow> int list \<Rightarrow> int" where
  "free_from 0 fd used = fd"
| "free_from (Suc n) fd used = (if fd \<in> set used then free_from n (fd + 1) used else fd)"

definition lowest_free :: "int list \<Rightarrow> int" where
  "lowest_free used = free_from (length used) 0 used"

text \<open>A system call that opens no descriptor, and one that opens a descriptor; the errno is the text of \<^verbatim>\<open>strerror\<close>.\<close>

definition k_call :: "Kernel \<Rightarrow> string option \<times> Kernel" where
  "k_call k = (case sys_call (k_os k) of (e, os) \<Rightarrow> (e, k\<lparr>k_os := os\<rparr>))"

definition sys_socket :: "Kernel \<Rightarrow> string option \<times> int \<times> Kernel" where
  "sys_socket k =
     (case k_call k of
        (Some e, k) \<Rightarrow> (Some e, -1, k)
      | (None, k) \<Rightarrow> let fd = lowest_free (k_open k) in (None, fd, k\<lparr>k_open := fd # k_open k\<rparr>))"

definition sys_close :: "int \<Rightarrow> Kernel \<Rightarrow> Kernel" where
  "sys_close fd k =
     (if fd \<in> set (k_open k) then k\<lparr>k_open := remove1 fd (k_open k)\<rparr> else k\<lparr>k_stray := Suc (k_stray k)\<rparr>)"

definition freeaddrinfo :: "Kernel \<Rightarrow> Kernel" where
  "freeaddrinfo k = k\<lparr>k_addrs := k_addrs k - 1\<rparr>"

section \<open>Descriptors and their owner\<close>

record Fd =
  own_fd :: int

definition CloseQuietly :: "int \<Rightarrow> Kernel \<Rightarrow> Kernel" where
  "CloseQuietly fd k = (if fd \<ge> 0 then sys_close fd k else k)"

definition Fd_default :: Fd where "Fd_default = \<lparr>own_fd = -1\<rparr>"

definition Fd_new :: "int \<Rightarrow> Fd" where "Fd_new fd = \<lparr>own_fd = fd\<rparr>"

definition Fd_destroy :: "Fd \<Rightarrow> Kernel \<Rightarrow> Kernel" where "Fd_destroy f k = CloseQuietly (own_fd f) k"

definition Fd_get :: "Fd \<Rightarrow> int" where "Fd_get f = own_fd f"

definition Fd_valid :: "Fd \<Rightarrow> bool" where "Fd_valid f \<longleftrightarrow> own_fd f \<ge> 0"

text \<open>The move constructor and assignment answer the new owner first, then what is left of the old one.\<close>

definition Fd_move :: "Fd \<Rightarrow> Fd \<times> Fd" where
  "Fd_move other = (\<lparr>own_fd = own_fd other\<rparr>, other\<lparr>own_fd := -1\<rparr>)"

definition Fd_assign :: "Fd \<Rightarrow> Fd \<Rightarrow> Kernel \<Rightarrow> Fd \<times> Fd \<times> Kernel" where
  "Fd_assign this other k = (let k = CloseQuietly (own_fd this) k in (this\<lparr>own_fd := own_fd other\<rparr>, other\<lparr>own_fd := -1\<rparr>, k))"

definition Fd_release :: "Fd \<Rightarrow> int \<times> Fd" where
  "Fd_release f = (own_fd f, f\<lparr>own_fd := -1\<rparr>)"

definition Fd_reset :: "Fd \<Rightarrow> Kernel \<Rightarrow> Fd \<times> Kernel" where
  "Fd_reset f k = (let k = CloseQuietly (own_fd f) k in (f\<lparr>own_fd := -1\<rparr>, k))"

definition O_NONBLOCK :: u32 where "O_NONBLOCK = 0x800"

definition SetNonBlocking :: "int \<Rightarrow> bool \<Rightarrow> Kernel \<Rightarrow> Status \<times> Kernel" where
  "SetNonBlocking fd non_blocking k =
     (case k_call k of
        (Some e, k) \<Rightarrow> (Status_Error ErrorCode_kIOError (''fcntl F_GETFL: '' @ e), k)
      | (None, k) \<Rightarrow>
          let flags = k_flags k fd;
              new_flags = (if non_blocking then flags OR O_NONBLOCK else flags AND NOT O_NONBLOCK) in
          (case k_call k of
             (Some e, k) \<Rightarrow> (Status_Error ErrorCode_kIOError (''fcntl F_SETFL: '' @ e), k)
           | (None, k) \<Rightarrow> (Status_Ok, k\<lparr>k_flags := (k_flags k)(fd := new_flags)\<rparr>)))"

section \<open>Listening and connecting\<close>

text \<open>
  The resolver gets the node (none for every interface), the service and whether the address is for listening, and answers an error
  text or a list of addresses of any type: what the calls on an address do is decided by the outcomes of the kernel.
\<close>

type_synonym 'a resolver = "string option \<Rightarrow> string \<Rightarrow> bool \<Rightarrow> string + 'a list"

fun TcpListen_loop :: "'a list \<Rightarrow> Fd \<Rightarrow> string \<Rightarrow> Kernel \<Rightarrow> Fd \<times> string \<times> Kernel" where
  "TcpListen_loop [] listen_fd last_errno k = (listen_fd, last_errno, k)"
| "TcpListen_loop (p # ps) listen_fd last_errno k =
     (case sys_socket k of
        (errno, fd, k) \<Rightarrow>
          let candidate = Fd_new fd in
          if \<not> Fd_valid candidate then TcpListen_loop ps listen_fd (the errno) (Fd_destroy candidate k)
          else
            (case k_call (snd (k_call k)) of
               (Some e, k) \<Rightarrow> TcpListen_loop ps listen_fd e (Fd_destroy candidate k)
             | (None, k) \<Rightarrow>
                 (case Fd_assign listen_fd candidate k of
                    (listen_fd, candidate, k) \<Rightarrow> (listen_fd, last_errno, Fd_destroy candidate k))))"

definition errno_0 :: string where "errno_0 = ''Success''"

definition TcpListen :: "'a resolver \<Rightarrow> string \<Rightarrow> u16 \<Rightarrow> Kernel \<Rightarrow> int Result \<times> Kernel" where
  "TcpListen getaddrinfo host port k =
     (case getaddrinfo (if host = '''' then None else Some host) (to_string (unat port)) True of
        Inl e \<Rightarrow> (Inl (Status_Error ErrorCode_kIOError (''getaddrinfo: '' @ e)), k)
      | Inr results \<Rightarrow>
          let k = k\<lparr>k_addrs := Suc (k_addrs k)\<rparr> in
          (case TcpListen_loop results Fd_default errno_0 k of
             (listen_fd, last_errno, k) \<Rightarrow>
               let k = freeaddrinfo k in
               if \<not> Fd_valid listen_fd then
                 (Inl (Status_Error ErrorCode_kIOError (''bind: '' @ last_errno)), Fd_destroy listen_fd k)
               else
                 (case k_call k of
                    (Some e, k) \<Rightarrow> (Inl (Status_Error ErrorCode_kIOError (''listen: '' @ e)), Fd_destroy listen_fd k)
                  | (None, k) \<Rightarrow> (case Fd_release listen_fd of (fd, listen_fd) \<Rightarrow> (Inr fd, Fd_destroy listen_fd k)))))"

fun TcpConnect_loop :: "'a list \<Rightarrow> Fd \<Rightarrow> string \<Rightarrow> Kernel \<Rightarrow> Fd \<times> string \<times> Kernel" where
  "TcpConnect_loop [] conn_fd last_errno k = (conn_fd, last_errno, k)"
| "TcpConnect_loop (p # ps) conn_fd last_errno k =
     (case sys_socket k of
        (errno, fd, k) \<Rightarrow>
          let candidate = Fd_new fd in
          if \<not> Fd_valid candidate then TcpConnect_loop ps conn_fd (the errno) (Fd_destroy candidate k)
          else
            (case k_call k of
               (None, k) \<Rightarrow>
                 (case Fd_assign conn_fd candidate k of
                    (conn_fd, candidate, k) \<Rightarrow> (conn_fd, last_errno, Fd_destroy candidate k))
             | (Some e, k) \<Rightarrow> TcpConnect_loop ps conn_fd e (Fd_destroy candidate k)))"

definition TcpConnect :: "'a resolver \<Rightarrow> string \<Rightarrow> u16 \<Rightarrow> Kernel \<Rightarrow> int Result \<times> Kernel" where
  "TcpConnect getaddrinfo host port k =
     (case getaddrinfo (Some host) (to_string (unat port)) False of
        Inl e \<Rightarrow> (Inl (Status_Error ErrorCode_kIOError (''getaddrinfo: '' @ e)), k)
      | Inr results \<Rightarrow>
          let k = k\<lparr>k_addrs := Suc (k_addrs k)\<rparr> in
          (case TcpConnect_loop results Fd_default errno_0 k of
             (conn_fd, last_errno, k) \<Rightarrow>
               let k = freeaddrinfo k in
               if \<not> Fd_valid conn_fd then
                 (Inl (Status_Error ErrorCode_kIOError (''connect: '' @ last_errno)), Fd_destroy conn_fd k)
               else (case Fd_release conn_fd of (fd, conn_fd) \<Rightarrow> (Inr fd, Fd_destroy conn_fd k))))"

text \<open>The port of an address is kept in network byte order; \<^verbatim>\<open>ntohs\<close> reads it.\<close>

datatype sockaddr = Sockaddr_in bytes | Sockaddr_in6 bytes | Sockaddr_other

definition ntohs :: "bytes \<Rightarrow> u16" where "ntohs = ReadU16BE"

definition GetBoundPort :: "(int \<Rightarrow> sockaddr option) \<Rightarrow> int \<Rightarrow> u16 \<Rightarrow> u16" where
  "GetBoundPort getsockname fd fallback =
     (case getsockname fd of
        None \<Rightarrow> fallback
      | Some (Sockaddr_in port) \<Rightarrow> ntohs port
      | Some (Sockaddr_in6 port) \<Rightarrow> ntohs port
      | Some Sockaddr_other \<Rightarrow> fallback)"

section \<open>What the calls leave behind\<close>

lemma free_from_least: "free_from n fd used \<in> set used \<Longrightarrow> {fd..fd + int n} \<subseteq> set used"
proof (induction n arbitrary: fd)
  case (Suc n)
  then have "fd \<in> set used" "{fd + 1..fd + 1 + int n} \<subseteq> set used" by (auto split: if_splits)
  moreover have "{fd..fd + int (Suc n)} = insert fd {fd + 1..fd + 1 + int n}" by auto
  ultimately show ?case by simp
qed simp

lemma free_from_ge: "fd \<le> free_from n fd used"
  by (induction n fd used rule: free_from.induct) auto

lemma lowest_free: "lowest_free used \<notin> set used" "0 \<le> lowest_free used"
proof -
  show "0 \<le> lowest_free used" using free_from_ge by (simp add: lowest_free_def)
  have "card {0..int (length used)} \<le> length used" if "{0..int (length used)} \<subseteq> set used"
    using card_mono [OF finite_set that] card_length [of used] by linarith
  then show "lowest_free used \<notin> set used" using free_from_least [of "length used" 0 used] by (auto simp: lowest_free_def)
qed

text \<open>Nothing but the outcomes to come is different.\<close>

definition same_table :: "Kernel \<Rightarrow> Kernel \<Rightarrow> bool" where
  "same_table k k' \<longleftrightarrow> k_open k' = k_open k \<and> k_addrs k' = k_addrs k \<and> k_stray k' = k_stray k \<and> k_flags k' = k_flags k"

text \<open>A new descriptor is the only difference.\<close>

definition opened :: "int \<Rightarrow> Kernel \<Rightarrow> Kernel \<Rightarrow> bool" where
  "opened fd k k' \<longleftrightarrow> 0 \<le> fd \<and> fd \<notin> set (k_open k) \<and> k_open k' = fd # k_open k
     \<and> k_addrs k' = k_addrs k \<and> k_stray k' = k_stray k \<and> k_flags k' = k_flags k"

lemma same_table_refl [simp]: "same_table k k"
  by (simp add: same_table_def)

lemma same_table_trans: "same_table k1 k2 \<Longrightarrow> same_table k2 k3 \<Longrightarrow> same_table k1 k3"
  by (simp add: same_table_def)

lemma opened_same: "opened fd k1 k2 \<Longrightarrow> same_table k2 k3 \<Longrightarrow> opened fd k1 k3" "same_table k1 k2 \<Longrightarrow> opened fd k2 k3 \<Longrightarrow> opened fd k1 k3"
  by (simp_all add: same_table_def opened_def)

lemma k_call_same: "k_call k = (e, k') \<Longrightarrow> same_table k k'"
  by (auto simp: k_call_def same_table_def split: prod.splits)

lemma sys_socket_cases:
  assumes "sys_socket k = (errno, fd, k')"
  obtains e where "errno = Some e" "fd = -1" "same_table k k'" | "errno = None" "opened fd k k'"
proof -
  obtain e k1 where c: "k_call k = (e, k1)" by fastforce
  note same = k_call_same [OF c]
  show thesis
  proof (cases e)
    case None
    then show ?thesis using that(2) assms c same lowest_free [of "k_open k1"] by (auto simp: sys_socket_def opened_def same_table_def Let_def)
  next
    case (Some x)
    then show ?thesis using that(1) assms c same by (auto simp: sys_socket_def)
  qed
qed

lemma close_opened: "opened fd k k' \<Longrightarrow> same_table k (CloseQuietly fd k')"
  by (simp add: CloseQuietly_def sys_close_def opened_def same_table_def)

lemmas Fd_defs = Fd_default_def Fd_new_def Fd_destroy_def Fd_valid_def Fd_get_def Fd_release_def Fd_assign_def Fd_move_def Fd_reset_def

lemma CloseQuietly_none [simp]: "CloseQuietly (-1) k = k"
  by (simp add: CloseQuietly_def)

lemma Fd_candidate [simp]:
  "Fd_valid (Fd_new fd) \<longleftrightarrow> 0 \<le> fd" "Fd_destroy (Fd_new fd) k = CloseQuietly fd k" "own_fd (Fd_new fd) = fd"
  "Fd_assign Fd_default (Fd_new fd) k = (Fd_new fd, Fd_default, k)" "Fd_destroy Fd_default k = k"
  by (simp_all add: Fd_defs)

text \<open>The two loops: the owner is still empty and nothing changed, or it owns the one new descriptor.\<close>

definition loop_result :: "Kernel \<Rightarrow> Fd \<times> string \<times> Kernel \<Rightarrow> bool" where
  "loop_result k r \<longleftrightarrow> (case r of (f, _, k') \<Rightarrow> f = Fd_default \<and> same_table k k' \<or> opened (own_fd f) k k')"

lemma loop_result_same: "same_table k k' \<Longrightarrow> loop_result k' r \<Longrightarrow> loop_result k r"
  using same_table_trans opened_same(2) by (auto simp: loop_result_def split: prod.splits)

lemma TcpListen_loop_result: "loop_result k (TcpListen_loop ps Fd_default e k)"
proof (induction ps arbitrary: e k)
  case (Cons p ps)
  obtain errno fd k1 where s: "sys_socket k = (errno, fd, k1)" by (cases "sys_socket k") auto
  then show ?case
  proof (cases rule: sys_socket_cases)
    case (1 e')
    then show ?thesis using s loop_result_same [OF 1(3) Cons] by simp
  next
    case 2
    obtain u k2 where c: "k_call k1 = (u, k2)" by fastforce
    obtain v k3 where d: "k_call k2 = (v, k3)" by fastforce
    have o3: "opened fd k k3" using 2 k_call_same [OF c] k_call_same [OF d] opened_same(1) by blast
    then have "0 \<le> fd" by (simp add: opened_def)
    then show ?thesis using s c d o3 loop_result_same [OF close_opened [OF o3] Cons]
      by (cases v) (simp_all add: loop_result_def)
  qed
qed (simp add: loop_result_def)

lemma TcpConnect_loop_result: "loop_result k (TcpConnect_loop ps Fd_default e k)"
proof (induction ps arbitrary: e k)
  case (Cons p ps)
  obtain errno fd k1 where s: "sys_socket k = (errno, fd, k1)" by (cases "sys_socket k") auto
  then show ?case
  proof (cases rule: sys_socket_cases)
    case (1 e')
    then show ?thesis using s loop_result_same [OF 1(3) Cons] by simp
  next
    case 2
    obtain v k3 where d: "k_call k1 = (v, k3)" by fastforce
    have o3: "opened fd k k3" using 2 k_call_same [OF d] opened_same(1) by blast
    then have "0 \<le> fd" by (simp add: opened_def)
    then show ?thesis using s d o3 loop_result_same [OF close_opened [OF o3] Cons]
      by (cases v) (simp_all add: loop_result_def)
  qed
qed (simp add: loop_result_def)

section \<open>Calls that open a descriptor\<close>

text \<open>
  The contract that the users of \<^verbatim>\<open>TcpListen\<close> and \<^verbatim>\<open>TcpConnect\<close> rely on: an error leaves the descriptor table alone, and success adds the returned descriptor
  and nothing else.
\<close>

locale descriptor_opener =
  fixes open_fd :: "Kernel \<Rightarrow> int Result \<times> Kernel"
  assumes opens: "case open_fd k of (Inl st, k') \<Rightarrow> \<not> ok st \<and> same_table k k' | (Inr fd, k') \<Rightarrow> opened fd k k'"
begin

lemma failed: "open_fd k = (Inl st, k') \<Longrightarrow> \<not> ok st \<and> same_table k k'"
  using opens [of k] by simp

lemma succeeded: "open_fd k = (Inr fd, k') \<Longrightarrow> opened fd k k'"
  using opens [of k] by simp

lemma closed_again: "open_fd k = (Inr fd, k') \<Longrightarrow> same_table k (CloseQuietly fd k')"
  by (rule close_opened) (rule succeeded)

text \<open>Opening a descriptor only to close it, as \<^verbatim>\<open>Stop\<close> does to wake the accepting thread.\<close>

lemma knock: "same_table k (case open_fd k of (Inl _, k') \<Rightarrow> k' | (Inr fd, k') \<Rightarrow> CloseQuietly fd k')"
  using failed [of k] closed_again [of k] by (cases "open_fd k") (auto split: sum.split)

end

lemma TcpListen_table:
  "case TcpListen getaddrinfo host port k of
     (Inl st, k') \<Rightarrow> \<not> ok st \<and> same_table k k'
   | (Inr fd, k') \<Rightarrow> opened fd k k'"
proof (cases "getaddrinfo (if host = '''' then None else Some host) (to_string (unat port)) True")
  case (Inr ps)
  let ?k = "k\<lparr>k_addrs := Suc (k_addrs k)\<rparr>"
  obtain f e k1 where l: "TcpListen_loop ps Fd_default errno_0 ?k = (f, e, k1)" by (rule prod_cases3)
  obtain v k2 where c: "k_call (freeaddrinfo k1) = (v, k2)" by fastforce
  have r: "f = Fd_default \<and> same_table ?k k1 \<or> opened (own_fd f) ?k k1"
    using TcpListen_loop_result [of ?k ps errno_0] l by (simp add: loop_result_def)
  then have free: "f = Fd_default \<and> same_table k (freeaddrinfo k1) \<or> opened (own_fd f) k (freeaddrinfo k1)"
    by (auto simp: same_table_def opened_def freeaddrinfo_def)
  then have "f = Fd_default \<and> same_table k (freeaddrinfo k1) \<or> opened (own_fd f) k k2 \<and> same_table k (CloseQuietly (own_fd f) k2) \<and> 0 \<le> own_fd f"
    using opened_same(1) [OF _ k_call_same [OF c]] close_opened by (auto simp: opened_def)
  then show ?thesis using l c Inr by (cases v) (auto simp: TcpListen_def Let_def Fd_defs)
qed (simp add: TcpListen_def)

lemma TcpConnect_table:
  "case TcpConnect getaddrinfo host port k of
     (Inl st, k') \<Rightarrow> \<not> ok st \<and> same_table k k'
   | (Inr fd, k') \<Rightarrow> opened fd k k'"
proof (cases "getaddrinfo (Some host) (to_string (unat port)) False")
  case (Inr ps)
  let ?k = "k\<lparr>k_addrs := Suc (k_addrs k)\<rparr>"
  obtain f e k1 where l: "TcpConnect_loop ps Fd_default errno_0 ?k = (f, e, k1)" by (rule prod_cases3)
  have r: "f = Fd_default \<and> same_table ?k k1 \<or> opened (own_fd f) ?k k1"
    using TcpConnect_loop_result [of ?k ps errno_0] l by (simp add: loop_result_def)
  then have "f = Fd_default \<and> same_table k (freeaddrinfo k1) \<or> opened (own_fd f) k (freeaddrinfo k1) \<and> 0 \<le> own_fd f"
    by (auto simp: same_table_def opened_def freeaddrinfo_def)
  then show ?thesis using l Inr by (auto simp: TcpConnect_def Let_def Fd_defs)
qed (simp add: TcpConnect_def)

interpretation listener: descriptor_opener "TcpListen getaddrinfo host port" for getaddrinfo host port
  by unfold_locales (rule TcpListen_table)

interpretation dialer: descriptor_opener "TcpConnect getaddrinfo host port" for getaddrinfo host port
  by unfold_locales (rule TcpConnect_table)

section \<open>Properties\<close>

text \<open>
  Opening a socket never leaks. For every resolver and every outcome of the system calls, \<^verbatim>\<open>TcpListen\<close> and \<^verbatim>\<open>TcpConnect\<close> either fail with an
  error and leave the descriptor table as it was, or return a descriptor that was not open before and is the only one added; in both cases
  every \<^verbatim>\<open>getaddrinfo\<close> result is freed, and no descriptor is closed that is not open.
\<close>

lemma sockets_do_not_leak:
  "(case TcpListen getaddrinfo host port k of
      (Inl st, k') \<Rightarrow> \<not> ok st \<and> same_table k k' | (Inr fd, k') \<Rightarrow> opened fd k k')
   \<and> (case TcpConnect getaddrinfo host port k of
      (Inl st, k') \<Rightarrow> \<not> ok st \<and> same_table k k' | (Inr fd, k') \<Rightarrow> opened fd k k')"
  by (rule conjI [OF listener.opens dialer.opens])

end
