(* ===== verification/Wal_Handle.thy ===== *)
theory Wal_Handle
  imports Wal_Writer Socket_Utils
begin

text \<open>
  The destructor and the moves of \<^verbatim>\<open>WalWriter\<close> (\<^verbatim>\<open>persistence/wal_writer.cpp\<close>), which own the descriptor of the log; \<open>Wal_Writer\<close> models what is written through it. \<^verbatim>\<open>DurableStorage\<close> is
  returned by value and so moves its writer. A moved-from writer keeps its counters but has no mutex and no descriptor.
\<close>

section \<open>Ownership of the log\<close>

record WalHandle =
  wh_fd :: int
  wh_has_mutex :: bool
  wh_writer :: WalWriter

definition WalWriter_destroy :: "WalHandle \<Rightarrow> Kernel \<Rightarrow> Kernel" where
  "WalWriter_destroy w k = (if wh_fd w \<ge> 0 then sys_close (wh_fd w) k else k)"

text \<open>The move constructor and assignment answer the new owner first, then what is left of the old one. An assignment of an
  object to itself does nothing; the definition is for two objects.\<close>

definition WalWriter_move :: "WalHandle \<Rightarrow> WalHandle \<times> WalHandle" where
  "WalWriter_move other =
     (\<lparr>wh_fd = wh_fd other, wh_has_mutex = wh_has_mutex other, wh_writer = wh_writer other\<rparr>,
      other\<lparr>wh_fd := -1, wh_has_mutex := False\<rparr>)"

definition WalWriter_move_assign :: "WalHandle \<Rightarrow> WalHandle \<Rightarrow> Kernel \<Rightarrow> WalHandle \<times> WalHandle \<times> Kernel" where
  "WalWriter_move_assign this other k =
     (let k = (if wh_fd this \<ge> 0 then sys_close (wh_fd this) k else k) in
      (\<lparr>wh_fd = wh_fd other, wh_has_mutex = wh_has_mutex other, wh_writer = wh_writer other\<rparr>,
       other\<lparr>wh_fd := -1, wh_has_mutex := False\<rparr>, k))"

section \<open>Every descriptor is closed once\<close>

text \<open>A move hands on the log with its writer, and destroying both objects closes what destroying the first would have closed.\<close>

lemma WalWriter_move_owner:
  assumes "WalWriter_move w = (new, old)"
  shows "new = w" "WalWriter_destroy old (WalWriter_destroy new k) = WalWriter_destroy w k"
  using assms by (auto simp: WalWriter_move_def WalWriter_destroy_def)

text \<open>An assignment closes the log of its target, and then there is one owner left: in the end both logs are closed and nothing is closed twice.\<close>

lemma WalWriter_move_assign_closes:
  assumes "WalWriter_move_assign this other k = (this', other', k')"
  shows "wh_writer this' = wh_writer other"
    "WalWriter_destroy other' (WalWriter_destroy this' k') = WalWriter_destroy other (WalWriter_destroy this k)"
  using assms by (auto simp: WalWriter_move_assign_def WalWriter_destroy_def Let_def)

lemma WalWriter_move_assign_stray:
  assumes "WalWriter_move_assign this other k = (this', other', k')" "wh_fd this \<noteq> wh_fd other"
    and "wh_fd this \<in> set (k_open k)" "wh_fd other \<in> set (k_open k)" "0 \<le> wh_fd this" "0 \<le> wh_fd other"
  shows "k_stray (WalWriter_destroy other' (WalWriter_destroy this' k')) = k_stray k"
    "k_open (WalWriter_destroy other' (WalWriter_destroy this' k')) = remove1 (wh_fd other) (remove1 (wh_fd this) (k_open k))"
  unfolding WalWriter_move_assign_closes(2) [OF assms(1)]
  using assms(2-) by (auto simp: WalWriter_destroy_def sys_close_def in_set_remove1)

end
