(* ===== verification/Cluster_Config.thy ===== *)
theory Cluster_Config
  imports NKV_Prelude
begin

text \<open>
  \<^verbatim>\<open>cluster/cluster_config.{h,cpp}\<close>: parsing and validating the cluster configuration file. The pieces of the C++ library
  that the parser uses are modelled first: \<^verbatim>\<open>isspace\<close> and \<^verbatim>\<open>isdigit\<close> in the C locale, \<^verbatim>\<open>std::getline\<close>, extraction of tokens and
  decimal integers from an \<^verbatim>\<open>istringstream\<close> (\<open>None\<close> when the extraction sets the fail bit), and \<^verbatim>\<open>std::stoul\<close>, which
  throws when the number exceeds 64 bits. An exception is not caught anywhere in the program; a parse that throws is \<open>None\<close>.
\<close>

section \<open>Library functions\<close>

definition isspace :: "char \<Rightarrow> bool" where
  "isspace c \<longleftrightarrow> c \<in> {CHR '' '', CHR 0x09, CHR 0x0A, CHR 0x0B, CHR 0x0C, CHR 0x0D}"

definition isdigit :: "char \<Rightarrow> bool" where
  "isdigit c \<longleftrightarrow> 48 \<le> (of_char c :: int) \<and> (of_char c :: int) \<le> 57"

definition digit_value :: "char \<Rightarrow> int" where
  "digit_value c = of_char c - 48"

definition decimal :: "string \<Rightarrow> int" where
  "decimal s = fold (\<lambda>c n. 10 * n + digit_value c) s 0"

function getlines :: "string \<Rightarrow> string list" where
  "getlines [] = []"
| "getlines (c # cs) =
     takeWhile (\<lambda>c. c \<noteq> CHR 0x0A) (c # cs) # getlines (drop 1 (dropWhile (\<lambda>c. c \<noteq> CHR 0x0A) (c # cs)))"
  by pat_completeness auto
termination
proof (relation "measure length", goal_cases)
  case (2 c cs)
  then show ?case using length_dropWhile_le [of "\<lambda>c. c \<noteq> CHR 0x0A" "c # cs"]
    by (cases "dropWhile (\<lambda>c. c \<noteq> CHR 0x0A) (c # cs)") auto
qed simp

definition extract_token :: "string \<Rightarrow> (string \<times> string) option" where
  "extract_token s =
     (let s = dropWhile isspace s in
      if s = [] then None else Some (takeWhile (\<lambda>c. \<not> isspace c) s, dropWhile (\<lambda>c. \<not> isspace c) s))"

definition extract_int :: "nat \<Rightarrow> string \<Rightarrow> (int \<times> string) option" where
  "extract_int bits s =
     (let s = dropWhile isspace s;
          neg = (s \<noteq> [] \<and> hd s = CHR ''-'');
          s = (if s \<noteq> [] \<and> (hd s = CHR ''-'' \<or> hd s = CHR ''+'') then tl s else s);
          ds = takeWhile isdigit s;
          v = (if neg then - decimal ds else decimal ds) in
      if ds = [] \<or> v < - (2 ^ (bits - 1)) \<or> v > 2 ^ (bits - 1) - 1 then None
      else Some (v, dropWhile isdigit s))"

definition stoul :: "string \<Rightarrow> u64 option" where
  "stoul s = (if decimal s < 2 ^ 64 then Some (of_int (decimal s)) else None)"

lemma ucast_uint [code_unfold]: "(ucast :: u64 \<Rightarrow> u32) = (\<lambda>w. of_int (uint w))"
  by (rule ext) simp

section \<open>The configuration\<close>

record PeerInfo =
  peer_node_id :: u32
  peer_host :: string
  peer_port :: u16

record ClusterConfig =
  cfg_local_node_id :: u32
  cfg_leader_node_id :: u32
  cfg_peers :: "PeerInfo list"

definition ClusterConfig_FindPeer :: "ClusterConfig \<Rightarrow> u32 \<Rightarrow> PeerInfo option" where
  "ClusterConfig_FindPeer config node_id = find (\<lambda>peer. peer_node_id peer = node_id) (cfg_peers config)"

definition Trim :: "string \<Rightarrow> string" where
  "Trim s = rev (dropWhile isspace (rev (dropWhile isspace s)))"

definition config_error :: "string \<Rightarrow> Status" where
  "config_error msg = Status_Error ErrorCode_kInvalidArgument msg"

text \<open>
  \<^verbatim>\<open>tokens >> directive >> id >> host >> port\<close> followed by the test of the stream state and the ranges.
\<close>

definition parse_peer :: "string \<Rightarrow> PeerInfo option" where
  "parse_peer line =
     (case extract_token line of None \<Rightarrow> None | Some (directive, s) \<Rightarrow>
      case extract_int 64 s of None \<Rightarrow> None | Some (pid, s) \<Rightarrow>
      case extract_token s of None \<Rightarrow> None | Some (host, s) \<Rightarrow>
      case extract_int 32 s of None \<Rightarrow> None | Some (port, s) \<Rightarrow>
        if s \<noteq> [] \<or> pid \<le> 0 \<or> pid > 0xFFFFFFFF \<or> port \<le> 0 \<or> port > 0xFFFF then None
        else Some \<lparr>peer_node_id = of_int pid, peer_host = host, peer_port = of_int port\<rparr>)"

definition ParseLine :: "string \<Rightarrow> ClusterConfig \<Rightarrow> (Status \<times> ClusterConfig) option" where
  "ParseLine raw_line config =
     (let line = Trim raw_line in
      if line = [] \<or> hd line = CHR ''#'' then Some (Status_Ok, config)
      else if take 4 line = ''peer'' \<and> (length line = 4 \<or> isspace (line ! 4)) then
        (case parse_peer line of
           None \<Rightarrow> Some (config_error (''malformed peer line: '' @ raw_line), config)
         | Some peer \<Rightarrow> Some (Status_Ok, config\<lparr>cfg_peers := cfg_peers config @ [peer]\<rparr>))
      else if CHR ''='' \<notin> set line then Some (config_error (''unrecognized config line: '' @ raw_line), config)
      else
        let key = Trim (takeWhile (\<lambda>c. c \<noteq> CHR ''='') line);
            val = Trim (drop 1 (dropWhile (\<lambda>c. c \<noteq> CHR ''='') line)) in
        if val = [] \<or> \<not> list_all isdigit val then Some (config_error (''malformed value in line: '' @ raw_line), config)
        else
          case stoul val of
            None \<Rightarrow> None
          | Some v \<Rightarrow>
              let parsed = (ucast v :: u32) in
              if key = ''node_id'' then Some (Status_Ok, config\<lparr>cfg_local_node_id := parsed\<rparr>)
              else if key = ''leader_id'' then Some (Status_Ok, config\<lparr>cfg_leader_node_id := parsed\<rparr>)
              else Some (config_error (''unknown config key: '' @ key), config))"

text \<open>
  \<^verbatim>\<open>Validate\<close>: one pass over the peers, each compared with the ones after it, that also looks for the local node and
  the leader.
\<close>

fun Validate_loop :: "ClusterConfig \<Rightarrow> PeerInfo list \<Rightarrow> bool \<Rightarrow> bool \<Rightarrow> Status" where
  "Validate_loop config [] seen_local seen_leader =
     (if \<not> seen_local then config_error ''local node_id is not in the peer list''
      else if \<not> seen_leader then config_error ''leader_id is not in the peer list''
      else Status_Ok)"
| "Validate_loop config (peer # rest) seen_local seen_leader =
     (if list_ex (\<lambda>other. peer_node_id other = peer_node_id peer) rest then
        config_error (''duplicate peer id '' @ to_string (unat (peer_node_id peer)))
      else
        Validate_loop config rest (seen_local \<or> peer_node_id peer = cfg_local_node_id config)
          (seen_leader \<or> peer_node_id peer = cfg_leader_node_id config))"

definition Validate :: "ClusterConfig \<Rightarrow> Status" where
  "Validate config =
     (if cfg_local_node_id config = 0 then config_error ''cluster config missing node_id''
      else if cfg_peers config = [] then config_error ''cluster config has no peers''
      else Validate_loop config (cfg_peers config) False (cfg_leader_node_id config = 0))"

fun parse_lines :: "string list \<Rightarrow> ClusterConfig \<Rightarrow> (Status \<times> ClusterConfig) option" where
  "parse_lines [] config = Some (Status_Ok, config)"
| "parse_lines (line # ls) config =
     (case ParseLine line config of
        None \<Rightarrow> None
      | Some (status, config) \<Rightarrow> if \<not> ok status then Some (status, config) else parse_lines ls config)"

text \<open>\<open>file\<close> is the contents of the file, or \<open>None\<close> when it cannot be opened.\<close>

definition LoadClusterConfig :: "string \<Rightarrow> string option \<Rightarrow> (ClusterConfig Result) option" where
  "LoadClusterConfig path file =
     (case file of
        None \<Rightarrow> Some (Inl (Status_Error ErrorCode_kIOError (''open cluster config: '' @ path)))
      | Some contents \<Rightarrow>
          (case parse_lines (getlines contents) \<lparr>cfg_local_node_id = 0, cfg_leader_node_id = 0, cfg_peers = []\<rparr> of
             None \<Rightarrow> None
           | Some (status, config) \<Rightarrow>
               if \<not> ok status then Some (Inl status)
               else
                 let status = Validate config in
                 if \<not> ok status then Some (Inl status) else Some (Inr config)))"

section \<open>What a loaded configuration satisfies\<close>

definition PeerValid :: "PeerInfo \<Rightarrow> bool" where
  "PeerValid p \<longleftrightarrow> peer_node_id p \<noteq> 0 \<and> peer_port p \<noteq> 0 \<and> peer_host p \<noteq> [] \<and> list_all (\<lambda>c. \<not> isspace c) (peer_host p)"

definition ConfigValid :: "ClusterConfig \<Rightarrow> bool" where
  "ConfigValid config \<longleftrightarrow>
     distinct (map peer_node_id (cfg_peers config)) \<and> list_all PeerValid (cfg_peers config)
     \<and> cfg_local_node_id config \<in> peer_node_id ` set (cfg_peers config)
     \<and> (cfg_leader_node_id config = 0 \<or> cfg_leader_node_id config \<in> peer_node_id ` set (cfg_peers config))"

lemma extract_token_nonempty:
  assumes "extract_token s = Some (tok, rest)"
  shows "tok \<noteq> [] \<and> list_all (\<lambda>c. \<not> isspace c) tok"
proof -
  have s: "dropWhile isspace s \<noteq> []" and t: "tok = takeWhile (\<lambda>c. \<not> isspace c) (dropWhile isspace s)"
    using assms by (auto simp: extract_token_def Let_def split: if_splits)
  then have "\<not> isspace (hd (dropWhile isspace s))" using hd_dropWhile by blast
  then have "tok \<noteq> []" using s t by (cases "dropWhile isspace s") auto
  moreover have "list_all (\<lambda>c. \<not> isspace c) tok" using t by (auto simp: list_all_iff dest: set_takeWhileD)
  ultimately show ?thesis ..
qed

lemma of_int_word_nonzero:
  assumes "0 < v" "v < 2 ^ LENGTH('a :: len)"
  shows "(of_int v :: 'a word) \<noteq> 0"
  using assms by (simp add: word_of_int_eq_0_iff zdvd_not_zless)

lemma parse_peer_valid:
  assumes "parse_peer line = Some p"
  shows "PeerValid p"
proof -
  have "PeerValid \<lparr>peer_node_id = of_int pid, peer_host = host, peer_port = of_int port\<rparr>"
    if "extract_token s = Some (host, s')" "\<not> pid \<le> 0" "\<not> 0xFFFFFFFF < pid" "\<not> port \<le> 0" "\<not> 0xFFFF < port" for s s' host pid port
    using that extract_token_nonempty [OF that(1)] of_int_word_nonzero [of pid, where 'a = 32]
      of_int_word_nonzero [of port, where 'a = 16] by (simp add: PeerValid_def)
  then show ?thesis using assms by (auto simp: parse_peer_def split: option.splits if_splits)
qed

lemma ParseLine_peers:
  assumes "ParseLine line config = Some (st, config')" "list_all PeerValid (cfg_peers config)"
  shows "list_all PeerValid (cfg_peers config')"
  using assms parse_peer_valid by (auto simp: ParseLine_def Let_def split: if_splits option.splits)

lemma parse_lines_peers:
  "parse_lines ls config = Some (st, config') \<Longrightarrow> list_all PeerValid (cfg_peers config) \<Longrightarrow> list_all PeerValid (cfg_peers config')"
proof (induction ls arbitrary: config)
  case (Cons l ls)
  then show ?case using ParseLine_peers by (auto split: option.splits if_splits)
qed simp

lemma Validate_loop_ok:
  "ok (Validate_loop config ps sl sd) \<Longrightarrow>
     distinct (map peer_node_id ps) \<and> (sl \<or> cfg_local_node_id config \<in> peer_node_id ` set ps)
     \<and> (sd \<or> cfg_leader_node_id config \<in> peer_node_id ` set ps)"
proof (induction config ps sl sd rule: Validate_loop.induct)
  case (2 config peer rest sl sd)
  have "\<not> list_ex (\<lambda>other. peer_node_id other = peer_node_id peer) rest"
    using "2.prems" by (auto simp: config_error_def)
  with 2 show ?case by (auto simp: list_ex_iff)
qed (auto simp: config_error_def split: if_splits)

lemma Validate_ok:
  assumes "ok (Validate config)" "list_all PeerValid (cfg_peers config)"
  shows "ConfigValid config"
proof -
  have "ok (Validate_loop config (cfg_peers config) False (cfg_leader_node_id config = 0))"
    using assms(1) by (simp add: Validate_def config_error_def split: if_splits)
  from Validate_loop_ok [OF this] assms(2) show ?thesis by (simp add: ConfigValid_def)
qed

lemma LoadClusterConfig_valid:
  assumes "LoadClusterConfig path file = Some (Inr config)"
  shows "ConfigValid config"
proof -
  obtain ls st where l: "parse_lines ls \<lparr>cfg_local_node_id = 0, cfg_leader_node_id = 0, cfg_peers = []\<rparr> = Some (st, config)"
    and v: "ok (Validate config)"
    using assms by (auto simp: LoadClusterConfig_def Let_def split: option.splits if_splits)
  have "list_all PeerValid (cfg_peers config)" using parse_lines_peers [OF l] by simp
  from Validate_ok [OF v this] show ?thesis .
qed

section \<open>Properties\<close>

text \<open>
  C37. A configuration that loads is usable. Whenever \<^verbatim>\<open>LoadClusterConfig\<close> succeeds, whatever the file holds, the
  peer ids are pairwise distinct and non-zero (zero is Raft's "no vote"), every peer has a host and a port, the local node is one of
  the peers, and so is the leader if one is named.
\<close>

theorem loaded_config_valid:
  assumes "LoadClusterConfig path file = Some (Inr config)"
  shows "distinct (map peer_node_id (cfg_peers config))
     \<and> (\<forall>p \<in> set (cfg_peers config). peer_node_id p \<noteq> 0 \<and> peer_host p \<noteq> [] \<and> peer_port p \<noteq> 0)
     \<and> cfg_local_node_id config \<in> peer_node_id ` set (cfg_peers config)
     \<and> (cfg_leader_node_id config = 0 \<or> cfg_leader_node_id config \<in> peer_node_id ` set (cfg_peers config))"
  using LoadClusterConfig_valid [OF assms] by (auto simp: ConfigValid_def PeerValid_def list_all_iff)

definition config_example :: string where
  "config_example = ''# three nodes'' @ [CHR 0x0A] @ ''node_id = 2'' @ [CHR 0x0A] @ ''peer 1 a 7001'' @ [CHR 0x0A]
     @ ''peer 2 b 7002'' @ [CHR 0x0A] @ ''  peer 3 c 7003'' @ [CHR 0x0A]"

lemma config_example_loads:
  "LoadClusterConfig ''f'' (Some config_example) = Some (Inr \<lparr>cfg_local_node_id = 2, cfg_leader_node_id = 0,
     cfg_peers = [\<lparr>peer_node_id = 1, peer_host = ''a'', peer_port = 7001\<rparr>, \<lparr>peer_node_id = 2, peer_host = ''b'', peer_port = 7002\<rparr>,
       \<lparr>peer_node_id = 3, peer_host = ''c'', peer_port = 7003\<rparr>]\<rparr>)"
  by code_simp

theorem loaded_config_valid_witness:
  "\<exists>config. LoadClusterConfig ''f'' (Some config_example) = Some (Inr config)
     \<and> distinct (map peer_node_id (cfg_peers config)) \<and> cfg_local_node_id config \<in> peer_node_id ` set (cfg_peers config)"
  using loaded_config_valid [OF config_example_loads] config_example_loads by blast

text \<open>
  Identifiers beyond 32 bits are not rejected. The line \<^verbatim>\<open>node_id=4294967298\<close> is accepted and stored as 2, because the
  number is narrowed after parsing, while the same id on a peer line is refused; and a number beyond 64 bits ends
  the program with an uncaught exception.
\<close>

lemma config_id_truncated:
  "ParseLine ''node_id=4294967298'' config = Some (Status_Ok, config\<lparr>cfg_local_node_id := 2\<rparr>)
   \<and> ParseLine ''peer 4294967298 h 7000'' config
       = Some (Status_Error ErrorCode_kInvalidArgument ''malformed peer line: peer 4294967298 h 7000'', config)
   \<and> ParseLine ''node_id=99999999999999999999'' config = None"
proof (intro conjI)
  show "ParseLine ''node_id=4294967298'' config = Some (Status_Ok, config\<lparr>cfg_local_node_id := 2\<rparr>)" by code_simp simp
qed (code_simp)+

end
