(* ===== verification/Raft_Rpc_Codec.thy ===== *)
theory Raft_Rpc_Codec
  imports Wal_Record
begin

text \<open>
  \<^verbatim>\<open>raft/types.h\<close> and \<^verbatim>\<open>raft/rpc_codec.{h,cpp}\<close>: log entries and the bodies of the two Raft RPCs. The cursor class
  \<^verbatim>\<open>Reader\<close> is a record; each of its methods returns the value and the moved cursor, or \<^verbatim>\<open>Truncated()\<close>. The lemmas show
  that every request and response is read back as it was written, and that the request decoders accept nothing
  but what the encoders write.
\<close>

section \<open>Messages\<close>

datatype RaftState = RaftState_kFollower | RaftState_kCandidate | RaftState_kLeader

record LogEntry =
  e_term :: u64
  e_index :: u64
  e_op :: WalOp
  e_key :: bytes
  e_value :: bytes

record RequestVoteRequest =
  rv_term :: u64
  rv_candidate_id :: u32
  rv_last_log_index :: u64
  rv_last_log_term :: u64

record RequestVoteResponse =
  rvr_term :: u64
  rvr_vote_granted :: bool

record AppendEntriesRequest =
  ae_term :: u64
  ae_leader_id :: u32
  ae_prev_log_index :: u64
  ae_prev_log_term :: u64
  ae_leader_commit :: u64
  ae_entries :: "LogEntry list"

record AppendEntriesResponse =
  aer_term :: u64
  aer_success :: bool

section \<open>The cursor\<close>

definition Truncated :: Status where
  "Truncated = Status_Error ErrorCode_kInvalidArgument ''truncated raft RPC body''"

record Reader =
  rd_data :: bytes
  rd_offset :: nat

definition Reader_new :: "bytes \<Rightarrow> Reader" where
  "Reader_new inp = \<lparr>rd_data = inp, rd_offset = 0\<rparr>"

definition Reader_ReadU8 :: "Reader \<Rightarrow> (u8 \<times> Reader) Result" where
  "Reader_ReadU8 r =
     (if rd_offset r + 1 > length (rd_data r) then Inl Truncated
      else Inr (rd_data r ! rd_offset r, r\<lparr>rd_offset := rd_offset r + 1\<rparr>))"

definition Reader_ReadU32 :: "Reader \<Rightarrow> (u32 \<times> Reader) Result" where
  "Reader_ReadU32 r =
     (if rd_offset r + 4 > length (rd_data r) then Inl Truncated
      else Inr (ReadU32BE (drop (rd_offset r) (rd_data r)), r\<lparr>rd_offset := rd_offset r + 4\<rparr>))"

definition Reader_ReadU64 :: "Reader \<Rightarrow> (u64 \<times> Reader) Result" where
  "Reader_ReadU64 r =
     (if rd_offset r + 8 > length (rd_data r) then Inl Truncated
      else Inr (ReadU64BE (drop (rd_offset r) (rd_data r)), r\<lparr>rd_offset := rd_offset r + 8\<rparr>))"

definition Reader_ReadBytes :: "u32 \<Rightarrow> Reader \<Rightarrow> (bytes \<times> Reader) Result" where
  "Reader_ReadBytes len r =
     (if rd_offset r + unat len > length (rd_data r) then Inl Truncated
      else Inr (take (unat len) (drop (rd_offset r) (rd_data r)), r\<lparr>rd_offset := rd_offset r + unat len\<rparr>))"

definition Reader_AtEnd :: "Reader \<Rightarrow> bool" where
  "Reader_AtEnd r \<longleftrightarrow> rd_offset r = length (rd_data r)"

section \<open>RequestVote\<close>

definition EncodeRequestVoteRequest :: "RequestVoteRequest \<Rightarrow> bytes" where
  "EncodeRequestVoteRequest req =
     (let buf = WriteU64BE [] (rv_term req);
          buf = WriteU32BE buf (rv_candidate_id req);
          buf = WriteU64BE buf (rv_last_log_index req)
      in WriteU64BE buf (rv_last_log_term req))"

definition DecodeRequestVoteRequest :: "bytes \<Rightarrow> RequestVoteRequest Result" where
  "DecodeRequestVoteRequest inp =
     bind_r (Reader_ReadU64 (Reader_new inp)) (\<lambda>(trm, r).
     bind_r (Reader_ReadU32 r) (\<lambda>(candidate_id, r).
     bind_r (Reader_ReadU64 r) (\<lambda>(last_log_index, r).
     bind_r (Reader_ReadU64 r) (\<lambda>(last_log_term, r).
     if \<not> Reader_AtEnd r then
       Inl (Status_Error ErrorCode_kInvalidArgument ''trailing bytes in RequestVote request'')
     else Inr \<lparr>rv_term = trm, rv_candidate_id = candidate_id, rv_last_log_index = last_log_index,
                rv_last_log_term = last_log_term\<rparr>))))"

definition EncodeRequestVoteResponse :: "RequestVoteResponse \<Rightarrow> bytes" where
  "EncodeRequestVoteResponse resp =
     (let buf = WriteU64BE [] (rvr_term resp) in WriteU8 buf (if rvr_vote_granted resp then 1 else 0))"

definition DecodeRequestVoteResponse :: "bytes \<Rightarrow> RequestVoteResponse Result" where
  "DecodeRequestVoteResponse inp =
     bind_r (Reader_ReadU64 (Reader_new inp)) (\<lambda>(trm, r).
     bind_r (Reader_ReadU8 r) (\<lambda>(granted, r).
     if \<not> Reader_AtEnd r then
       Inl (Status_Error ErrorCode_kInvalidArgument ''trailing bytes in RequestVote response'')
     else Inr \<lparr>rvr_term = trm, rvr_vote_granted = (granted \<noteq> 0)\<rparr>))"

section \<open>AppendEntries\<close>

definition EncodeLogEntry :: "LogEntry \<Rightarrow> bytes \<Rightarrow> bytes" where
  "EncodeLogEntry entry buf =
     (let buf = WriteU64BE buf (e_term entry);
          buf = WriteU64BE buf (e_index entry);
          buf = WriteU8 buf (WalOp_byte (e_op entry));
          buf = WriteU32BE buf (of_nat (length (e_key entry)));
          buf = buf @ e_key entry;
          buf = WriteU32BE buf (of_nat (length (e_value entry)))
      in buf @ e_value entry)"

definition EncodeAppendEntriesRequest :: "AppendEntriesRequest \<Rightarrow> bytes" where
  "EncodeAppendEntriesRequest req =
     (let buf = WriteU64BE [] (ae_term req);
          buf = WriteU32BE buf (ae_leader_id req);
          buf = WriteU64BE buf (ae_prev_log_index req);
          buf = WriteU64BE buf (ae_prev_log_term req);
          buf = WriteU64BE buf (ae_leader_commit req);
          buf = WriteU32BE buf (of_nat (length (ae_entries req)))
      in fold EncodeLogEntry (ae_entries req) buf)"

definition DecodeLogEntry :: "Reader \<Rightarrow> (LogEntry \<times> Reader) Result" where
  "DecodeLogEntry r =
     bind_r (Reader_ReadU64 r) (\<lambda>(trm, r).
     bind_r (Reader_ReadU64 r) (\<lambda>(index, r).
     bind_r (Reader_ReadU8 r) (\<lambda>(op_byte, r).
     if op_byte \<noteq> WalOp_byte WalOp_kSet \<and> op_byte \<noteq> WalOp_byte WalOp_kDelete then
       Inl (Status_Error ErrorCode_kInvalidArgument ''unknown log entry op'')
     else
     bind_r (Reader_ReadU32 r) (\<lambda>(key_len, r).
     bind_r (Reader_ReadBytes key_len r) (\<lambda>(key, r).
     bind_r (Reader_ReadU32 r) (\<lambda>(value_len, r).
     bind_r (Reader_ReadBytes value_len r) (\<lambda>(val, r).
     Inr (\<lparr>e_term = trm, e_index = index,
           e_op = (if op_byte = WalOp_byte WalOp_kSet then WalOp_kSet else WalOp_kDelete),
           e_key = key, e_value = val\<rparr>, r))))))))"

fun DecodeLogEntries :: "nat \<Rightarrow> Reader \<Rightarrow> (LogEntry list \<times> Reader) Result" where
  "DecodeLogEntries 0 r = Inr ([], r)"
| "DecodeLogEntries (Suc n) r =
     bind_r (DecodeLogEntry r) (\<lambda>(entry, r).
     bind_r (DecodeLogEntries n r) (\<lambda>(entries, r). Inr (entry # entries, r)))"

definition DecodeAppendEntriesRequest :: "bytes \<Rightarrow> AppendEntriesRequest Result" where
  "DecodeAppendEntriesRequest inp =
     bind_r (Reader_ReadU64 (Reader_new inp)) (\<lambda>(trm, r).
     bind_r (Reader_ReadU32 r) (\<lambda>(leader_id, r).
     bind_r (Reader_ReadU64 r) (\<lambda>(prev_log_index, r).
     bind_r (Reader_ReadU64 r) (\<lambda>(prev_log_term, r).
     bind_r (Reader_ReadU64 r) (\<lambda>(leader_commit, r).
     bind_r (Reader_ReadU32 r) (\<lambda>(entry_count, r).
     bind_r (DecodeLogEntries (unat entry_count) r) (\<lambda>(entries, r).
     if \<not> Reader_AtEnd r then
       Inl (Status_Error ErrorCode_kInvalidArgument ''trailing bytes in AppendEntries request'')
     else Inr \<lparr>ae_term = trm, ae_leader_id = leader_id, ae_prev_log_index = prev_log_index,
                ae_prev_log_term = prev_log_term, ae_leader_commit = leader_commit, ae_entries = entries\<rparr>)))))))"

definition EncodeAppendEntriesResponse :: "AppendEntriesResponse \<Rightarrow> bytes" where
  "EncodeAppendEntriesResponse resp =
     (let buf = WriteU64BE [] (aer_term resp) in WriteU8 buf (if aer_success resp then 1 else 0))"

definition DecodeAppendEntriesResponse :: "bytes \<Rightarrow> AppendEntriesResponse Result" where
  "DecodeAppendEntriesResponse inp =
     bind_r (Reader_ReadU64 (Reader_new inp)) (\<lambda>(trm, r).
     bind_r (Reader_ReadU8 r) (\<lambda>(success, r).
     if \<not> Reader_AtEnd r then
       Inl (Status_Error ErrorCode_kInvalidArgument ''trailing bytes in AppendEntries response'')
     else Inr \<lparr>aer_term = trm, aer_success = (success \<noteq> 0)\<rparr>))"

section \<open>The cursor reads what was written\<close>

text \<open>
  A cursor is judged by the bytes it has left. Each read either fails or takes exactly the written form of its
  value off the front; the rules below turn a decoder into a description of its input.
\<close>

definition Reader_rest :: "Reader \<Rightarrow> bytes" where
  "Reader_rest r = drop (rd_offset r) (rd_data r)"

definition Reader_ok :: "Reader \<Rightarrow> bool" where
  "Reader_ok r \<longleftrightarrow> rd_offset r \<le> length (rd_data r)"

lemma Reader_new [simp]: "Reader_rest (Reader_new b) = b" "Reader_ok (Reader_new b)"
  by (simp_all add: Reader_rest_def Reader_ok_def Reader_new_def)

lemma Reader_AtEnd_rest: "Reader_ok r \<Longrightarrow> Reader_AtEnd r \<longleftrightarrow> Reader_rest r = []"
  by (auto simp: Reader_AtEnd_def Reader_rest_def Reader_ok_def)

text \<open>
  \<open>decodes f b x\<close>: on any cursor whose bytes start with \<open>b\<close>, the read \<open>f\<close> returns \<open>x\<close> and moves past them.
  \<open>finishes F b v\<close>: on a cursor with exactly the bytes \<open>b\<close> left, the decoder \<open>F\<close> returns \<open>v\<close>.
\<close>

definition decodes :: "(Reader \<Rightarrow> ('a \<times> Reader) Result) \<Rightarrow> bytes \<Rightarrow> 'a \<Rightarrow> bool" where
  "decodes f b x \<longleftrightarrow>
     (\<forall>r rest. Reader_ok r \<longrightarrow> Reader_rest r = b @ rest \<longrightarrow>
        (\<exists>r'. f r = Inr (x, r') \<and> Reader_ok r' \<and> Reader_rest r' = rest))"

definition finishes :: "(Reader \<Rightarrow> 'a Result) \<Rightarrow> bytes \<Rightarrow> 'a \<Rightarrow> bool" where
  "finishes F b v \<longleftrightarrow> (\<forall>r. Reader_ok r \<longrightarrow> Reader_rest r = b \<longrightarrow> F r = Inr v)"

named_theorems decode_intros \<open>composing reads into decoders\<close>

lemma decodes_bind [decode_intros]:
  assumes "decodes f b x" "decodes (g x) c y"
  shows "decodes (\<lambda>r. bind_r (f r) (\<lambda>(x, r). g x r)) (b @ c) y"
  unfolding decodes_def
proof (intro allI impI)
  fix r rest assume "Reader_ok r" "Reader_rest r = (b @ c) @ rest"
  then obtain r1 where "f r = Inr (x, r1)" "Reader_ok r1" "Reader_rest r1 = c @ rest"
    using assms(1) unfolding decodes_def by (metis append_assoc)
  with assms(2) show "\<exists>r'. bind_r (f r) (\<lambda>(x, r). g x r) = Inr (y, r') \<and> Reader_ok r' \<and> Reader_rest r' = rest"
    unfolding decodes_def by simp
qed

lemma decodes_return [decode_intros]: "decodes (\<lambda>r. Inr (y, r)) [] y"
  by (simp add: decodes_def)

lemma finishes_bind [decode_intros]:
  assumes "decodes f b x" "finishes (g x) c v"
  shows "finishes (\<lambda>r. bind_r (f r) (\<lambda>(x, r). g x r)) (b @ c) v"
  unfolding finishes_def
proof (intro allI impI)
  fix r assume "Reader_ok r" "Reader_rest r = b @ c"
  then obtain r1 where "f r = Inr (x, r1)" "Reader_ok r1" "Reader_rest r1 = c"
    using assms(1) unfolding decodes_def by metis
  with assms(2) show "bind_r (f r) (\<lambda>(x, r). g x r) = Inr v"
    unfolding finishes_def by simp
qed

lemma finishes_end [decode_intros]: "finishes (\<lambda>r. if \<not> Reader_AtEnd r then Inl e else Inr v) [] v"
  by (simp add: finishes_def Reader_AtEnd_rest)

lemma finishesD: "finishes F b v \<Longrightarrow> F (Reader_new b) = Inr v"
  by (simp add: finishes_def)

text \<open>
  The contract of one field of a message: reading inverts writing on valid values, and whatever is read was written.
\<close>

locale wire_format =
  fixes rd :: "Reader \<Rightarrow> ('a \<times> Reader) Result"
    and wr :: "'a \<Rightarrow> bytes"
    and valid :: "'a \<Rightarrow> bool"
  assumes complete: "valid x \<Longrightarrow> decodes rd (wr x) x"
    and sound: "Reader_ok r \<Longrightarrow> rd r = Inr (x, r') \<Longrightarrow> valid x \<and> Reader_ok r' \<and> Reader_rest r = wr x @ Reader_rest r'"
begin

lemma encoding_unique:
  assumes "valid x" "valid y" "wr x @ b = wr y @ c"
  shows "x = y \<and> b = c"
proof -
  let ?r = "Reader_new (wr x @ b)"
  obtain r1 where "rd ?r = Inr (x, r1)" "Reader_rest r1 = b"
    using complete [OF assms(1)] unfolding decodes_def by (elim allE [of _ ?r]) auto
  moreover obtain r2 where "rd ?r = Inr (y, r2)" "Reader_rest r2 = c"
    using complete [OF assms(2)] assms(3) unfolding decodes_def by (elim allE [of _ ?r]) auto
  ultimately show ?thesis by auto
qed

end

lemma Reader_step:
  assumes "Reader_ok r" "n \<le> length (Reader_rest r)"
  shows "Reader_ok (r\<lparr>rd_offset := rd_offset r + n\<rparr>)"
    "Reader_rest (r\<lparr>rd_offset := rd_offset r + n\<rparr>) = drop n (Reader_rest r)"
    "rd_offset r + n \<le> length (rd_data r)"
  using assms by (auto simp: Reader_ok_def Reader_rest_def add.commute)

lemma Reader_short:
  "Reader_ok r \<Longrightarrow> rd_offset r + n \<le> length (rd_data r) \<longleftrightarrow> n \<le> length (Reader_rest r)"
  by (auto simp: Reader_ok_def Reader_rest_def)

lemma decodesI:
  assumes "\<And>r rest. Reader_ok r \<Longrightarrow> Reader_rest r = b @ rest \<Longrightarrow> f r = Inr (x, r\<lparr>rd_offset := rd_offset r + length b\<rparr>)"
  shows "decodes f b x"
  unfolding decodes_def using assms Reader_step [of _ "length b"] by auto

interpretation u8: wire_format Reader_ReadU8 "\<lambda>b. [b]" "\<lambda>_. True"
proof
  show "decodes Reader_ReadU8 [x] x" for x
    by (rule decodesI) (auto simp: Reader_ReadU8_def Reader_rest_def nth_via_drop not_less_eq_eq dest: arg_cong [of _ _ length])
  show "True \<and> Reader_ok r' \<and> Reader_rest r = [x] @ Reader_rest r'"
    if "Reader_ok r" "Reader_ReadU8 r = Inr (x, r')" for r x r'
    using that by (auto simp: Reader_ReadU8_def Reader_ok_def Reader_rest_def Cons_nth_drop_Suc split: if_splits)
qed

interpretation u32: wire_format Reader_ReadU32 "WriteU32BE []" "\<lambda>_. True"
proof
  show "decodes Reader_ReadU32 (WriteU32BE [] x) x" for x
    by (rule decodesI) (auto simp: Reader_ReadU32_def Reader_short not_less Reader_rest_def [symmetric] be_simps)
  show "True \<and> Reader_ok r' \<and> Reader_rest r = WriteU32BE [] x @ Reader_rest r'"
    if "Reader_ok r" "Reader_ReadU32 r = Inr (x, r')" for r x r'
  proof -
    have l: "4 \<le> length (Reader_rest r)" and x: "x = ReadU32BE (Reader_rest r)" and r': "r' = r\<lparr>rd_offset := rd_offset r + 4\<rparr>"
      using that by (auto simp: Reader_ReadU32_def Reader_short not_less Reader_rest_def split: if_splits)
    have "WriteU32BE [] x = take 4 (Reader_rest r)"
      using WriteU32BE_Read [of "take 4 (Reader_rest r)" "drop 4 (Reader_rest r)"] l by (simp add: x)
    then show ?thesis using Reader_step [OF that(1) l] r' by simp
  qed
qed

interpretation u64: wire_format Reader_ReadU64 "WriteU64BE []" "\<lambda>_. True"
proof
  show "decodes Reader_ReadU64 (WriteU64BE [] x) x" for x
    by (rule decodesI) (auto simp: Reader_ReadU64_def Reader_short not_less Reader_rest_def [symmetric] be_simps)
  show "True \<and> Reader_ok r' \<and> Reader_rest r = WriteU64BE [] x @ Reader_rest r'"
    if "Reader_ok r" "Reader_ReadU64 r = Inr (x, r')" for r x r'
  proof -
    have l: "8 \<le> length (Reader_rest r)" and x: "x = ReadU64BE (Reader_rest r)" and r': "r' = r\<lparr>rd_offset := rd_offset r + 8\<rparr>"
      using that by (auto simp: Reader_ReadU64_def Reader_short not_less Reader_rest_def split: if_splits)
    have "WriteU64BE [] x = take 8 (Reader_rest r)"
      using WriteU64BE_Read [of "take 8 (Reader_rest r)" "drop 8 (Reader_rest r)"] l by (simp add: x)
    then show ?thesis using Reader_step [OF that(1) l] r' by simp
  qed
qed

interpretation raw: wire_format "Reader_ReadBytes len" "\<lambda>b. b" "\<lambda>b. length b = unat len" for len
proof
  show "decodes (Reader_ReadBytes len) x x" if "length x = unat len" for x
    by (rule decodesI) (use that in \<open>auto simp: Reader_ReadBytes_def Reader_short not_less Reader_rest_def [symmetric]\<close>)
  show "length x = unat len \<and> Reader_ok r' \<and> Reader_rest r = x @ Reader_rest r'"
    if "Reader_ok r" "Reader_ReadBytes len r = Inr (x, r')" for r x r'
    using that Reader_step [OF that(1), of "unat len"]
    by (auto simp: Reader_ReadBytes_def Reader_short not_less Reader_rest_def [symmetric] split: if_splits)
qed

lemmas primitive_decodes [decode_intros] = u8.complete [OF TrueI] u32.complete [OF TrueI] u64.complete [OF TrueI] raw.complete
lemmas primitive_sound = u8.sound u32.sound u64.sound raw.sound

section \<open>Entries\<close>

definition LogEntryBytes :: "LogEntry \<Rightarrow> bytes" where
  "LogEntryBytes e = EncodeLogEntry e []"

definition LogEntryFits :: "LogEntry \<Rightarrow> bool" where
  "LogEntryFits e \<longleftrightarrow> length (e_key e) < 2 ^ 32 \<and> length (e_value e) < 2 ^ 32"

lemma LogEntryBytes_eq:
  "LogEntryBytes e = WriteU64BE [] (e_term e) @ WriteU64BE [] (e_index e) @ [WalOp_byte (e_op e)]
     @ WriteU32BE [] (of_nat (length (e_key e))) @ e_key e @ WriteU32BE [] (of_nat (length (e_value e))) @ e_value e @ []"
  unfolding LogEntryBytes_def EncodeLogEntry_def Let_def WriteU8_def
  by (simp only: WriteU64BE_append [of "WriteU64BE [] (e_term e)"] WriteU32BE_append [of "_ @ _"] append_assoc append_Nil2)

lemma EncodeLogEntry_append: "EncodeLogEntry e buf = buf @ LogEntryBytes e"
  unfolding LogEntryBytes_eq EncodeLogEntry_def Let_def WriteU8_def
  by (simp only: WriteU64BE_append [of buf] WriteU64BE_append [of "_ @ _"] WriteU32BE_append [of "_ @ _"] append_assoc append_Nil2)

lemma fold_EncodeLogEntry: "fold EncodeLogEntry es buf = buf @ concat (map LogEntryBytes es)"
  by (induction es arbitrary: buf) (simp_all add: EncodeLogEntry_append)

lemma unat_of_nat_fits [simp]: "n < 2 ^ 32 \<Longrightarrow> unat (of_nat n :: u32) = n"
  by (simp add: unsigned_of_nat take_bit_nat_eq_self)

interpretation entry: wire_format DecodeLogEntry LogEntryBytes LogEntryFits
proof
  show "decodes DecodeLogEntry (LogEntryBytes x) x" if "LogEntryFits x" for x
  proof -
    have op: "\<not> (WalOp_byte (e_op x) \<noteq> WalOp_byte WalOp_kSet \<and> WalOp_byte (e_op x) \<noteq> WalOp_byte WalOp_kDelete)"
      "(if WalOp_byte (e_op x) = WalOp_byte WalOp_kSet then WalOp_kSet else WalOp_kDelete) = e_op x"
      by (cases "e_op x"; simp)+
    have len: "length (e_key x) = unat (of_nat (length (e_key x)) :: u32)" "length (e_value x) = unat (of_nat (length (e_value x)) :: u32)"
      using that by (simp_all add: LogEntryFits_def)
    have "decodes DecodeLogEntry (LogEntryBytes x) \<lparr>e_term = e_term x, e_index = e_index x, e_op = e_op x, e_key = e_key x, e_value = e_value x\<rparr>"
      unfolding DecodeLogEntry_def LogEntryBytes_eq
      by (rule decode_intros)+ (simp only: op if_False, (rule decode_intros len)+)
    then show ?thesis by (cases x) simp
  qed
  show "LogEntryFits x \<and> Reader_ok r' \<and> Reader_rest r = LogEntryBytes x @ Reader_rest r'"
    if ok: "Reader_ok r" and d: "DecodeLogEntry r = Inr (x, r')" for r x r'
  proof -
    have lt: "unat (w :: u32) < 2 ^ 32" for w using unsigned_less [of w] by simp
    from d obtain t r1 i r2 b r3 kl r4 k r5 vl r6 v where
      s: "Reader_ReadU64 r = Inr (t, r1)" "Reader_ReadU64 r1 = Inr (i, r2)" "Reader_ReadU8 r2 = Inr (b, r3)"
        "b = WalOp_byte WalOp_kSet \<or> b = WalOp_byte WalOp_kDelete"
        "Reader_ReadU32 r3 = Inr (kl, r4)" "Reader_ReadBytes kl r4 = Inr (k, r5)"
        "Reader_ReadU32 r5 = Inr (vl, r6)" "Reader_ReadBytes vl r6 = Inr (v, r')"
        "x = \<lparr>e_term = t, e_index = i, e_op = (if b = WalOp_byte WalOp_kSet then WalOp_kSet else WalOp_kDelete), e_key = k, e_value = v\<rparr>"
      unfolding DecodeLogEntry_def by (auto simp: bind_r_eq_Inr_iff split: if_splits)
    note p1 = u64.sound [OF ok s(1)] note p2 = u64.sound [OF _ s(2)] note p3 = u8.sound [OF _ s(3)]
    note p4 = u32.sound [OF _ s(5)] note p5 = raw.sound [OF _ s(6)] note p6 = u32.sound [OF _ s(7)] note p7 = raw.sound [OF _ s(8)]
    have ok': "Reader_ok r1" "Reader_ok r2" "Reader_ok r3" "Reader_ok r4" "Reader_ok r5" "Reader_ok r6" "Reader_ok r'"
      using p1 p2 p3 p4 p5 p6 p7 by blast+
    have "WalOp_byte (e_op x) = b" using s(4,9) by auto
    moreover have "length k = unat kl" "length v = unat vl" using p5 p7 ok' by blast+
    moreover have "(of_nat (length k) :: u32) = kl" "(of_nat (length v) :: u32) = vl"
      using p5 [OF ok'(4)] p7 [OF ok'(6)] by simp_all
    ultimately show ?thesis
      using p1 p2 [OF ok'(1)] p3 [OF ok'(2)] p4 [OF ok'(3)] p5 [OF ok'(4)] p6 [OF ok'(5)] p7 [OF ok'(6)] lt s(9)
      by (simp add: LogEntryBytes_eq LogEntryFits_def)
  qed
qed

lemma DecodeLogEntries_complete:
  "list_all LogEntryFits es \<Longrightarrow> decodes (DecodeLogEntries (length es)) (concat (map LogEntryBytes es)) es"
proof (induction es)
  case Nil
  show ?case by (simp add: decodes_def)
next
  case (Cons e es)
  have "decodes (\<lambda>r. bind_r (DecodeLogEntry r) (\<lambda>(entry, r).
      bind_r (DecodeLogEntries (length es) r) (\<lambda>(entries, r). Inr (entry # entries, r))))
      (LogEntryBytes e @ concat (map LogEntryBytes es) @ []) (e # es)"
    by (rule decodes_bind [OF entry.complete decodes_bind [OF Cons.IH decodes_return]]) (use Cons.prems in simp_all)
  then show ?case by (simp add: decodes_def)
qed

lemma DecodeLogEntries_sound:
  "DecodeLogEntries n r = Inr (es, r') \<Longrightarrow> Reader_ok r \<Longrightarrow>
     length es = n \<and> list_all LogEntryFits es \<and> Reader_ok r' \<and> Reader_rest r = concat (map LogEntryBytes es) @ Reader_rest r'"
proof (induction n arbitrary: r es)
  case (Suc n)
  then obtain e r1 es1 where "DecodeLogEntry r = Inr (e, r1)" "DecodeLogEntries n r1 = Inr (es1, r')" "es = e # es1"
    by (auto simp: bind_r_eq_Inr_iff)
  with Suc.IH [of r1 es1] entry.sound [OF Suc.prems(2)] show ?case by fastforce
qed simp

section \<open>Whole messages\<close>

definition AppendEntriesFits :: "AppendEntriesRequest \<Rightarrow> bool" where
  "AppendEntriesFits req \<longleftrightarrow> length (ae_entries req) < 2 ^ 32 \<and> list_all LogEntryFits (ae_entries req)"

lemma EncodeAppendEntriesRequest_eq:
  "EncodeAppendEntriesRequest req =
     WriteU64BE [] (ae_term req) @ WriteU32BE [] (ae_leader_id req) @ WriteU64BE [] (ae_prev_log_index req)
     @ WriteU64BE [] (ae_prev_log_term req) @ WriteU64BE [] (ae_leader_commit req)
     @ WriteU32BE [] (of_nat (length (ae_entries req))) @ concat (map LogEntryBytes (ae_entries req)) @ []"
  unfolding EncodeAppendEntriesRequest_def Let_def fold_EncodeLogEntry
  by (simp only: WriteU32BE_append [of "WriteU64BE [] _"] WriteU64BE_append [of "_ @ _"] WriteU32BE_append [of "_ @ _"]
      append_assoc append_Nil2)

lemma EncodeRequestVoteRequest_eq:
  "EncodeRequestVoteRequest req =
     WriteU64BE [] (rv_term req) @ WriteU32BE [] (rv_candidate_id req) @ WriteU64BE [] (rv_last_log_index req)
     @ WriteU64BE [] (rv_last_log_term req) @ []"
  unfolding EncodeRequestVoteRequest_def Let_def
  by (simp only: WriteU32BE_append [of "WriteU64BE [] _"] WriteU64BE_append [of "_ @ _"] append_assoc append_Nil2)

lemma append_request_complete:
  assumes "AppendEntriesFits req"
  shows "DecodeAppendEntriesRequest (EncodeAppendEntriesRequest req) = Inr req"
proof -
  have n: "unat (of_nat (length (ae_entries req)) :: u32) = length (ae_entries req)"
    using assms by (simp add: AppendEntriesFits_def)
  have "finishes (\<lambda>r. bind_r (Reader_ReadU64 r) (\<lambda>(trm, r).
     bind_r (Reader_ReadU32 r) (\<lambda>(leader_id, r).
     bind_r (Reader_ReadU64 r) (\<lambda>(prev_log_index, r).
     bind_r (Reader_ReadU64 r) (\<lambda>(prev_log_term, r).
     bind_r (Reader_ReadU64 r) (\<lambda>(leader_commit, r).
     bind_r (Reader_ReadU32 r) (\<lambda>(entry_count, r).
     bind_r (DecodeLogEntries (unat entry_count) r) (\<lambda>(entries, r).
     if \<not> Reader_AtEnd r then
       Inl (Status_Error ErrorCode_kInvalidArgument ''trailing bytes in AppendEntries request'')
     else Inr \<lparr>ae_term = trm, ae_leader_id = leader_id, ae_prev_log_index = prev_log_index,
                ae_prev_log_term = prev_log_term, ae_leader_commit = leader_commit, ae_entries = entries\<rparr>))))))))
     (EncodeAppendEntriesRequest req)
     \<lparr>ae_term = ae_term req, ae_leader_id = ae_leader_id req, ae_prev_log_index = ae_prev_log_index req,
      ae_prev_log_term = ae_prev_log_term req, ae_leader_commit = ae_leader_commit req, ae_entries = ae_entries req\<rparr>"
    unfolding EncodeAppendEntriesRequest_eq
    by (rule decode_intros)+ (simp only: n, (rule decode_intros DecodeLogEntries_complete)+,
        use assms in \<open>simp add: AppendEntriesFits_def\<close>, rule decode_intros)
  from finishesD [OF this] show ?thesis by (simp add: DecodeAppendEntriesRequest_def)
qed

lemma append_request_sound:
  assumes "DecodeAppendEntriesRequest b = Inr req"
  shows "AppendEntriesFits req \<and> b = EncodeAppendEntriesRequest req"
proof -
  from assms obtain t r1 l r2 pi r3 pt r4 lc r5 n r6 es r7 where
    s: "Reader_ReadU64 (Reader_new b) = Inr (t, r1)" "Reader_ReadU32 r1 = Inr (l, r2)" "Reader_ReadU64 r2 = Inr (pi, r3)"
      "Reader_ReadU64 r3 = Inr (pt, r4)" "Reader_ReadU64 r4 = Inr (lc, r5)" "Reader_ReadU32 r5 = Inr (n, r6)"
      "DecodeLogEntries (unat n) r6 = Inr (es, r7)" "Reader_AtEnd r7"
      "req = \<lparr>ae_term = t, ae_leader_id = l, ae_prev_log_index = pi, ae_prev_log_term = pt, ae_leader_commit = lc, ae_entries = es\<rparr>"
    unfolding DecodeAppendEntriesRequest_def by (auto simp: bind_r_eq_Inr_iff split: if_splits)
  note p1 = u64.sound [OF Reader_new(2) s(1)] note p2 = u32.sound [OF _ s(2)] note p3 = u64.sound [OF _ s(3)]
  note p4 = u64.sound [OF _ s(4)] note p5 = u64.sound [OF _ s(5)] note p6 = u32.sound [OF _ s(6)] note p7 = DecodeLogEntries_sound [OF s(7)]
  have ok: "Reader_ok r1" "Reader_ok r2" "Reader_ok r3" "Reader_ok r4" "Reader_ok r5" "Reader_ok r6" "Reader_ok r7"
    using p1 p2 p3 p4 p5 p6 p7 by blast+
  have n: "(of_nat (length es) :: u32) = n" "length es < 2 ^ 32"
    using p7 [OF ok(6)] unsigned_less [of n] by simp_all
  show ?thesis
    using p1 p2 [OF ok(1)] p3 [OF ok(2)] p4 [OF ok(3)] p5 [OF ok(4)] p6 [OF ok(5)] p7 [OF ok(6)] n
      Reader_AtEnd_rest [OF ok(7)] s(8,9)
    by (simp add: EncodeAppendEntriesRequest_eq AppendEntriesFits_def)
qed

lemma vote_request_complete: "DecodeRequestVoteRequest (EncodeRequestVoteRequest req) = Inr req"
proof -
  have "finishes (\<lambda>r. bind_r (Reader_ReadU64 r) (\<lambda>(trm, r).
     bind_r (Reader_ReadU32 r) (\<lambda>(candidate_id, r).
     bind_r (Reader_ReadU64 r) (\<lambda>(last_log_index, r).
     bind_r (Reader_ReadU64 r) (\<lambda>(last_log_term, r).
     if \<not> Reader_AtEnd r then
       Inl (Status_Error ErrorCode_kInvalidArgument ''trailing bytes in RequestVote request'')
     else Inr \<lparr>rv_term = trm, rv_candidate_id = candidate_id, rv_last_log_index = last_log_index,
                rv_last_log_term = last_log_term\<rparr>)))))
     (EncodeRequestVoteRequest req)
     \<lparr>rv_term = rv_term req, rv_candidate_id = rv_candidate_id req, rv_last_log_index = rv_last_log_index req,
      rv_last_log_term = rv_last_log_term req\<rparr>"
    unfolding EncodeRequestVoteRequest_eq by (rule decode_intros)+
  from finishesD [OF this] show ?thesis by (simp add: DecodeRequestVoteRequest_def)
qed

lemma vote_request_sound:
  assumes "DecodeRequestVoteRequest b = Inr req"
  shows "b = EncodeRequestVoteRequest req"
proof -
  from assms obtain t r1 c r2 li r3 lt r4 where
    s: "Reader_ReadU64 (Reader_new b) = Inr (t, r1)" "Reader_ReadU32 r1 = Inr (c, r2)" "Reader_ReadU64 r2 = Inr (li, r3)"
      "Reader_ReadU64 r3 = Inr (lt, r4)" "Reader_AtEnd r4"
      "req = \<lparr>rv_term = t, rv_candidate_id = c, rv_last_log_index = li, rv_last_log_term = lt\<rparr>"
    unfolding DecodeRequestVoteRequest_def by (auto simp: bind_r_eq_Inr_iff split: if_splits)
  note p1 = u64.sound [OF Reader_new(2) s(1)] note p2 = u32.sound [OF _ s(2)] note p3 = u64.sound [OF _ s(3)]
  note p4 = u64.sound [OF _ s(4)]
  have ok: "Reader_ok r1" "Reader_ok r2" "Reader_ok r3" "Reader_ok r4" using p1 p2 p3 p4 by blast+
  show ?thesis
    using p1 p2 [OF ok(1)] p3 [OF ok(2)] p4 [OF ok(3)] Reader_AtEnd_rest [OF ok(4)] s(5,6)
    by (simp add: EncodeRequestVoteRequest_eq)
qed

lemma flag_response_complete:
  "bind_r (Reader_ReadU64 (Reader_new (WriteU64BE [] t @ [b]))) (\<lambda>(trm, r). bind_r (Reader_ReadU8 r) (\<lambda>(b, r).
     if \<not> Reader_AtEnd r then Inl e else Inr (C trm b))) = Inr (C t b)"
proof -
  have "finishes (\<lambda>r. bind_r (Reader_ReadU64 r) (\<lambda>(trm, r). bind_r (Reader_ReadU8 r) (\<lambda>(b, r).
      if \<not> Reader_AtEnd r then Inl e else Inr (C trm b)))) (WriteU64BE [] t @ [b] @ []) (C t b)"
    by (rule decode_intros)+
  from finishesD [OF this] show ?thesis by simp
qed

lemma response_complete:
  "DecodeRequestVoteResponse (EncodeRequestVoteResponse resp) = Inr resp"
  "DecodeAppendEntriesResponse (EncodeAppendEntriesResponse aresp) = Inr aresp"
  unfolding DecodeRequestVoteResponse_def EncodeRequestVoteResponse_def DecodeAppendEntriesResponse_def
    EncodeAppendEntriesResponse_def WriteU8_def Let_def
  by (subst flag_response_complete [where C = "\<lambda>t g. \<lparr>rvr_term = t, rvr_vote_granted = (g \<noteq> 0)\<rparr>"], simp)
    (subst flag_response_complete [where C = "\<lambda>t g. \<lparr>aer_term = t, aer_success = (g \<noteq> 0)\<rparr>"], simp)

lemma flag_response_sound:
  assumes "bind_r (Reader_ReadU64 (Reader_new inp)) (\<lambda>(trm, r). bind_r (Reader_ReadU8 r) (\<lambda>(b, r).
     if \<not> Reader_AtEnd r then Inl e else Inr (C trm b))) = Inr v"
  obtains t b where "inp = WriteU64BE [] t @ [b]" "v = C t b"
proof -
  from assms obtain t r1 b r2 where s: "Reader_ReadU64 (Reader_new inp) = Inr (t, r1)" "Reader_ReadU8 r1 = Inr (b, r2)" "Reader_AtEnd r2" "v = C t b"
    by (auto simp: bind_r_eq_Inr_iff split: if_splits)
  note p1 = u64.sound [OF Reader_new(2) s(1)] note p2 = u8.sound [OF _ s(2)]
  have ok: "Reader_ok r1" "Reader_ok r2" using p1 p2 by blast+
  show thesis using that p1 p2 [OF ok(1)] Reader_AtEnd_rest [OF ok(2)] s(3,4) by simp
qed

lemma vote_response_decodes:
  "DecodeRequestVoteResponse b = Inr resp \<longleftrightarrow> (\<exists>flag. b = WriteU64BE [] (rvr_term resp) @ [flag] \<and> rvr_vote_granted resp = (flag \<noteq> 0))"
proof
  assume "DecodeRequestVoteResponse b = Inr resp"
  then obtain t g where "b = WriteU64BE [] t @ [g]" "resp = \<lparr>rvr_term = t, rvr_vote_granted = (g \<noteq> 0)\<rparr>"
    unfolding DecodeRequestVoteResponse_def by (rule flag_response_sound)
  then show "\<exists>flag. b = WriteU64BE [] (rvr_term resp) @ [flag] \<and> rvr_vote_granted resp = (flag \<noteq> 0)" by auto
qed (auto simp: DecodeRequestVoteResponse_def flag_response_complete)

lemma append_response_decodes:
  "DecodeAppendEntriesResponse b = Inr resp \<longleftrightarrow> (\<exists>flag. b = WriteU64BE [] (aer_term resp) @ [flag] \<and> aer_success resp = (flag \<noteq> 0))"
proof
  assume "DecodeAppendEntriesResponse b = Inr resp"
  then obtain t g where "b = WriteU64BE [] t @ [g]" "resp = \<lparr>aer_term = t, aer_success = (g \<noteq> 0)\<rparr>"
    unfolding DecodeAppendEntriesResponse_def by (rule flag_response_sound)
  then show "\<exists>flag. b = WriteU64BE [] (aer_term resp) @ [flag] \<and> aer_success resp = (flag \<noteq> 0)" by auto
qed (auto simp: DecodeAppendEntriesResponse_def flag_response_complete)

section \<open>Properties\<close>

text \<open>
  C22. The Raft RPC bodies round-trip. Decoding a body yields an AppendEntries request if and only if the request's
  lengths fit their 32-bit fields and the body is what the encoder writes for it; the same holds for RequestVote requests. Both kinds of
  response are read back as they were written, and what decodes as a response is exactly a big-endian term followed by one byte, whose value
  the flag of the response tells from zero: of the 255 non-zero bytes the encoder writes only 1, and all of them decode.
\<close>

theorem raft_rpc_roundtrip:
  "(DecodeAppendEntriesRequest b = Inr areq \<longleftrightarrow> AppendEntriesFits areq \<and> b = EncodeAppendEntriesRequest areq)
   \<and> (DecodeRequestVoteRequest b = Inr vreq \<longleftrightarrow> b = EncodeRequestVoteRequest vreq)
   \<and> DecodeAppendEntriesResponse (EncodeAppendEntriesResponse aresp) = Inr aresp
   \<and> DecodeRequestVoteResponse (EncodeRequestVoteResponse vresp) = Inr vresp
   \<and> (DecodeAppendEntriesResponse b = Inr aresp \<longleftrightarrow> (\<exists>flag. b = WriteU64BE [] (aer_term aresp) @ [flag] \<and> aer_success aresp = (flag \<noteq> 0)))
   \<and> (DecodeRequestVoteResponse b = Inr vresp \<longleftrightarrow> (\<exists>flag. b = WriteU64BE [] (rvr_term vresp) @ [flag] \<and> rvr_vote_granted vresp = (flag \<noteq> 0)))"
  by (intro conjI append_response_decodes vote_response_decodes response_complete)
    (use append_request_complete append_request_sound vote_request_complete vote_request_sound in blast)+

end
