(* ===== verification/Raft_Log.thy ===== *)
theory Raft_Log
  imports Raft_Rpc_Codec Durable_Storage
begin

text \<open>
  \<^verbatim>\<open>raft/log.{h,cpp}\<close>: the Raft log, a vector of entries kept in step with the write-ahead log. The borrowed
  \<^verbatim>\<open>WalWriter\<close> is passed in and returned. \<open>None\<close> stands for a \<^verbatim>\<open>Sync\<close> that never returns, which the invariant excludes.
\<close>

section \<open>The log\<close>

record Log =
  log_entries :: "LogEntry list"

definition record_of_entry :: "LogEntry \<Rightarrow> WalRecord" where
  "record_of_entry e =
     \<lparr>w_term = e_term e, w_index = e_index e, w_op = e_op e, w_key = e_key e, w_value = e_value e\<rparr>"

definition entry_of_record :: "WalRecord \<Rightarrow> LogEntry" where
  "entry_of_record r =
     \<lparr>e_term = w_term r, e_index = w_index r, e_op = w_op r, e_key = w_key r, e_value = w_value r\<rparr>"

definition Log_Load :: "string \<Rightarrow> bytes \<Rightarrow> sys list \<Rightarrow> Status \<times> Log \<times> sys list" where
  "Log_Load data_dir file os =
     (let wal_path = data_dir @ ''/wal/wal.log''; c = sys_call os in
      case fst c of
        Some e \<Rightarrow>
          if e = errno_ENOENT then (Status_Ok, \<lparr>log_entries = []\<rparr>, snd c)
          else (Status_Error ErrorCode_kIOError (''open '' @ wal_path @ '': '' @ e), \<lparr>log_entries = []\<rparr>, snd c)
      | None \<Rightarrow>
          (case WalScan (\<lambda>es record. es @ [entry_of_record record]) [] \<lparr>fd_rest = file, fd_os = snd c\<rparr> of
             (st, es, fd) \<Rightarrow> (st, \<lparr>log_entries = es\<rparr>, fd_os fd)))"

definition Log_Append :: "Log \<Rightarrow> WalWriter \<Rightarrow> LogEntry \<Rightarrow> (Status \<times> LogEntry \<times> Log \<times> WalWriter) option" where
  "Log_Append log wal entry =
     (let record = \<lparr>w_term = e_term entry, w_index = 0, w_op = e_op entry, w_key = e_key entry, w_value = e_value entry\<rparr> in
      case WalWriter_Append wal record of
        (Inl e, wal) \<Rightarrow> Some (e, entry, log, wal)
      | (Inr index, wal) \<Rightarrow>
          (case WalWriter_Sync wal index of
             None \<Rightarrow> None
           | Some (status, wal) \<Rightarrow>
               if \<not> ok status then Some (status, entry, log, wal)
               else
                 let entry = entry\<lparr>e_index := index\<rparr> in
                 Some (Status_Ok, entry, log\<lparr>log_entries := log_entries log @ [entry]\<rparr>, wal)))"

text \<open>\<^verbatim>\<open>while (!entries_.empty() && entries_.back().index >= from_index) entries_.pop_back();\<close>\<close>

definition pop_from :: "u64 \<Rightarrow> LogEntry list \<Rightarrow> LogEntry list" where
  "pop_from from_index es = rev (dropWhile (\<lambda>e. e_index e \<ge> from_index) (rev es))"

definition Log_TruncateFrom :: "Log \<Rightarrow> WalWriter \<Rightarrow> u64 \<Rightarrow> Status \<times> Log \<times> WalWriter" where
  "Log_TruncateFrom log wal from_index =
     (if from_index = 0 then
        (Status_Error ErrorCode_kInvalidArgument ''TruncateFrom(0) would drop the entire log'', log, wal)
      else
        let log = log\<lparr>log_entries := pop_from from_index (log_entries log)\<rparr>;
            kept = map record_of_entry (log_entries log) in
        case WalWriter_RewriteAll wal kept of (status, wal) \<Rightarrow> (status, log, wal))"

definition Log_Get :: "Log \<Rightarrow> u64 \<Rightarrow> LogEntry option" where
  "Log_Get log index =
     (if index = 0 \<or> unat index > length (log_entries log) then None
      else
        let entry = log_entries log ! (unat index - 1) in
        if e_index entry \<noteq> index then None else Some entry)"

definition Log_EntriesFrom :: "Log \<Rightarrow> u64 \<Rightarrow> LogEntry list" where
  "Log_EntriesFrom log index =
     (if index = 0 \<or> unat index > length (log_entries log) then []
      else drop (unat index - 1) (log_entries log))"

definition Log_LastIndex :: "Log \<Rightarrow> u64" where
  "Log_LastIndex log = (if log_entries log = [] then 0 else e_index (last (log_entries log)))"

definition Log_LastTerm :: "Log \<Rightarrow> u64" where
  "Log_LastTerm log = (if log_entries log = [] then 0 else e_term (last (log_entries log)))"

section \<open>Contiguous logs\<close>

text \<open>\<^verbatim>\<open>entries_[i] holds index i+1\<close>\<close>

definition contiguous :: "LogEntry list \<Rightarrow> bool" where
  "contiguous es \<longleftrightarrow> length es < 2 ^ 64 \<and> (\<forall>k < length es. unat (e_index (es ! k)) = Suc k)"

lemma contiguous_Nil [simp]: "contiguous []"
  by (simp add: contiguous_def)

lemma contiguous_take: "contiguous es \<Longrightarrow> contiguous (take n es)"
  by (auto simp: contiguous_def)

lemma contiguous_snoc:
  "contiguous (es @ [e]) \<longleftrightarrow> contiguous es \<and> length es + 1 < 2 ^ 64 \<and> unat (e_index e) = Suc (length es)"
  by (auto simp: contiguous_def nth_append less_Suc_eq)

lemma Log_LastIndex_contiguous: "contiguous (log_entries log) \<Longrightarrow> unat (Log_LastIndex log) = length (log_entries log)"
  by (auto simp: Log_LastIndex_def contiguous_def last_conv_nth)

lemma Log_Get_contiguous:
  assumes "contiguous (log_entries log)"
  shows "Log_Get log i = (if 0 < unat i \<and> unat i \<le> length (log_entries log) then Some (log_entries log ! (unat i - 1)) else None)"
proof -
  have "e_index (log_entries log ! (unat i - 1)) = i" if "0 < unat i" "unat i \<le> length (log_entries log)"
  proof (rule word_unat_eq_iff [THEN iffD2])
    show "unat (e_index (log_entries log ! (unat i - 1))) = unat i"
      using assms that by (simp add: contiguous_def)
  qed
  then show ?thesis by (auto simp: Log_Get_def Let_def unat_gt_0)
qed

lemma Log_Get_index: "Log_Get log i = Some e \<Longrightarrow> e_index e = i"
  by (auto simp: Log_Get_def Let_def split: if_splits)

lemma pop_from_contiguous:
  assumes "contiguous es" "from \<noteq> 0"
  shows "pop_from from es = take (unat from - 1) es"
  using assms(1)
proof (induction es rule: rev_induct)
  case Nil
  show ?case by (simp add: pop_from_def)
next
  case (snoc e es)
  then have e: "unat (e_index e) = Suc (length es)" and es: "contiguous es" by (simp_all add: contiguous_snoc)
  have f: "unat from > 0" using assms(2) by (simp add: unat_gt_0)
  show ?case
  proof (cases "from \<le> e_index e")
    case True
    then have "unat from - 1 \<le> length es" using e by (simp add: word_le_nat_alt)
    moreover have "pop_from from (es @ [e]) = pop_from from es" using True by (simp add: pop_from_def)
    ultimately show ?thesis using snoc.IH [OF es] by simp
  next
    case False
    then have "length (es @ [e]) \<le> unat from - 1" using e by (simp add: word_le_nat_alt)
    then show ?thesis using False by (simp add: pop_from_def)
  qed
qed

section \<open>The log and the write-ahead log in step\<close>

definition EntryValid :: "LogEntry \<Rightarrow> bool" where
  "EntryValid e \<longleftrightarrow> WalRecordValid (record_of_entry e)"

definition wal_in_step :: "LogEntry list \<Rightarrow> WalWriter \<Rightarrow> bool" where
  "wal_in_step es wal \<longleftrightarrow>
     ok (ww_open_status wal) \<and> \<not> ww_flush_in_progress wal
     \<and> ww_file wal = WalLog (map record_of_entry es) \<and> ww_disk wal = ww_file wal
     \<and> unat (ww_last_index wal) = length es \<and> ww_synced_index wal = ww_last_index wal"

definition Log_inv :: "Log \<Rightarrow> WalWriter \<Rightarrow> bool" where
  "Log_inv log wal \<longleftrightarrow> contiguous (log_entries log) \<and> list_all EntryValid (log_entries log) \<and> wal_in_step (log_entries log) wal"

lemma entry_record_inverse [simp]: "entry_of_record (record_of_entry e) = e"
  by (simp add: entry_of_record_def record_of_entry_def)

lemma EntryValid_index [simp]: "EntryValid (e\<lparr>e_index := i\<rparr>) = EntryValid e"
  by (simp add: EntryValid_def record_of_entry_def WalRecordValid_def)

lemma Log_Append_returns:
  assumes "ok (ww_open_status wal)" "\<not> ww_flush_in_progress wal" "ww_synced_index wal = ww_last_index wal"
    "unat (ww_last_index wal) + 1 < 2 ^ 64"
  shows "Log_Append log wal entry \<noteq> None"
proof -
  let ?r = "\<lparr>w_term = e_term entry, w_index = 0, w_op = e_op entry, w_key = e_key entry, w_value = e_value entry\<rparr>"
  obtain res wal1 where a: "WalWriter_Append wal ?r = (res, wal1)" by fastforce
  show ?thesis
  proof (cases res)
    case (Inr i)
    then obtain os where "i = ww_last_index wal + 1"
      "wal1 = wal\<lparr>ww_file := ww_file wal @ WalBytes (?r\<lparr>w_index := i\<rparr>), ww_os := os, ww_last_index := i\<rparr>"
      using Append_Inr a by blast
    moreover have "ww_last_index wal < ww_last_index wal + 1"
      using assms(4) by (simp add: word_less_nat_alt unat_word_ariths)
    ultimately have "WalWriter_Sync wal1 i = Some (Sync_flush (Sync_lead wal1) i)"
      using assms by (intro Sync_alone) simp_all
    then show ?thesis using a Inr by (simp add: Log_Append_def Let_def split: prod.split)
  qed (use a in \<open>simp add: Log_Append_def\<close>)
qed

lemma Log_Append_ok:
  assumes inv: "Log_inv log wal" and v: "EntryValid entry" and b: "length (log_entries log) + 1 < 2 ^ 64"
    and a: "Log_Append log wal entry = Some (st, entry', log', wal')" and "ok st"
  shows "entry' = entry\<lparr>e_index := of_nat (Suc (length (log_entries log)))\<rparr>"
    "log' = \<lparr>log_entries = log_entries log @ [entry']\<rparr>" "Log_inv log' wal'"
proof -
  let ?r = "\<lparr>w_term = e_term entry, w_index = 0, w_op = e_op entry, w_key = e_key entry, w_value = e_value entry\<rparr>"
  have w: "ok (ww_open_status wal)" "\<not> ww_flush_in_progress wal" "ww_synced_index wal = ww_last_index wal"
      "unat (ww_last_index wal) = length (log_entries log)"
      "ww_file wal = WalLog (map record_of_entry (log_entries log))"
    using inv by (auto simp: Log_inv_def wal_in_step_def)
  obtain i wal1 where app: "WalWriter_Append wal ?r = (Inr i, wal1)"
    using a \<open>ok st\<close> by (auto simp: Log_Append_def Let_def split: prod.splits sum.splits elim!: Append_Inl)
  then obtain os where i: "i = ww_last_index wal + 1" and
    wal1: "wal1 = wal\<lparr>ww_file := ww_file wal @ WalBytes (?r\<lparr>w_index := i\<rparr>), ww_os := os, ww_last_index := i\<rparr>"
    by (rule Append_Inr)
  have ui: "unat i = Suc (length (log_entries log))" using b w(4) by (simp add: i unat_word_ariths)
  have "ww_synced_index wal1 < i" using w(3,4) ui by (simp add: wal1 word_less_nat_alt)
  then have sy: "WalWriter_Sync wal1 i = Some (Sync_flush (Sync_lead wal1) i)"
    using w(1,2) by (intro Sync_alone) (simp_all add: wal1)
  obtain st2 wal2 where f: "Sync_flush (Sync_lead wal1) i = (st2, wal2)" by fastforce
  have st2: "ok st2" and e: "entry' = entry\<lparr>e_index := i\<rparr>" and l: "log' = log\<lparr>log_entries := log_entries log @ [entry']\<rparr>"
    and wal': "wal' = wal2"
    using a \<open>ok st\<close> app sy f by (auto simp: Log_Append_def Let_def split: if_splits)
  have "i = of_nat (Suc (length (log_entries log)))" by (simp add: ui [symmetric])
  then show "entry' = entry\<lparr>e_index := of_nat (Suc (length (log_entries log)))\<rparr>" by (simp add: e)
  show "log' = \<lparr>log_entries = log_entries log @ [entry']\<rparr>" using l by (cases log) simp
  have "record_of_entry entry' = ?r\<lparr>w_index := i\<rparr>" by (simp add: e record_of_entry_def)
  moreover from f st2 have "wal_in_step (log_entries log @ [entry']) wal2 \<longleftrightarrow> True"
    by (cases rule: Sync_flush_cases) (use w ui in \<open>auto simp: wal_in_step_def Sync_lead_def wal1 calculation\<close>)
  ultimately show "Log_inv log' wal'"
    using inv v ui b by (simp add: Log_inv_def l wal' contiguous_snoc e)
qed

lemma Log_TruncateFrom_ok:
  assumes inv: "Log_inv log wal" and f: "from \<noteq> 0" and t: "Log_TruncateFrom log wal from = (st, log', wal')" and "ok st"
  shows "log_entries log' = take (unat from - 1) (log_entries log)" "Log_inv log' wal'"
proof -
  define ks where "ks = take (unat from - 1) (log_entries log)"
  have c: "contiguous (log_entries log)" and v: "list_all EntryValid (log_entries log)" and w: "wal_in_step (log_entries log) wal"
    using inv by (simp_all add: Log_inv_def)
  have p: "pop_from from (log_entries log) = ks" unfolding ks_def by (rule pop_from_contiguous [OF c f])
  obtain st1 wal1 where r: "WalWriter_RewriteAll wal (map record_of_entry ks) = (st1, wal1)" by fastforce
  then have eqs: "st1 = st" "wal' = wal1" "log' = log\<lparr>log_entries := ks\<rparr>" using t f by (auto simp: Log_TruncateFrom_def Let_def p)
  then show "log_entries log' = take (unat from - 1) (log_entries log)" by (simp add: ks_def)
  obtain os where wal1: "wal1 = wal\<lparr>ww_file := WalLog (map record_of_entry ks), ww_os := os, ww_disk := WalLog (map record_of_entry ks),
      ww_fsync_count := ww_fsync_count wal + 1,
      ww_last_index := (if map record_of_entry ks = [] then 0 else w_index (last (map record_of_entry ks))),
      ww_synced_index := (if map record_of_entry ks = [] then 0 else w_index (last (map record_of_entry ks)))\<rparr>"
    using r \<open>ok st\<close> unfolding eqs(1) by (rule RewriteAll_ok)
  have ce: "contiguous ks" unfolding ks_def using c by (rule contiguous_take)
  have "unat (ww_last_index wal1) = length ks"
  proof (cases "ks = []")
    case False
    then have "ww_last_index wal1 = e_index (last ks)" by (simp add: wal1 last_map record_of_entry_def)
    then show ?thesis using ce False by (simp add: contiguous_def last_conv_nth)
  qed (simp add: wal1)
  then have "wal_in_step ks wal1" using w by (auto simp: wal_in_step_def wal1)
  moreover have "list_all EntryValid ks" using v by (auto simp: ks_def list_all_iff dest: in_set_takeD)
  ultimately show "Log_inv log' wal'" using ce by (simp add: Log_inv_def eqs)
qed

section \<open>Failure-free system calls\<close>

lemma RewriteAll_loop_calm:
  "calm (ww_os w) \<Longrightarrow> ok (fst (RewriteAll_loop w rs)) \<and> calm (ww_os (snd (RewriteAll_loop w rs)))"
proof (induction rs arbitrary: w)
  case (Cons r rs)
  obtain st w1 where w: "WalWriter_write w (WalBytes r) = (st, w1)" by fastforce
  with Cons.IH [of w1] WalWriter_write_calm [OF Cons.prems w] show ?case by simp
qed simp

lemma FsyncNow_calm:
  "calm (ww_os w) \<Longrightarrow> fst (WalWriter_FsyncNow w) = Status_Ok \<and> calm (ww_os (snd (WalWriter_FsyncNow w)))"
  using sys_call_calm [of "ww_os w"] by (simp add: WalWriter_FsyncNow_def Let_def)

lemma RewriteAll_calm:
  assumes "calm (ww_os w)" "ok (ww_open_status w)"
  shows "ok (fst (WalWriter_RewriteAll w rs)) \<and> calm (ww_os (snd (WalWriter_RewriteAll w rs)))"
proof -
  define os1 where "os1 = snd (sys_call (ww_os w))"
  have 1: "calm os1" "fst (sys_call (ww_os w)) = None" "fst (sys_call os1) = None" "calm (snd (sys_call os1))"
    using sys_call_calm assms(1) unfolding os1_def by blast+
  let ?w1 = "w\<lparr>ww_file := [], ww_os := snd (sys_call os1)\<rparr>"
  obtain st2 w2 where l: "RewriteAll_loop ?w1 rs = (st2, w2)" by fastforce
  then have 2: "ok st2" "calm (ww_os w2)" using RewriteAll_loop_calm [of ?w1 rs] 1 by simp_all
  obtain st3 w3 where f: "WalWriter_FsyncNow w2 = (st3, w3)" by fastforce
  then have 3: "ok st3" "calm (ww_os w3)" using FsyncNow_calm [OF 2(2)] by simp_all
  show ?thesis
    using 1 2 3 l f assms(2) by (simp add: WalWriter_RewriteAll_def Let_def os1_def [symmetric])
qed

lemma Log_TruncateFrom_calm:
  assumes "calm (ww_os wal)" "ok (ww_open_status wal)" "from \<noteq> 0" "Log_TruncateFrom log wal from = (st, log', wal')"
  shows "ok st" "calm (ww_os wal')"
  using RewriteAll_calm [OF assms(1,2), of "map record_of_entry (pop_from from (log_entries log))"] assms(3,4)
  by (auto simp: Log_TruncateFrom_def Let_def split: prod.splits)

lemma Log_Append_calm:
  assumes "calm (ww_os wal)" "ok (ww_open_status wal)" "\<not> ww_flush_in_progress wal"
    "ww_synced_index wal = ww_last_index wal" "unat (ww_last_index wal) + 1 < 2 ^ 64"
  obtains entry' log' wal' where "Log_Append log wal entry = Some (Status_Ok, entry', log', wal')" "calm (ww_os wal')"
proof -
  let ?r = "\<lparr>w_term = e_term entry, w_index = 0, w_op = e_op entry, w_key = e_key entry, w_value = e_value entry\<rparr>"
  let ?bs = "WalBytes (?r\<lparr>w_index := ww_last_index wal + 1\<rparr>)"
  obtain st w1 where wr: "WalWriter_write wal ?bs = (st, w1)" by fastforce
  then obtain k os where w1: "w1 = wal\<lparr>ww_file := ww_file wal @ take k ?bs, ww_os := os\<rparr>" by (rule WalWriter_write_cases)
  note c = WalWriter_write_calm [OF assms(1) wr]
  define w2 where "w2 = w1\<lparr>ww_last_index := ww_last_index wal + 1\<rparr>"
  have app: "WalWriter_Append wal ?r = (Inr (ww_last_index wal + 1), w2)"
    using wr c assms(2) by (simp add: WalWriter_Append_def Let_def w2_def)
  have "ww_last_index wal < ww_last_index wal + 1" using assms(5) by (simp add: word_less_nat_alt unat_word_ariths)
  then have sy: "WalWriter_Sync w2 (ww_last_index wal + 1) = Some (Sync_flush (Sync_lead w2) (ww_last_index wal + 1))"
    using assms by (intro Sync_alone) (simp_all add: w2_def w1)
  have "calm (ww_os (Sync_lead w2))" using c by (simp add: Sync_lead_def w2_def)
  note f = FsyncNow_calm [OF this]
  moreover obtain st3 w3 where fl: "Sync_flush (Sync_lead w2) (ww_last_index wal + 1) = (st3, w3)" by fastforce
  ultimately have "st3 = Status_Ok" "calm (ww_os w3)"
    by (auto simp: Sync_flush_def Let_def split: prod.splits if_splits)
  then show thesis
    using that app sy fl by (simp add: Log_Append_def Let_def)
qed

lemma Log_Load_disk:
  assumes "Log_inv log wal" "calm os"
  obtains os' where "Log_Load data_dir (ww_disk wal) os = (Status_Ok, log, os')" "calm os'"
proof -
  let ?rs = "map record_of_entry (log_entries log)" and ?fd = "\<lparr>fd_rest = ww_disk wal, fd_os = snd (sys_call os)\<rparr>"
  let ?b = "\<lambda>es record. es @ [entry_of_record record]"
  have c: "fst (sys_call os) = None" "calm (snd (sys_call os))" using sys_call_calm [OF assms(2)] by simp_all
  have v: "\<forall>r \<in> set ?rs. WalRecordValid r" and d: "fd_rest ?fd = WalLog ?rs @ []"
    using assms(1) by (auto simp: Log_inv_def EntryValid_def list_all_iff wal_in_step_def)
  have fold: "fold (\<lambda>r es. es @ [entry_of_record r]) (map record_of_entry xs) acc = acc @ xs" for xs acc
    by (induction xs arbitrary: acc) simp_all
  obtain st es fd where w: "WalScan ?b [] ?fd = (st, es, fd)" by (rule prod_cases3)
  then have "st = Status_Ok" "es = log_entries log"
    using WalScan_log [OF v WalTorn_Nil _ d, of ?b "[]"] calm_no_fail [OF c(2)] by (simp_all add: fold)
  then have "Log_Load data_dir (ww_disk wal) os = (Status_Ok, log, fd_os fd)" using w c(1) by (simp add: Log_Load_def Let_def)
  moreover have "calm (fd_os fd)" using WalScan_suffix [of ?b "[]" ?fd] w calm_suffix [OF _ c(2)] by simp
  ultimately show thesis using that by blast
qed

section \<open>Sequences of operations\<close>

text \<open>Calls of the two operations that change a log, run one after the other with the statuses they return, and what they do to a plain list.\<close>

datatype log_op = LogAppend LogEntry | LogTruncate u64

fun log_run :: "log_op list \<Rightarrow> Log \<Rightarrow> WalWriter \<Rightarrow> (Status list \<times> Log \<times> WalWriter) option" where
  "log_run [] log wal = Some ([], log, wal)"
| "log_run (LogAppend entry # ops) log wal =
     (case Log_Append log wal entry of
        None \<Rightarrow> None
      | Some (st, _, log, wal) \<Rightarrow> map_option (\<lambda>(sts, r). (st # sts, r)) (log_run ops log wal))"
| "log_run (LogTruncate from_index # ops) log wal =
     (case Log_TruncateFrom log wal from_index of
        (st, log, wal) \<Rightarrow> map_option (\<lambda>(sts, r). (st # sts, r)) (log_run ops log wal))"

fun log_spec :: "log_op \<Rightarrow> LogEntry list \<Rightarrow> LogEntry list" where
  "log_spec (LogAppend entry) es = es @ [entry\<lparr>e_index := of_nat (Suc (length es))\<rparr>]"
| "log_spec (LogTruncate from_index) es = (if from_index = 0 then es else take (unat from_index - 1) es)"

fun log_op_fits :: "log_op \<Rightarrow> bool" where
  "log_op_fits (LogAppend entry) = EntryValid entry"
| "log_op_fits (LogTruncate _) = True"

lemma log_run_spec:
  assumes "Log_inv log wal" "calm (ww_os wal)" "list_all log_op_fits ops" "length (log_entries log) + length ops < 2 ^ 64"
  shows "\<exists>sts log' wal'. log_run ops log wal = Some (sts, log', wal') \<and> Log_inv log' wal' \<and> log_entries log' = fold log_spec ops (log_entries log)
    \<and> map ok sts = map (\<lambda>x. x \<noteq> LogTruncate 0) ops"
  using assms
proof (induction ops arbitrary: log wal)
  case (Cons x ops)
  note w = Cons.prems(1) [unfolded Log_inv_def wal_in_step_def]
  have "\<exists>st log1 wal1. log_run (x # ops) log wal = map_option (\<lambda>(sts, r). (st # sts, r)) (log_run ops log1 wal1) \<and> Log_inv log1 wal1
      \<and> calm (ww_os wal1) \<and> log_entries log1 = log_spec x (log_entries log) \<and> ok st = (x \<noteq> LogTruncate 0)"
  proof (cases x)
    case (LogAppend entry)
    obtain e1 log1 wal1 where a: "Log_Append log wal entry = Some (Status_Ok, e1, log1, wal1)" "calm (ww_os wal1)"
      by (rule Log_Append_calm [OF Cons.prems(2), of log entry]) (use w Cons.prems(4) in auto)
    note r = Log_Append_ok [OF Cons.prems(1) _ _ a(1)]
    have "EntryValid entry" "length (log_entries log) + 1 < 2 ^ 64" using Cons.prems(3,4) LogAppend by simp_all
    note r = r [OF this]
    show ?thesis using a r by (intro exI [of _ Status_Ok] exI [of _ log1] exI [of _ wal1]) (simp add: LogAppend)
  next
    case (LogTruncate i)
    show ?thesis
    proof (cases "i = 0")
      case True
      then show ?thesis using Cons.prems(1,2) LogTruncate
        by (intro exI [of _ "fst (Log_TruncateFrom log wal i)"] exI [of _ log] exI [of _ wal]) (simp add: Log_TruncateFrom_def)
    next
      case False
      obtain st log1 wal1 where t: "Log_TruncateFrom log wal i = (st, log1, wal1)" by (rule prod_cases3)
      note c = Log_TruncateFrom_calm [OF Cons.prems(2) _ False t]
      have st: "ok st" "calm (ww_os wal1)" using c w by auto
      from Log_TruncateFrom_ok [OF Cons.prems(1) False t st(1)] show ?thesis
        using st t False by (intro exI [of _ st] exI [of _ log1] exI [of _ wal1]) (simp add: LogTruncate)
    qed
  qed
  then obtain st log1 wal1 where s: "log_run (x # ops) log wal = map_option (\<lambda>(sts, r). (st # sts, r)) (log_run ops log1 wal1)"
    "Log_inv log1 wal1" "calm (ww_os wal1)" "log_entries log1 = log_spec x (log_entries log)" "ok st = (x \<noteq> LogTruncate 0)" by blast
  have "length (log_entries log1) + length ops < 2 ^ 64" using Cons.prems(4) s(4) by (cases x) auto
  then obtain sts log2 wal2 where "log_run ops log1 wal1 = Some (sts, log2, wal2)" "Log_inv log2 wal2"
    "log_entries log2 = fold log_spec ops (log_entries log1)" "map ok sts = map (\<lambda>x. x \<noteq> LogTruncate 0) ops"
    using Cons.IH [OF s(2,3)] Cons.prems(3) by auto
  then show ?case using s(1,4,5) by (intro exI [of _ "st # sts"] exI [of _ log2] exI [of _ wal2]) simp
qed auto

text \<open>A fresh log on an empty file is in step with it.\<close>

lemma fresh_log_inv:
  assumes "calm os"
  shows "Log_inv \<lparr>log_entries = []\<rparr> (WalWriter_new data_dir [] os)" "calm (ww_os (WalWriter_new data_dir [] os))"
  using WalWriter_new_log [OF _ WalTorn_Nil _ assms refl, of "[]" "[]" data_dir]
  by (simp_all add: Log_inv_def wal_in_step_def last_wal_index_def WalLog_def)

text \<open>
  What the sequences leave out. \<^verbatim>\<open>RewriteAll\<close> empties the file before it writes the records that stay: if the process is killed, or the first write fails,
  in between, then nothing of the log is left, however many of its entries were acknowledged before.
\<close>

lemma rewrite_stopped_loses_log:
  assumes "Log_inv log wal" "ww_os wal = SysShort n # SysShort m # SysFail e # os" "from_index \<noteq> 0" "pop_from from_index (log_entries log) \<noteq> []" "calm os'"
  shows "\<exists>st log' wal' os''. Log_TruncateFrom log wal from_index = (st, log', wal') \<and> \<not> ok st \<and> ww_file wal' = []
    \<and> Log_Load data_dir (ww_file wal') os' = (Status_Ok, \<lparr>log_entries = []\<rparr>, os'')"
proof -
  let ?ks = "pop_from from_index (log_entries log)"
  have o: "ok (ww_open_status wal)" using assms(1) by (simp add: Log_inv_def wal_in_step_def)
  obtain k ks where ks: "?ks = k # ks" using assms(4) by (cases ?ks) auto
  have b: "EncodeWalRecord r [] \<noteq> []" for r by (simp add: EncodeWalRecord_def Let_def WriteU32BE_def)
  have "\<exists>st. \<not> ok st \<and> RewriteAll_loop (wal\<lparr>ww_file := [], ww_os := SysFail e # os\<rparr>) (map record_of_entry ?ks) = (st, wal\<lparr>ww_file := [], ww_os := os\<rparr>)"
    using b by (simp add: ks WalWriter_write_def WriteAll_def write_loop.simps sys_write_def Let_def)
  then obtain st where "\<not> ok st" "WalWriter_RewriteAll wal (map record_of_entry ?ks) = (st, wal\<lparr>ww_file := [], ww_os := os\<rparr>)"
    using o assms(2) by (auto simp: WalWriter_RewriteAll_def Let_def sys_call_def)
  moreover obtain os'' where "Log_Load data_dir [] os' = (Status_Ok, \<lparr>log_entries = []\<rparr>, os'')"
    using Log_Load_disk [OF fresh_log_inv(1) [OF calm_Nil, of data_dir] assms(5), of data_dir]
      WalWriter_new_log(5) [OF _ WalTorn_Nil _ calm_Nil refl, of "[]" "[]" data_dir] by (auto simp: WalLog_def)
  ultimately show ?thesis using assms(3) by (simp add: Log_TruncateFrom_def Let_def)
qed

section \<open>Properties\<close>

text \<open>
  C21. The Raft log on disk is the log in memory. Start from an empty directory and call \<^verbatim>\<open>Append\<close> and \<^verbatim>\<open>TruncateFrom\<close> in any order, with entries that fit a record, on a
  system whose calls do not fail. Every call returns, with success unless it is \<^verbatim>\<open>TruncateFrom(0)\<close>; the log in memory is the one the same calls make of a plain list,
  appended entries numbered from one; and loading what is durable then yields exactly this log.
\<close>

theorem raft_log_reload:
  assumes "calm os" "list_all log_op_fits ops" "length ops < 2 ^ 64" "calm os'"
  shows "\<exists>sts log wal os''. log_run ops \<lparr>log_entries = []\<rparr> (WalWriter_new data_dir [] os) = Some (sts, log, wal)
    \<and> map ok sts = map (\<lambda>x. x \<noteq> LogTruncate 0) ops \<and> log_entries log = fold log_spec ops []
    \<and> Log_Load data_dir (ww_disk wal) os' = (Status_Ok, log, os'')"
proof -
  obtain sts log wal where r: "log_run ops \<lparr>log_entries = []\<rparr> (WalWriter_new data_dir [] os) = Some (sts, log, wal)" "Log_inv log wal"
    "log_entries log = fold log_spec ops []" "map ok sts = map (\<lambda>x. x \<noteq> LogTruncate 0) ops"
    using log_run_spec [OF fresh_log_inv [OF assms(1), of data_dir] assms(2)] assms(3) by auto
  moreover obtain os'' where "Log_Load data_dir (ww_disk wal) os' = (Status_Ok, log, os'')" by (rule Log_Load_disk [OF r(2) assms(4)])
  ultimately show ?thesis by blast
qed

abbreviation log_demo_entry :: "u64 \<Rightarrow> u8 \<Rightarrow> LogEntry" where
  "log_demo_entry t v \<equiv> \<lparr>e_term = t, e_index = 0, e_op = WalOp_kSet, e_key = [107], e_value = [v]\<rparr>"

abbreviation log_demo_ops :: "log_op list" where
  "log_demo_ops \<equiv> [LogAppend (log_demo_entry 1 1), LogAppend (log_demo_entry 1 2), LogTruncate 0, LogTruncate 2, LogAppend (log_demo_entry 2 3)]"

theorem raft_log_reload_witness:
  "\<exists>sts log wal os''. log_run log_demo_ops \<lparr>log_entries = []\<rparr> (WalWriter_new ''d'' [] [SysShort 0]) = Some (sts, log, wal)
    \<and> map ok sts = [True, True, False, True, True] \<and> log_entries log = [(log_demo_entry 1 1)\<lparr>e_index := 1\<rparr>, (log_demo_entry 2 3)\<lparr>e_index := 2\<rparr>]
    \<and> Log_Load ''d'' (ww_disk wal) [SysShort 0] = (Status_Ok, log, os'')"
  using raft_log_reload [of "[SysShort 0]" log_demo_ops "[SysShort 0]" "''d''"]
  by (simp add: EntryValid_def record_of_entry_def WalRecordValid_def kMaxFieldSize_def del: log_run.simps)

end
