(* ===== verification/Raft_Node.thy ===== *)
theory Raft_Node
  imports Raft_Log Cluster_Config Protocol_Codec
begin

text \<open>
  \<^verbatim>\<open>raft/node.{h,cpp}\<close>: one node's Raft state machine. A member function that holds \<^verbatim>\<open>mutex_\<close> throughout is one function on
  the node's state. A member function that releases the mutex around an RPC is given by its critical sections
  (\<open>StartElection_begin\<close>, \<open>StartElection_reply\<close>, \<open>StartElection_finish\<close>, and so on) and by their composition, which
  takes the RPC as a parameter: \<open>rpc peer request node\<close> is the outcome of \<^verbatim>\<open>SendRpc\<close> together with the node's state when
  the reply is looked at, other threads having run in between. The theory \<^verbatim>\<open>Raft_Cluster\<close> interleaves the critical sections of
  all nodes.

  The clock, the random numbers and the outcomes of the system calls on the state file are lists carried by the
  node, consumed from the front. Times are in milliseconds. \<open>None\<close> stands for a \<^verbatim>\<open>Sync\<close> on the write-ahead log that never returns.
\<close>

section \<open>State\<close>

record RaftNode =
  rn_local_node_id :: u32
  rn_config :: ClusterConfig
  rn_storage :: DurableStorage
  rn_log :: Log
  rn_open_status :: Status
  rn_state :: RaftState
  rn_current_term :: u64
  rn_voted_for :: u32
  rn_leader_id :: u32
  rn_commit_index :: u64
  rn_election_deadline :: int
  rn_next_heartbeat :: int
  rn_next_index :: "(u32 \<times> u64) list"
  rn_match_index :: "(u32 \<times> u64) list"
  rn_last_ack_time :: "(u32 \<times> int) list"
  rn_started :: bool
  rn_stop :: bool
  rn_state_file :: "bytes option"   \<comment> \<open>contents of \<^verbatim>\<open>state.bin\<close>, if it exists\<close>
  rn_state_disk :: "bytes option"   \<comment> \<open>what of it has reached the disk\<close>
  rn_os :: "sys list"
  rn_clock :: "int list"
  rn_rng :: "nat list"

definition kTickInterval :: int where "kTickInterval = 15"
definition kHeartbeatInterval :: int where "kHeartbeatInterval = 75"
definition kElectionTimeoutMin :: nat where "kElectionTimeoutMin = 250"
definition kElectionTimeoutMax :: nat where "kElectionTimeoutMax = 400"
definition kProposeTimeout :: int where "kProposeTimeout = 3000"

text \<open>\<^verbatim>\<open>steady_clock::now()\<close> and one number from the generator; a used-up list reads as zero.\<close>

definition steady_clock_now :: "RaftNode \<Rightarrow> int \<times> RaftNode" where
  "steady_clock_now node =
     (case rn_clock node of [] \<Rightarrow> (0, node) | t # ts \<Rightarrow> (t, node\<lparr>rn_clock := ts\<rparr>))"

definition RandomElectionTimeout :: "RaftNode \<Rightarrow> nat \<times> RaftNode" where
  "RandomElectionTimeout node =
     (let dist = (\<lambda>r. kElectionTimeoutMin + r mod (kElectionTimeoutMax - kElectionTimeoutMin + 1)) in
      case rn_rng node of [] \<Rightarrow> (dist 0, node) | r # rs \<Rightarrow> (dist r, node\<lparr>rn_rng := rs\<rparr>))"

definition ResetElectionDeadlineLocked :: "RaftNode \<Rightarrow> RaftNode" where
  "ResetElectionDeadlineLocked node =
     (case steady_clock_now node of (now, node) \<Rightarrow>
      case RandomElectionTimeout node of (timeout, node) \<Rightarrow>
        node\<lparr>rn_election_deadline := now + int timeout\<rparr>)"

section \<open>Term and vote on disk\<close>

text \<open>
  The read loop of \<^verbatim>\<open>LoadPersistedState\<close>: the bytes read, and the text of an error other than EINTR.
\<close>

function state_read_loop :: "rfd \<Rightarrow> nat \<Rightarrow> bytes \<Rightarrow> string option \<times> bytes \<times> rfd" where
  "state_read_loop fd len buf =
     (if length buf < len then
        (case sys_read fd (len - length buf) of
           (IoIntr, fd') \<Rightarrow> state_read_loop fd' len buf
         | (IoErr e, fd') \<Rightarrow> (Some e, buf, fd')
         | (IoBytes bs, fd') \<Rightarrow> if bs = [] then (None, buf, fd') else state_read_loop fd' len (buf @ bs))
      else (None, buf, fd))"
  by pat_completeness auto
termination
proof (relation "measure (\<lambda>(fd, len, buf). (len - length buf) + length (fd_os fd))", goal_cases)
  case 1
  show ?case by simp
next
  case (2 fd len buf r fd')
  then show ?case using sys_read_Intr [of fd "len - length buf" fd'] by auto
next
  case (3 fd len buf r fd' bs)
  then have "length bs > 0" "length bs \<le> len - length buf" "length (fd_os fd') \<le> length (fd_os fd)"
    using sys_read_Bytes [of fd "len - length buf" bs fd'] by auto
  with \<open>length buf < len\<close> show ?case by (simp only: in_measure prod.case length_append)
qed

declare state_read_loop.simps [simp del]

definition state_path :: "RaftNode \<Rightarrow> string" where
  "state_path node = ds_data_dir (rn_storage node) @ ''/raft/state.bin''"

text \<open>\<^verbatim>\<open>open(state_path_, O_RDONLY)\<close> fails with ENOENT when there is no file.\<close>

definition LoadPersistedState :: "RaftNode \<Rightarrow> Status \<times> RaftNode" where
  "LoadPersistedState node =
     (case rn_state_file node of
        None \<Rightarrow> (Status_Ok, node)
      | Some contents \<Rightarrow>
          let c = sys_call (rn_os node) in
          case fst c of
            Some e \<Rightarrow>
              if e = errno_ENOENT then (Status_Ok, node\<lparr>rn_os := snd c\<rparr>)
              else (Status_Error ErrorCode_kIOError (''open '' @ state_path node @ '': '' @ e), node\<lparr>rn_os := snd c\<rparr>)
          | None \<Rightarrow>
              (case state_read_loop \<lparr>fd_rest = contents, fd_os = snd c\<rparr> 12 [] of
                 (Some e, buf, fd) \<Rightarrow>
                   (Status_Error ErrorCode_kIOError (''read '' @ state_path node @ '': '' @ e), node\<lparr>rn_os := fd_os fd\<rparr>)
               | (None, buf, fd) \<Rightarrow>
                   if length buf \<noteq> 12 then
                     (Status_Error ErrorCode_kIOError (''raft state file truncated: '' @ state_path node),
                      node\<lparr>rn_os := fd_os fd\<rparr>)
                   else
                     (Status_Ok,
                      node\<lparr>rn_os := fd_os fd, rn_current_term := ReadU64BE buf, rn_voted_for := ReadU32BE (drop 8 buf)\<rparr>)))"

text \<open>
  \<^verbatim>\<open>PersistStateLocked\<close>: the result of \<^verbatim>\<open>mkdir\<close> and \<^verbatim>\<open>fsync\<close> is not looked at; when the file cannot be opened nothing is
  written, and when a write fails the rest is not. The buffer is not initialised in the source; every byte of it is overwritten (\<open>state_buffer\<close>).
\<close>

definition PersistStateLocked :: "RaftNode \<Rightarrow> RaftNode" where
  "PersistStateLocked node =
     (let os = snd (sys_call (rn_os node)); c = sys_call os in
      case fst c of
        Some e \<Rightarrow> node\<lparr>rn_os := snd c\<rparr>
      | None \<Rightarrow>
          let buf = PutU32BE (PutU64BE (replicate 12 0) 0 (rn_current_term node)) 8 (rn_voted_for node);
              fd = snd (write_loop ''write: '' \<lparr>wf_data = [], wf_os = snd c\<rparr> buf 0);
              f = sys_call (wf_os fd) in
          node\<lparr>rn_os := snd f, rn_state_file := Some (wf_data fd),
               rn_state_disk := (if fst f = None then Some (wf_data fd) else rn_state_disk node)\<rparr>)"

section \<open>Construction, Start and Stop\<close>

text \<open>\<open>file\<close> is the state file found on disk.\<close>

definition RaftNode_new ::
  "u32 \<Rightarrow> ClusterConfig \<Rightarrow> DurableStorage \<Rightarrow> bytes option \<Rightarrow> sys list \<Rightarrow> int list \<Rightarrow> nat list \<Rightarrow> RaftNode" where
  "RaftNode_new local_node_id config storage file os clock rng =
     (let node = \<lparr>rn_local_node_id = local_node_id, rn_config = config, rn_storage = storage,
            rn_log = \<lparr>log_entries = []\<rparr>, rn_open_status = Status_Ok, rn_state = RaftState_kFollower,
            rn_current_term = 0, rn_voted_for = 0, rn_leader_id = 0, rn_commit_index = 0,
            rn_election_deadline = 0, rn_next_heartbeat = 0, rn_next_index = [], rn_match_index = [],
            rn_last_ack_time = [], rn_started = False, rn_stop = False,
            rn_state_file = file, rn_state_disk = file, rn_os = os, rn_clock = clock, rn_rng = rng\<rparr>;
          (st, node) = LoadPersistedState node in
      if \<not> ok st then node\<lparr>rn_open_status := st\<rparr>
      else
        case Log_Load (ds_data_dir storage) (ww_file (ds_wal storage)) (ww_os (ds_wal storage)) of
          (st, log, os) \<Rightarrow>
            let node = node\<lparr>rn_open_status := st, rn_log := log,
                            rn_storage := storage\<lparr>ds_wal := (ds_wal storage)\<lparr>ww_os := os\<rparr>\<rparr>\<rparr> in
            if \<not> ok st then node else ResetElectionDeadlineLocked node)"

text \<open>\<^verbatim>\<open>Start\<close> answers whether it created the thread; \<^verbatim>\<open>Stop\<close> raises the flag the loop looks at, then joins.\<close>

definition RaftNode_Start :: "RaftNode \<Rightarrow> bool \<times> RaftNode" where
  "RaftNode_Start node =
     (if \<not> ok (rn_open_status node) then (False, node)
      else if rn_started node then (False, node)
      else (True, node\<lparr>rn_started := True\<rparr>))"

definition RaftNode_Stop :: "RaftNode \<Rightarrow> RaftNode" where
  "RaftNode_Stop node = node\<lparr>rn_stop := True\<rparr>"

definition lag_entries :: "RaftNode \<Rightarrow> u64" where
  "lag_entries node = rn_commit_index node - ds_last_applied_index (rn_storage node)"

definition replication_lag_entries :: "RaftNode \<Rightarrow> u32 \<Rightarrow> u64" where
  "replication_lag_entries node peer_id =
     (if peer_id = rn_local_node_id node then 0
      else if rn_state node \<noteq> RaftState_kLeader then 0
      else case map_of (rn_match_index node) peer_id of
             None \<Rightarrow> 0
           | Some match \<Rightarrow>
               let last_index = Log_LastIndex (rn_log node) in
               if last_index > match then last_index - match else 0)"

section \<open>Changes of role\<close>

definition BecomeFollowerLocked :: "u64 \<Rightarrow> RaftNode \<Rightarrow> RaftNode" where
  "BecomeFollowerLocked trm node =
     (let node = node\<lparr>rn_current_term := trm, rn_voted_for := 0, rn_state := RaftState_kFollower,
                      rn_leader_id := 0, rn_last_ack_time := []\<rparr>;
          node = PersistStateLocked node
      in ResetElectionDeadlineLocked node)"

definition BecomeLeaderLocked :: "RaftNode \<Rightarrow> RaftNode" where
  "BecomeLeaderLocked node =
     (let others = filter (\<lambda>peer. peer_node_id peer \<noteq> rn_local_node_id node) (cfg_peers (rn_config node));
          node = node\<lparr>rn_state := RaftState_kLeader, rn_leader_id := rn_local_node_id node,
            rn_next_index := fold (\<lambda>peer. AList.update (peer_node_id peer) (Log_LastIndex (rn_log node) + 1)) others [],
            rn_match_index := fold (\<lambda>peer. AList.update (peer_node_id peer) 0) others [],
            rn_last_ack_time := []\<rparr>;
          (now, node) = steady_clock_now node
      in node\<lparr>rn_next_heartbeat := now\<rparr>)"

definition majority :: "RaftNode \<Rightarrow> nat" where
  "majority node = length (cfg_peers (rn_config node)) div 2 + 1"

definition HasRecentMajorityContactLocked :: "RaftNode \<Rightarrow> bool \<times> RaftNode" where
  "HasRecentMajorityContactLocked node =
     (if rn_state node \<noteq> RaftState_kLeader then (False, node)
      else
        case steady_clock_now node of (now, node) \<Rightarrow>
          let contacted = 1 + length (filter (\<lambda>(node_id, t). now - t \<le> kHeartbeatInterval) (rn_last_ack_time node))
          in (contacted \<ge> majority node, node))"

section \<open>Applying committed entries\<close>

function ApplyCommittedEntriesLocked :: "(bytes \<Rightarrow> u64) \<Rightarrow> RaftNode \<Rightarrow> RaftNode" where
  "ApplyCommittedEntriesLocked hash node =
     (if ds_last_applied_index (rn_storage node) < rn_commit_index node then
        (case Log_Get (rn_log node) (ds_last_applied_index (rn_storage node) + 1) of
           None \<Rightarrow> node
         | Some entry \<Rightarrow>
             ApplyCommittedEntriesLocked hash
               (node\<lparr>rn_storage := DurableStorage_ApplyCommitted hash (rn_storage node) (record_of_entry entry)\<rparr>))
      else node)"
  by pat_completeness auto
termination
proof (relation "measure (\<lambda>(hash, node). unat (rn_commit_index node - ds_last_applied_index (rn_storage node)))", goal_cases)
  case (2 hash node entry)
  then have "e_index entry = ds_last_applied_index (rn_storage node) + 1" using Log_Get_index by blast
  then have "ds_last_applied_index (DurableStorage_ApplyCommitted hash (rn_storage node) (record_of_entry entry))
      = ds_last_applied_index (rn_storage node) + 1"
    by (simp add: DurableStorage_ApplyCommitted_def record_of_entry_def)
  moreover have "unat (c - (l + 1)) < unat (c - l)" if "l < c" for c l :: u64
  proof -
    have "c - l \<noteq> 0" using that by auto
    then have "unat (c - l - 1) < unat (c - l)" by (simp add: unat_minus_one unat_gt_0)
    then show ?thesis by (simp add: diff_diff_eq)
  qed
  ultimately show ?case using 2(1) by simp
qed simp

declare ApplyCommittedEntriesLocked.simps [simp del]

section \<open>RPC handlers\<close>

definition HandleRequestVote :: "RequestVoteRequest \<Rightarrow> RaftNode \<Rightarrow> RequestVoteResponse \<times> RaftNode" where
  "HandleRequestVote req node =
     (let node = (if rv_term req > rn_current_term node then BecomeFollowerLocked (rv_term req) node else node);
          resp = \<lparr>rvr_term = rn_current_term node, rvr_vote_granted = False\<rparr> in
      if rv_term req < rn_current_term node then (resp, node)
      else
        let can_vote = (rn_voted_for node = 0 \<or> rn_voted_for node = rv_candidate_id req);
            up_to_date = (rv_last_log_term req > Log_LastTerm (rn_log node)
              \<or> rv_last_log_term req = Log_LastTerm (rn_log node) \<and> rv_last_log_index req \<ge> Log_LastIndex (rn_log node)) in
        if can_vote \<and> up_to_date then
          let node = ResetElectionDeadlineLocked (PersistStateLocked (node\<lparr>rn_voted_for := rv_candidate_id req\<rparr>))
          in (resp\<lparr>rvr_vote_granted := True\<rparr>, node)
        else (resp, node))"

text \<open>
  The loop over the entries of an AppendEntries request. The statuses of \<^verbatim>\<open>TruncateFrom\<close> and \<^verbatim>\<open>Append\<close> are not looked at.
\<close>

fun append_loop :: "u64 \<Rightarrow> LogEntry list \<Rightarrow> Log \<times> WalWriter \<Rightarrow> (Log \<times> WalWriter) option" where
  "append_loop index [] lw = Some lw"
| "append_loop index (entry # es) (log, wal) =
     (let index = index + 1; existing = Log_Get log index in
      if existing \<noteq> None \<and> e_term (the existing) = e_term entry then append_loop index es (log, wal)
      else
        let (log, wal) = (if existing \<noteq> None then snd (Log_TruncateFrom log wal index) else (log, wal)) in
        case Log_Append log wal entry of
          None \<Rightarrow> None
        | Some (status, entry, log, wal) \<Rightarrow> append_loop index es (log, wal))"

definition HandleAppendEntries ::
  "(bytes \<Rightarrow> u64) \<Rightarrow> AppendEntriesRequest \<Rightarrow> RaftNode \<Rightarrow> (AppendEntriesResponse \<times> RaftNode) option" where
  "HandleAppendEntries hash req node =
     (if ae_term req < rn_current_term node then
        Some (\<lparr>aer_term = rn_current_term node, aer_success = False\<rparr>, node)
      else
        let node = (if ae_term req > rn_current_term node then BecomeFollowerLocked (ae_term req) node
                    else if rn_state node = RaftState_kCandidate then node\<lparr>rn_state := RaftState_kFollower\<rparr>
                    else node);
            node = ResetElectionDeadlineLocked (node\<lparr>rn_leader_id := ae_leader_id req\<rparr>);
            resp = \<lparr>aer_term = rn_current_term node, aer_success = False\<rparr>;
            prev = Log_Get (rn_log node) (ae_prev_log_index req) in
        if ae_prev_log_index req > 0 \<and> (prev = None \<or> e_term (the prev) \<noteq> ae_prev_log_term req) then Some (resp, node)
        else
          case append_loop (ae_prev_log_index req) (ae_entries req) (rn_log node, ds_wal (rn_storage node)) of
            None \<Rightarrow> None
          | Some (log, wal) \<Rightarrow>
              let node = node\<lparr>rn_log := log, rn_storage := (rn_storage node)\<lparr>ds_wal := wal\<rparr>\<rparr>;
                  node = (if ae_leader_commit req > rn_commit_index node then
                            ApplyCommittedEntriesLocked hash
                              (node\<lparr>rn_commit_index := min (ae_leader_commit req) (Log_LastIndex (rn_log node))\<rparr>)
                          else node)
              in Some (resp\<lparr>aer_success := True\<rparr>, node))"

section \<open>Replication\<close>

definition AdvanceCommitIndexLocked :: "(bytes \<Rightarrow> u64) \<Rightarrow> RaftNode \<Rightarrow> RaftNode" where
  "AdvanceCommitIndexLocked hash node =
     (let indices = sort (Log_LastIndex (rn_log node) # map snd (rn_match_index node));
          majority = length indices div 2 + 1;
          candidate = indices ! (length indices - majority) in
      if candidate \<le> rn_commit_index node then node
      else
        case Log_Get (rn_log node) candidate of
          None \<Rightarrow> node
        | Some entry \<Rightarrow>
            if e_term entry = rn_current_term node then
              ApplyCommittedEntriesLocked hash (node\<lparr>rn_commit_index := candidate\<rparr>)
            else node)"

text \<open>\<^verbatim>\<open>m[k]\<close> on an \<^verbatim>\<open>unordered_map\<close> to integers: a missing key is inserted with value zero.\<close>

definition map_at :: "('k \<times> 'v :: zero) list \<Rightarrow> 'k \<Rightarrow> 'v \<times> ('k \<times> 'v) list" where
  "map_at m k = (case map_of m k of Some v \<Rightarrow> (v, m) | None \<Rightarrow> (0, AList.update k 0 m))"

text \<open>The part of an AppendEntries request that describes where the peer's log should end.\<close>

definition prev_log_term_at :: "RaftNode \<Rightarrow> u64 \<Rightarrow> u64" where
  "prev_log_term_at node prev_log_index =
     (let prev = (if prev_log_index = 0 then None else Log_Get (rn_log node) prev_log_index)
      in case prev of None \<Rightarrow> 0 | Some e \<Rightarrow> e_term e)"

definition ReplicateToPeer_begin :: "PeerInfo \<Rightarrow> RaftNode \<Rightarrow> AppendEntriesRequest option \<times> RaftNode" where
  "ReplicateToPeer_begin peer node =
     (if rn_state node \<noteq> RaftState_kLeader then (None, node)
      else
        let (next_idx, next_index) = map_at (rn_next_index node) (peer_node_id peer);
            prev_log_index = next_idx - 1 in
        (Some \<lparr>ae_term = rn_current_term node, ae_leader_id = rn_local_node_id node, ae_prev_log_index = prev_log_index,
               ae_prev_log_term = prev_log_term_at node prev_log_index, ae_leader_commit = rn_commit_index node,
               ae_entries = Log_EntriesFrom (rn_log node) next_idx\<rparr>,
         node\<lparr>rn_next_index := next_index\<rparr>))"

definition ReplicateToPeer_finish ::
  "(bytes \<Rightarrow> u64) \<Rightarrow> PeerInfo \<Rightarrow> AppendEntriesRequest \<Rightarrow> AppendEntriesResponse \<Rightarrow> RaftNode \<Rightarrow> RaftNode" where
  "ReplicateToPeer_finish hash peer req resp node =
     (if rn_state node \<noteq> RaftState_kLeader \<or> rn_current_term node \<noteq> ae_term req then node
      else if aer_term resp > rn_current_term node then BecomeFollowerLocked (aer_term resp) node
      else if aer_success resp then
        let (now, node) = steady_clock_now node;
            node = node\<lparr>rn_last_ack_time := AList.update (peer_node_id peer) now (rn_last_ack_time node)\<rparr>;
            node = (if ae_entries req \<noteq> [] then
                      node\<lparr>rn_match_index := AList.update (peer_node_id peer) (e_index (last (ae_entries req))) (rn_match_index node),
                           rn_next_index := AList.update (peer_node_id peer) (e_index (last (ae_entries req)) + 1) (rn_next_index node)\<rparr>
                    else node)
        in AdvanceCommitIndexLocked hash node
      else
        let (next_idx, next_index) = map_at (rn_next_index node) (peer_node_id peer) in
        if next_idx > 1 then node\<lparr>rn_next_index := AList.update (peer_node_id peer) (next_idx - 1) next_index\<rparr>
        else node\<lparr>rn_next_index := next_index\<rparr>)"

type_synonym rpc = "PeerInfo \<Rightarrow> ClusterRequest \<Rightarrow> RaftNode \<Rightarrow> ClusterResponse Result \<times> RaftNode"

definition append_rpc :: "AppendEntriesRequest \<Rightarrow> ClusterRequest" where
  "append_rpc req = \<lparr>clreq_request_id = 0, clreq_opcode = ClusterOpcode_kAppendEntries,
                     clreq_body = EncodeAppendEntriesRequest req\<rparr>"

definition ReplicateToPeer :: "(bytes \<Rightarrow> u64) \<Rightarrow> rpc \<Rightarrow> PeerInfo \<Rightarrow> RaftNode \<Rightarrow> RaftNode" where
  "ReplicateToPeer hash rpc peer node =
     (case ReplicateToPeer_begin peer node of
        (None, node) \<Rightarrow> node
      | (Some req, node) \<Rightarrow>
          (case rpc peer (append_rpc req) node of
             (Inl e, node) \<Rightarrow> node
           | (Inr result, node) \<Rightarrow>
               (case DecodeAppendEntriesResponse (clresp_body result) of
                  Inl e \<Rightarrow> node
                | Inr resp \<Rightarrow> ReplicateToPeer_finish hash peer req resp node)))"

definition other_peers :: "RaftNode \<Rightarrow> PeerInfo list" where
  "other_peers node = filter (\<lambda>peer. peer_node_id peer \<noteq> rn_local_node_id node) (cfg_peers (rn_config node))"

section \<open>Propose\<close>

definition Propose_begin :: "LogEntry \<Rightarrow> RaftNode \<Rightarrow> (u64 Result \<times> RaftNode) option" where
  "Propose_begin entry node =
     (if rn_state node \<noteq> RaftState_kLeader then
        Some (Inl (Status_Error ErrorCode_kInvalidArgument ''not leader''), node)
      else
        case Log_Append (rn_log node) (ds_wal (rn_storage node)) (entry\<lparr>e_term := rn_current_term node\<rparr>) of
          None \<Rightarrow> None
        | Some (status, entry, log, wal) \<Rightarrow>
            let node = node\<lparr>rn_log := log, rn_storage := (rn_storage node)\<lparr>ds_wal := wal\<rparr>\<rparr> in
            if \<not> ok status then Some (Inl status, node) else Some (Inr (e_index entry), node))"

definition Propose_wake :: "u64 \<Rightarrow> RaftNode \<Rightarrow> bool" where
  "Propose_wake index node \<longleftrightarrow>
     ds_last_applied_index (rn_storage node) \<ge> index \<or> rn_state node \<noteq> RaftState_kLeader"

definition Propose_finish :: "u64 \<Rightarrow> RaftNode \<Rightarrow> Status" where
  "Propose_finish index node =
     (if \<not> Propose_wake index node then Status_Error ErrorCode_kIOError ''propose timed out waiting for commit''
      else if ds_last_applied_index (rn_storage node) < index then Status_Error ErrorCode_kInvalidArgument ''not leader''
      else Status_Ok)"

text \<open>\<open>wait p node\<close> is the node's state when \<^verbatim>\<open>cv_.wait_for(lock, kProposeTimeout, p)\<close> returns.\<close>

definition Propose ::
  "(bytes \<Rightarrow> u64) \<Rightarrow> rpc \<Rightarrow> ((RaftNode \<Rightarrow> bool) \<Rightarrow> RaftNode \<Rightarrow> RaftNode) \<Rightarrow> LogEntry \<Rightarrow> RaftNode \<Rightarrow> (Status \<times> RaftNode) option" where
  "Propose hash rpc wait entry node =
     (case Propose_begin entry node of
        None \<Rightarrow> None
      | Some (Inl status, node) \<Rightarrow> Some (status, node)
      | Some (Inr index, node) \<Rightarrow>
          let node = fold (ReplicateToPeer hash rpc) (other_peers node) node;
              node = wait (Propose_wake index) node
          in Some (Propose_finish index node, node))"

section \<open>ConfirmLeadershipQuorum\<close>

text \<open>
  \<^verbatim>\<open>ConfirmLeadershipQuorum\<close> first decides without RPCs (\<open>Inl\<close> the answer) or fixes the term of the round; then, for
  every other peer, it builds an empty AppendEntries request (\<open>None\<close> when it has to answer \<^verbatim>\<open>false\<close>), and looks at the reply.
\<close>

definition Confirm_begin :: "RaftNode \<Rightarrow> (bool + u64) \<times> RaftNode" where
  "Confirm_begin node =
     (if rn_state node \<noteq> RaftState_kLeader then (Inl False, node)
      else
        case HasRecentMajorityContactLocked node of (recent, node) \<Rightarrow>
          if recent then (Inl True, node) else (Inr (rn_current_term node), node))"

definition Confirm_request :: "u64 \<Rightarrow> PeerInfo \<Rightarrow> RaftNode \<Rightarrow> AppendEntriesRequest option \<times> RaftNode" where
  "Confirm_request trm peer node =
     (if rn_state node \<noteq> RaftState_kLeader \<or> rn_current_term node \<noteq> trm then (None, node)
      else
        let (next_idx, next_index) = map_at (rn_next_index node) (peer_node_id peer);
            prev_log_index = next_idx - 1 in
        (Some \<lparr>ae_term = trm, ae_leader_id = rn_local_node_id node, ae_prev_log_index = prev_log_index,
               ae_prev_log_term = prev_log_term_at node prev_log_index, ae_leader_commit = rn_commit_index node,
               ae_entries = []\<rparr>,
         node\<lparr>rn_next_index := next_index\<rparr>))"

definition Confirm_reply :: "u64 \<Rightarrow> PeerInfo \<Rightarrow> AppendEntriesResponse \<Rightarrow> nat \<Rightarrow> RaftNode \<Rightarrow> nat option \<times> RaftNode" where
  "Confirm_reply trm peer resp acks node =
     (if aer_term resp > rn_current_term node then (None, BecomeFollowerLocked (aer_term resp) node)
      else if rn_state node \<noteq> RaftState_kLeader \<or> rn_current_term node \<noteq> trm then (None, node)
      else if aer_success resp then
        let (now, node) = steady_clock_now node in
        (Some (acks + 1), node\<lparr>rn_last_ack_time := AList.update (peer_node_id peer) now (rn_last_ack_time node)\<rparr>)
      else (Some acks, node))"

fun Confirm_loop :: "rpc \<Rightarrow> u64 \<Rightarrow> nat \<Rightarrow> PeerInfo list \<Rightarrow> nat \<Rightarrow> RaftNode \<Rightarrow> bool \<times> RaftNode" where
  "Confirm_loop rpc trm maj [] acks node = (acks \<ge> maj, node)"
| "Confirm_loop rpc trm maj (peer # rest) acks node =
     (if peer_node_id peer = rn_local_node_id node then Confirm_loop rpc trm maj rest acks node
      else
        case Confirm_request trm peer node of
          (None, node) \<Rightarrow> (False, node)
        | (Some req, node) \<Rightarrow>
            (case rpc peer (append_rpc req) node of
               (Inl e, node) \<Rightarrow> Confirm_loop rpc trm maj rest acks node
             | (Inr result, node) \<Rightarrow>
                 (case DecodeAppendEntriesResponse (clresp_body result) of
                    Inl e \<Rightarrow> Confirm_loop rpc trm maj rest acks node
                  | Inr resp \<Rightarrow>
                      (case Confirm_reply trm peer resp acks node of
                         (None, node) \<Rightarrow> (False, node)
                       | (Some acks, node) \<Rightarrow> Confirm_loop rpc trm maj rest acks node))))"

definition ConfirmLeadershipQuorum :: "rpc \<Rightarrow> RaftNode \<Rightarrow> bool \<times> RaftNode" where
  "ConfirmLeadershipQuorum rpc node =
     (case Confirm_begin node of
        (Inl answer, node) \<Rightarrow> (answer, node)
      | (Inr trm, node) \<Rightarrow> Confirm_loop rpc trm (majority node) (cfg_peers (rn_config node)) 1 node)"

section \<open>Elections\<close>

definition StartElection_begin :: "RaftNode \<Rightarrow> RequestVoteRequest \<times> RaftNode" where
  "StartElection_begin node =
     (let node = node\<lparr>rn_current_term := rn_current_term node + 1, rn_voted_for := rn_local_node_id node,
                      rn_state := RaftState_kCandidate, rn_leader_id := 0\<rparr>;
          node = ResetElectionDeadlineLocked (PersistStateLocked node) in
      (\<lparr>rv_term = rn_current_term node, rv_candidate_id = rn_local_node_id node,
        rv_last_log_index = Log_LastIndex (rn_log node), rv_last_log_term = Log_LastTerm (rn_log node)\<rparr>, node))"

text \<open>One reply: the number of votes, or \<open>None\<close> when the candidacy is over.\<close>

definition StartElection_reply :: "u64 \<Rightarrow> RequestVoteResponse \<Rightarrow> nat \<Rightarrow> RaftNode \<Rightarrow> nat option \<times> RaftNode" where
  "StartElection_reply trm resp votes node =
     (if rn_state node \<noteq> RaftState_kCandidate \<or> rn_current_term node \<noteq> trm then (None, node)
      else if rvr_term resp > rn_current_term node then (None, BecomeFollowerLocked (rvr_term resp) node)
      else (Some (if rvr_vote_granted resp then votes + 1 else votes), node))"

definition StartElection_finish :: "u64 \<Rightarrow> nat \<Rightarrow> RaftNode \<Rightarrow> RaftNode" where
  "StartElection_finish trm votes node =
     (if rn_state node = RaftState_kCandidate \<and> rn_current_term node = trm \<and> votes \<ge> majority node
      then BecomeLeaderLocked node else node)"

definition vote_rpc :: "RequestVoteRequest \<Rightarrow> ClusterRequest" where
  "vote_rpc req = \<lparr>clreq_request_id = 0, clreq_opcode = ClusterOpcode_kRequestVote,
                   clreq_body = EncodeRequestVoteRequest req\<rparr>"

fun StartElection_loop :: "rpc \<Rightarrow> RequestVoteRequest \<Rightarrow> PeerInfo list \<Rightarrow> nat \<Rightarrow> RaftNode \<Rightarrow> RaftNode" where
  "StartElection_loop rpc req [] votes node = StartElection_finish (rv_term req) votes node"
| "StartElection_loop rpc req (peer # rest) votes node =
     (if peer_node_id peer = rn_local_node_id node then StartElection_loop rpc req rest votes node
      else
        case rpc peer (vote_rpc req) node of
          (Inl e, node) \<Rightarrow> StartElection_loop rpc req rest votes node
        | (Inr result, node) \<Rightarrow>
            (case DecodeRequestVoteResponse (clresp_body result) of
               Inl e \<Rightarrow> StartElection_loop rpc req rest votes node
             | Inr resp \<Rightarrow>
                 (case StartElection_reply (rv_term req) resp votes node of
                    (None, node) \<Rightarrow> node
                  | (Some votes, node) \<Rightarrow> StartElection_loop rpc req rest votes node)))"

definition StartElection :: "rpc \<Rightarrow> RaftNode \<Rightarrow> RaftNode" where
  "StartElection rpc node =
     (case StartElection_begin node of
        (req, node) \<Rightarrow> StartElection_loop rpc req (cfg_peers (rn_config node)) 1 node)"

section \<open>The background loop\<close>

text \<open>The decision taken under the lock: send heartbeats, start an election.\<close>

definition RunLoop_tick :: "RaftNode \<Rightarrow> (bool \<times> bool) \<times> RaftNode" where
  "RunLoop_tick node =
     (case steady_clock_now node of (now, node) \<Rightarrow>
        let election_timed_out = (rn_state node \<noteq> RaftState_kLeader \<and> now \<ge> rn_election_deadline node);
            send_heartbeat = (rn_state node = RaftState_kLeader \<and> now \<ge> rn_next_heartbeat node) in
        ((send_heartbeat, election_timed_out),
         if send_heartbeat then node\<lparr>rn_next_heartbeat := now + kHeartbeatInterval\<rparr> else node))"

definition RunLoop_body :: "(bytes \<Rightarrow> u64) \<Rightarrow> rpc \<Rightarrow> RaftNode \<Rightarrow> RaftNode" where
  "RunLoop_body hash rpc node =
     (case RunLoop_tick node of
        ((send_heartbeat, election_timed_out), node) \<Rightarrow>
          if send_heartbeat then fold (ReplicateToPeer hash rpc) (other_peers node) node
          else if election_timed_out then StartElection rpc node
          else node)"

text \<open>
  The whole loop. Its environment is a list: for every iteration, what the other threads do to the node (raising
  the stop flag included) before the loop condition is tested and while the thread sleeps. A list that ends without
  a stop is a run that has not ended yet.
\<close>

fun RunLoop :: "(bytes \<Rightarrow> u64) \<Rightarrow> rpc \<Rightarrow> ((RaftNode \<Rightarrow> RaftNode) \<times> (RaftNode \<Rightarrow> RaftNode)) list \<Rightarrow> RaftNode \<Rightarrow> RaftNode" where
  "RunLoop hash rpc [] node = node"
| "RunLoop hash rpc ((before, asleep) # env) node =
     (let node = before node in
      if rn_stop node then node
      else
        let node = asleep node in
        if rn_stop node then node else RunLoop hash rpc env (RunLoop_body hash rpc node))"

end
