(* ===== verification/Raft_Protocol.thy ===== *)
theory Raft_Protocol
  imports Raft_Rpc_Codec "HOL-Library.Sublist"
begin

text \<open>
  An abstract specification of the Raft protocol, over any set of nodes with intersecting quorums: roles, terms, votes and logs
  as mathematical objects, messages as a growing set, and history variables (votes cast, leaders elected, the log of
  every term's leader, acknowledgements). The locale \<open>quorums\<close> is its interface to the cluster membership. Inside it: at
  most one leader per term, the Log Matching property, Leader Completeness, and agreement of all committed prefixes. The theory
  \<^verbatim>\<open>Raft_Cluster\<close> shows that the critical sections of \<^verbatim>\<open>raft/node.cpp\<close> implement it, and where they do not.
\<close>

section \<open>Logs\<close>

type_synonym 'v tlog = "(nat \<times> 'v) list"   \<comment> \<open>term and command\<close>

definition term_at :: "'v tlog \<Rightarrow> nat \<Rightarrow> nat" where
  "term_at L p = (if p = 0 then 0 else fst (L ! (p - 1)))"

definition up_to_date :: "'v tlog \<Rightarrow> 'v tlog \<Rightarrow> bool" where
  "up_to_date cl l \<longleftrightarrow>
     term_at l (length l) < term_at cl (length cl)
     \<or> term_at l (length l) = term_at cl (length cl) \<and> length l \<le> length cl"

fun merge :: "nat \<Rightarrow> 'v tlog \<Rightarrow> 'v tlog \<Rightarrow> 'v tlog" where
  "merge p [] L = L"
| "merge p (e # es) L =
     (if p < length L \<and> fst (L ! p) = fst e then merge (Suc p) es L else merge (Suc p) es (take p L @ [e]))"

lemma merge_end: "length L = p \<Longrightarrow> merge p es L = L @ es"
  by (induction p es L rule: merge.induct) auto

text \<open>Entries that match are skipped; from the first that does not, the log is replaced by the new entries.\<close>

lemma merge_cases:
  assumes "p \<le> length L"
  obtains (same) "merge p es L = L" "\<forall>j < length es. p + j < length L \<and> fst (L ! (p + j)) = fst (es ! j)"
  | (replaced) k where "k < length es" "\<forall>j < k. p + j < length L \<and> fst (L ! (p + j)) = fst (es ! j)"
      "\<not> (p + k < length L \<and> fst (L ! (p + k)) = fst (es ! k))" "p + k \<le> length L"
      "merge p es L = take (p + k) L @ drop k es"
  using assms
proof (induction es arbitrary: p thesis)
  case (Cons e es)
  show ?case
  proof (cases "p < length L \<and> fst (L ! p) = fst e")
    case True
    then have m: "merge p (e # es) L = merge (Suc p) es L" "Suc p \<le> length L" by simp_all
    have ext: "\<forall>j < Suc k. p + j < length L \<and> fst (L ! (p + j)) = fst ((e # es) ! j)"
      if "\<forall>j < k. Suc p + j < length L \<and> fst (L ! (Suc p + j)) = fst (es ! j)" for k
      using that True by (auto simp: less_Suc_eq_0_disj)
    show ?thesis
    proof (rule Cons.IH [OF _ _ m(2)])
      assume "merge (Suc p) es L = L" "\<forall>j < length es. Suc p + j < length L \<and> fst (L ! (Suc p + j)) = fst (es ! j)"
      then show thesis using Cons.prems(1) m(1) ext by simp
    next
      fix k assume h: "k < length es" "\<forall>j < k. Suc p + j < length L \<and> fst (L ! (Suc p + j)) = fst (es ! j)"
        "\<not> (Suc p + k < length L \<and> fst (L ! (Suc p + k)) = fst (es ! k))" "Suc p + k \<le> length L"
        "merge (Suc p) es L = take (Suc p + k) L @ drop k es"
      show thesis by (rule Cons.prems(2) [of "Suc k"]) (use h m(1) ext [OF h(2)] in auto)
    qed
  next
    case False
    then have "merge p (e # es) L = (take p L @ [e]) @ es"
      using merge_end [of "take p L @ [e]" "Suc p" es] Cons.prems(3) by auto
    then show ?thesis using Cons.prems(2) [of 0] False Cons.prems(3) by auto
  qed
qed simp

section \<open>The protocol\<close>

record 'v Append =
  m_term :: nat
  m_prev :: nat
  m_prev_term :: nat
  m_entries :: "'v tlog"
  m_commit :: nat

record ('n, 'v) Raft =
  role :: "'n \<Rightarrow> RaftState"
  cterm :: "'n \<Rightarrow> nat"
  vote :: "'n \<Rightarrow> 'n option"
  elog :: "'n \<Rightarrow> 'v tlog"
  commit :: "'n \<Rightarrow> nat"
  candidacies :: "(nat \<times> 'n \<times> 'v tlog) set"       \<comment> \<open>term, candidate, its log\<close>
  grants :: "('n \<times> nat \<times> 'n \<times> 'v tlog) set"       \<comment> \<open>voter, term, candidate, the voter's log\<close>
  leaders :: "(nat \<times> 'n) set"
  electors :: "nat \<Rightarrow> 'n set"
  lead_log :: "nat \<Rightarrow> 'v tlog"                    \<comment> \<open>the log of the leader of a term\<close>
  msgs :: "('n \<times> 'v Append) set"                  \<comment> \<open>destination, message\<close>
  acks :: "('n \<times> nat \<times> nat) set"                  \<comment> \<open>node, term, length of the log acknowledged\<close>

definition raft_init :: "('n, 'v) Raft" where
  "raft_init = \<lparr>role = (\<lambda>_. RaftState_kFollower), cterm = (\<lambda>_. 0), vote = (\<lambda>_. None), elog = (\<lambda>_. []), commit = (\<lambda>_. 0),
     candidacies = {}, grants = {}, leaders = {}, electors = (\<lambda>_. {}), lead_log = (\<lambda>_. []), msgs = {}, acks = {}\<rparr>"

definition led :: "('n, 'v) Raft \<Rightarrow> nat \<Rightarrow> bool" where
  "led s t \<longleftrightarrow> (\<exists>n. (t, n) \<in> leaders s)"

definition acked :: "('n, 'v) Raft \<Rightarrow> 'n \<Rightarrow> nat \<Rightarrow> nat \<Rightarrow> bool" where
  "acked s v t k \<longleftrightarrow> (\<exists>k' \<ge> k. (v, t, k') \<in> acks s)"

definition granted :: "('n, 'v) Raft \<Rightarrow> 'n \<Rightarrow> nat \<Rightarrow> 'n \<Rightarrow> bool" where
  "granted s v t c \<longleftrightarrow> (\<exists>l. (v, t, c, l) \<in> grants s)"

inductive raft_step :: "('n set \<Rightarrow> bool) \<Rightarrow> ('n, 'v) Raft \<Rightarrow> ('n, 'v) Raft \<Rightarrow> bool" for Q where
  adopt: "cterm s n < t \<Longrightarrow>
    raft_step Q s (s\<lparr>cterm := (cterm s)(n := t), vote := (vote s)(n := None), role := (role s)(n := RaftState_kFollower)\<rparr>)"
| timeout: "role s n \<noteq> RaftState_kLeader \<Longrightarrow> t = Suc (cterm s n) \<Longrightarrow>
    raft_step Q s (s\<lparr>cterm := (cterm s)(n := t), vote := (vote s)(n := Some n), role := (role s)(n := RaftState_kCandidate),
      candidacies := insert (t, n, elog s n) (candidacies s), grants := insert (n, t, n, elog s n) (grants s)\<rparr>)"
| grant: "(cterm s n, c, cl) \<in> candidacies s \<Longrightarrow> c \<noteq> n \<Longrightarrow> vote s n = None \<or> vote s n = Some c \<Longrightarrow> up_to_date cl (elog s n) \<Longrightarrow>
    raft_step Q s (s\<lparr>vote := (vote s)(n := Some c), grants := insert (n, cterm s n, c, elog s n) (grants s)\<rparr>)"
| win: "role s n = RaftState_kCandidate \<Longrightarrow> Q S \<Longrightarrow> (\<forall>v \<in> S. granted s v (cterm s n) n) \<Longrightarrow>
    raft_step Q s (s\<lparr>role := (role s)(n := RaftState_kLeader), leaders := insert (cterm s n, n) (leaders s),
      electors := (electors s)(cterm s n := S), lead_log := (lead_log s)(cterm s n := elog s n),
      acks := insert (n, cterm s n, length (elog s n)) (acks s)\<rparr>)"
| stepdown: "role s n = RaftState_kCandidate \<Longrightarrow> raft_step Q s (s\<lparr>role := (role s)(n := RaftState_kFollower)\<rparr>)"
| propose: "role s n = RaftState_kLeader \<Longrightarrow> L = elog s n @ [(cterm s n, v)] \<Longrightarrow>
    raft_step Q s (s\<lparr>elog := (elog s)(n := L), lead_log := (lead_log s)(cterm s n := L),
      acks := insert (n, cterm s n, length L) (acks s)\<rparr>)"
| send: "role s n = RaftState_kLeader \<Longrightarrow> n \<noteq> d \<Longrightarrow> p \<le> length (elog s n) \<Longrightarrow>
    raft_step Q s (s\<lparr>msgs := insert (d, \<lparr>m_term = cterm s n, m_prev = p, m_prev_term = term_at (elog s n) p,
      m_entries = take j (drop p (elog s n)), m_commit = commit s n\<rparr>) (msgs s)\<rparr>)"
| receive: "(n, m) \<in> msgs s \<Longrightarrow> cterm s n = m_term m \<Longrightarrow> role s n \<noteq> RaftState_kCandidate \<Longrightarrow>
    m_prev m \<le> length (elog s n) \<Longrightarrow> term_at (elog s n) (m_prev m) = m_prev_term m \<Longrightarrow>
    raft_step Q s (s\<lparr>elog := (elog s)(n := merge (m_prev m) (m_entries m) (elog s n)),
      acks := insert (n, m_term m, m_prev m + length (m_entries m)) (acks s)\<rparr>)"
| advance: "role s n = RaftState_kLeader \<Longrightarrow> 0 < k \<Longrightarrow> k \<le> length (elog s n) \<Longrightarrow> fst (elog s n ! (k - 1)) = cterm s n \<Longrightarrow>
    Q S \<Longrightarrow> (\<forall>v \<in> S. acked s v (cterm s n) k) \<Longrightarrow>
    raft_step Q s (s\<lparr>commit := (commit s)(n := k)\<rparr>)"
| learn: "(n, m) \<in> msgs s \<Longrightarrow> cterm s n = m_term m \<Longrightarrow> acked s n (m_term m) (m_prev m + length (m_entries m)) \<Longrightarrow>
    raft_step Q s (s\<lparr>commit := (commit s)(n := min (m_commit m) (m_prev m + length (m_entries m)))\<rparr>)"
| restart: "raft_step Q s (s\<lparr>role := (role s)(n := RaftState_kFollower), commit := (commit s)(n := 0)\<rparr>)"

inductive raft_reach :: "('n set \<Rightarrow> bool) \<Rightarrow> ('n, 'v) Raft \<Rightarrow> bool" for Q where
  init: "raft_reach Q raft_init"
| step: "raft_reach Q s \<Longrightarrow> raft_step Q s s' \<Longrightarrow> raft_reach Q s'"

section \<open>Invariants\<close>

definition vote_inv :: "('n, 'v) Raft \<Rightarrow> bool" where
  "vote_inv s \<longleftrightarrow>
     (\<forall>v t c. granted s v t c \<longrightarrow> t \<le> cterm s v \<and> (t = cterm s v \<longrightarrow> vote s v = Some c))
     \<and> (\<forall>v t c c'. granted s v t c \<longrightarrow> granted s v t c' \<longrightarrow> c = c')"

definition cand_inv :: "('n, 'v) Raft \<Rightarrow> bool" where
  "cand_inv s \<longleftrightarrow>
     (\<forall>n. role s n = RaftState_kCandidate \<longrightarrow> (cterm s n, n, elog s n) \<in> candidacies s)
     \<and> (\<forall>t c l. (t, c, l) \<in> candidacies s \<longrightarrow> t \<le> cterm s c)
     \<and> (\<forall>t c l l'. (t, c, l) \<in> candidacies s \<longrightarrow> (t, c, l') \<in> candidacies s \<longrightarrow> l = l')
     \<and> (\<forall>v t c l. (v, t, c, l) \<in> grants s \<longrightarrow> (\<exists>cl. (t, c, cl) \<in> candidacies s \<and> up_to_date cl l))"

definition leader_inv :: "('n set \<Rightarrow> bool) \<Rightarrow> ('n, 'v) Raft \<Rightarrow> bool" where
  "leader_inv Q s \<longleftrightarrow>
     (\<forall>t n. (t, n) \<in> leaders s \<longrightarrow> t \<le> cterm s n \<and> (t = cterm s n \<longrightarrow> role s n \<noteq> RaftState_kCandidate)
        \<and> Q (electors s t) \<and> (\<forall>v \<in> electors s t. granted s v t n))
     \<and> (\<forall>n. role s n = RaftState_kLeader \<longrightarrow> (cterm s n, n) \<in> leaders s)"

text \<open>A well-formed log: every prefix that ends in an entry of term \<open>t\<close> is a prefix of the log of the leader of \<open>t\<close>.\<close>

definition wf_log :: "('n, 'v) Raft \<Rightarrow> 'v tlog \<Rightarrow> bool" where
  "wf_log s L \<longleftrightarrow>
     (\<forall>i < length L. led s (fst (L ! i)) \<and> take (Suc i) L = take (Suc i) (lead_log s (fst (L ! i))))
     \<and> sorted (map fst L)"

definition log_inv :: "('n, 'v) Raft \<Rightarrow> bool" where
  "log_inv s \<longleftrightarrow>
     (\<forall>n. wf_log s (elog s n) \<and> (\<forall>e \<in> set (elog s n). fst e \<le> cterm s n))
     \<and> (\<forall>t. led s t \<longrightarrow> wf_log s (lead_log s t) \<and> (\<forall>e \<in> set (lead_log s t). fst e \<le> t))
     \<and> (\<forall>n. role s n = RaftState_kLeader \<longrightarrow> elog s n = lead_log s (cterm s n))
     \<and> (\<forall>t c l. (t, c, l) \<in> candidacies s \<longrightarrow> wf_log s l \<and> (\<forall>e \<in> set l. fst e < t))
     \<and> (\<forall>v t c l. (v, t, c, l) \<in> grants s \<longrightarrow> wf_log s l)
     \<and> (\<forall>t n. (t, n) \<in> leaders s \<longrightarrow> (\<exists>l. (t, n, l) \<in> candidacies s \<and> prefix l (lead_log s t)))"

definition msg_inv :: "('n, 'v) Raft \<Rightarrow> bool" where
  "msg_inv s \<longleftrightarrow>
     (\<forall>d m. (d, m) \<in> msgs s \<longrightarrow> (\<exists>l. (m_term m, l) \<in> leaders s \<and> l \<noteq> d)
        \<and> m_prev m + length (m_entries m) \<le> length (lead_log s (m_term m))
        \<and> m_entries m = take (length (m_entries m)) (drop (m_prev m) (lead_log s (m_term m)))
        \<and> m_prev_term m = term_at (lead_log s (m_term m)) (m_prev m))"

definition grows :: "('n, 'v) Raft \<Rightarrow> ('n, 'v) Raft \<Rightarrow> bool" where
  "grows s s' \<longleftrightarrow> (\<forall>t. led s t \<longrightarrow> led s' t \<and> prefix (lead_log s t) (lead_log s' t))"

lemma take_prefix_eq: "prefix A B \<Longrightarrow> k \<le> length A \<Longrightarrow> take k B = take k A"
  by (auto simp: prefix_def)

lemma take_eq_length: "take k A = take k B \<Longrightarrow> k \<le> length B \<Longrightarrow> k \<le> length A"
  by (metis length_take min.absorb2 min.cobounded1)

lemma take_eq_take: "take k A = take k B \<Longrightarrow> j \<le> k \<Longrightarrow> take j A = take j B"
  by (metis min.absorb1 take_take)

lemma take_Suc_nth: "i < length A \<Longrightarrow> i < length B \<Longrightarrow> take (Suc i) A = take (Suc i) B \<Longrightarrow> A ! i = B ! i"
  by (metis lessI nth_take)

lemma wf_logD:
  assumes "wf_log s L" "i < length L"
  shows "led s (fst (L ! i))" "take (Suc i) L = take (Suc i) (lead_log s (fst (L ! i)))"
    "i < length (lead_log s (fst (L ! i)))"
proof -
  show *: "led s (fst (L ! i))" "take (Suc i) L = take (Suc i) (lead_log s (fst (L ! i)))" using assms by (auto simp: wf_log_def)
  show "i < length (lead_log s (fst (L ! i)))" using take_eq_length [OF *(2) [symmetric]] assms(2) by simp
qed

lemma wf_log_Nil [simp]: "wf_log s []"
  by (simp add: wf_log_def)

lemma wf_log_take: "wf_log s L \<Longrightarrow> wf_log s (take n L)"
  unfolding wf_log_def by (auto simp: take_map [symmetric] sorted_wrt_take min_def dest: take_eq_take)

lemma wf_log_grows:
  assumes "wf_log s L" "grows s s'"
  shows "wf_log s' L"
proof -
  have "led s' (fst (L ! i)) \<and> take (Suc i) L = take (Suc i) (lead_log s' (fst (L ! i)))" if "i < length L" for i
    using wf_logD [OF assms(1) that] assms(2) take_prefix_eq [of "lead_log s (fst (L ! i))" "lead_log s' (fst (L ! i))" "Suc i"]
    by (auto simp: grows_def)
  then show ?thesis using assms(1) by (simp add: wf_log_def)
qed

lemma wf_log_snoc:
  assumes "wf_log s L" "grows s s'" "led s' t" "lead_log s' t = L @ [(t, v)]" "\<forall>e \<in> set L. fst e \<le> t"
  shows "wf_log s' (L @ [(t, v)])"
  using wf_log_grows [OF assms(1,2)] assms(3-5)
  by (auto simp: wf_log_def nth_append sorted_append less_Suc_eq)

text \<open>Log Matching: two well-formed logs with the same term at the same position agree up to it.\<close>

lemma wf_log_matching:
  assumes "wf_log s A" "wf_log s B" "i < length A" "i < length B" "fst (A ! i) = fst (B ! i)"
  shows "take (Suc i) A = take (Suc i) B"
  using wf_logD(2) [OF assms(1,3)] wf_logD(2) [OF assms(2,4)] assms(5) by simp

lemma term_at_matching:
  assumes "wf_log s A" "wf_log s B" "p \<le> length A" "p \<le> length B" "term_at A p = term_at B p"
  shows "take p A = take p B"
proof (cases p)
  case (Suc i)
  then show ?thesis using wf_log_matching [OF assms(1,2), of i] assms(3-5) by (simp add: term_at_def)
qed simp

text \<open>What receiving entries of a leader's log \<open>T\<close> does to a log.\<close>

lemma merge_leader:
  assumes wf: "wf_log s L" "wf_log s T" and p: "p \<le> length L" "p + length es \<le> length T"
    and es: "es = take (length es) (drop p T)" and pt: "term_at L p = term_at T p"
  obtains (same) "merge p es L = L" "take (p + length es) L = take (p + length es) T"
  | (replaced) j where "merge p es L = take (p + length es) T" "j < p + length es" "take j L = take j T"
      "\<not> (j < length L \<and> fst (L ! j) = fst (T ! j))"
proof -
  have pre: "take p L = take p T" using term_at_matching [OF wf p(1) _ pt] p(2) by simp
  have esj: "es ! j = T ! (p + j)" if "j < length es" for j using that p(2) by (subst es) simp
  have upto: "take (p + k) L = take (p + k) T"
    if "\<forall>j < k. p + j < length L \<and> fst (L ! (p + j)) = fst (es ! j)" "k \<le> length es" for k
  proof (cases k)
    case (Suc j)
    then show ?thesis using wf_log_matching [OF wf, of "p + j"] that p(2) esj by simp
  qed (use pre in simp)
  from p(1) show thesis
  proof (cases rule: merge_cases [where es = es])
    case same
    then show ?thesis using that(1) upto [of "length es"] by simp
  next
    case (replaced k)
    have "drop k es = take (length es - k) (drop (p + k) T)"
      by (subst es) (simp add: drop_take add.commute)
    then have "take (p + k) T @ drop k es = take (p + length es) T"
      using replaced(1) take_add [of "p + k" "length es - k" T] by simp
    then show ?thesis
      using that(2) [of "p + k"] replaced upto [of k] esj [of k] by simp
  qed
qed

abbreviation raft_steps :: "('n set \<Rightarrow> bool) \<Rightarrow> ('n, 'v) Raft \<Rightarrow> ('n, 'v) Raft \<Rightarrow> bool" where
  "raft_steps Q \<equiv> (raft_step Q)\<^sup>*\<^sup>*"

text \<open>Terms and history only grow.\<close>

lemma step_mono:
  "raft_step Q s s' \<Longrightarrow> cterm s n \<le> cterm s' n \<and> grants s \<subseteq> grants s' \<and> candidacies s \<subseteq> candidacies s' \<and> leaders s \<subseteq> leaders s'
     \<and> msgs s \<subseteq> msgs s' \<and> acks s \<subseteq> acks s'"
  by (induction rule: raft_step.induct) auto

lemma steps_mono:
  "raft_steps Q s s' \<Longrightarrow> cterm s n \<le> cterm s' n \<and> grants s \<subseteq> grants s' \<and> candidacies s \<subseteq> candidacies s' \<and> leaders s \<subseteq> leaders s'
     \<and> msgs s \<subseteq> msgs s' \<and> acks s \<subseteq> acks s'"
proof (induction rule: rtranclp_induct)
  case (step y z)
  then show ?case using step_mono [OF step(2), of n] by auto
qed simp

lemma step_granted: "raft_step Q s s' \<Longrightarrow> granted s v t c \<Longrightarrow> granted s' v t c"
  using step_mono [of Q s s'] unfolding granted_def by blast

lemma step_led: "raft_step Q s s' \<Longrightarrow> led s t \<Longrightarrow> led s' t"
  using step_mono [of Q s s'] unfolding led_def by blast

lemma step_acked: "raft_step Q s s' \<Longrightarrow> acked s v t k \<Longrightarrow> acked s' v t k"
  using step_mono [of Q s s'] unfolding acked_def by blast

text \<open>
  Acknowledged entries. What a node acknowledged in term \<open>t\<close> is still in its log, unless a later leader's log differs there
  (\<open>diverged\<close>); the same holds of the log it had when it voted for a later leader.
\<close>

definition diverged :: "('n, 'v) Raft \<Rightarrow> nat \<Rightarrow> nat \<Rightarrow> nat \<Rightarrow> bool" where
  "diverged s t k u \<longleftrightarrow> (\<exists>t'. led s t' \<and> t < t' \<and> t' \<le> u \<and> take k (lead_log s t') \<noteq> take k (lead_log s t))"

definition ack_inv :: "('n, 'v) Raft \<Rightarrow> bool" where
  "ack_inv s \<longleftrightarrow>
     (\<forall>v t k. acked s v t k \<longrightarrow> led s t \<and> t \<le> cterm s v \<and> k \<le> length (lead_log s t)
        \<and> (take k (elog s v) = take k (lead_log s t) \<or> diverged s t k (cterm s v)))"

definition kept :: "('n, 'v) Raft \<Rightarrow> 'n \<Rightarrow> nat \<Rightarrow> 'v tlog \<Rightarrow> bool" where
  "kept s v u l \<longleftrightarrow>
     (\<forall>t k. acked s v t k \<longrightarrow> t < u \<longrightarrow> take k l = take k (lead_log s t) \<or> diverged s t k (u - 1))"

definition elect_inv :: "('n, 'v) Raft \<Rightarrow> bool" where
  "elect_inv s \<longleftrightarrow>
     (\<forall>v u c l. (v, u, c, l) \<in> grants s \<longrightarrow> \<not> led s u \<longrightarrow> kept s v u l)
     \<and> (\<forall>u c v. (u, c) \<in> leaders s \<longrightarrow> v \<in> electors s u \<longrightarrow> (\<exists>l. (v, u, c, l) \<in> grants s \<and> kept s v u l))"

definition committed :: "('n set \<Rightarrow> bool) \<Rightarrow> ('n, 'v) Raft \<Rightarrow> nat \<Rightarrow> nat \<Rightarrow> bool" where
  "committed Q s t k \<longleftrightarrow>
     led s t \<and> 0 < k \<and> k \<le> length (lead_log s t) \<and> fst (lead_log s t ! (k - 1)) = t
     \<and> (\<exists>S. Q S \<and> (\<forall>v \<in> S. acked s v t k))"

text \<open>Every commit index, of a node or in a message, is covered by something committed in an earlier or the same term.\<close>

definition covered :: "('n set \<Rightarrow> bool) \<Rightarrow> ('n, 'v) Raft \<Rightarrow> nat \<Rightarrow> nat \<Rightarrow> 'v tlog \<Rightarrow> bool" where
  "covered Q s u c L \<longleftrightarrow>
     c = 0 \<or> (\<exists>t k. t \<le> u \<and> committed Q s t k \<and> c \<le> k \<and> take c L = take c (lead_log s t))"

definition commit_inv :: "('n set \<Rightarrow> bool) \<Rightarrow> ('n, 'v) Raft \<Rightarrow> bool" where
  "commit_inv Q s \<longleftrightarrow>
     (\<forall>n. covered Q s (cterm s n) (commit s n) (elog s n))
     \<and> (\<forall>d m. (d, m) \<in> msgs s \<longrightarrow> covered Q s (m_term m) (m_commit m) (lead_log s (m_term m)))"

definition raft_inv :: "('n set \<Rightarrow> bool) \<Rightarrow> ('n, 'v) Raft \<Rightarrow> bool" where
  "raft_inv Q s \<longleftrightarrow> vote_inv s \<and> cand_inv s \<and> leader_inv Q s \<and> log_inv s \<and> msg_inv s \<and> ack_inv s \<and> elect_inv s \<and> commit_inv Q s"

lemma take_snoc_later:
  fixes X Y :: "'v tlog"
  assumes "take k (X @ [(u, v)]) = take k Y" "\<forall>e \<in> set Y. fst e < u"
  shows "take k X = take k Y"
proof (cases "k \<le> length X")
  case False
  then have "(u, v) \<in> set (take k Y)" using assms(1) by (metis in_set_conv_decomp length_append_singleton not_less_eq_eq take_all)
  then have "(u, v) \<in> set Y" by (rule in_set_takeD)
  then show ?thesis using assms(2) by fastforce
qed (use assms(1) in simp)

lemma sorted_nth_le: "sorted (map fst L) \<Longrightarrow> i \<le> j \<Longrightarrow> j < length L \<Longrightarrow> fst (L ! i) \<le> fst (L ! j)"
  using sorted_nth_mono [of "map fst L" i j] by simp

locale quorums =
  fixes Q :: "'n set \<Rightarrow> bool"
  assumes intersect: "Q A \<Longrightarrow> Q B \<Longrightarrow> A \<inter> B \<noteq> {}"
begin

lemma vote_invD:
  assumes "vote_inv s" "granted s v t c"
  shows "t \<le> cterm s v" "t = cterm s v \<Longrightarrow> vote s v = Some c" "granted s v t c' \<Longrightarrow> c' = c"
  using assms by (auto simp: vote_inv_def)

lemma vote_inv_step: "raft_step Q s s' \<Longrightarrow> vote_inv s \<Longrightarrow> vote_inv s'"
proof (induction rule: raft_step.induct)
  case (adopt s n t)
  then show ?case by (fastforce simp: vote_inv_def granted_def)
next
  case (timeout s n t)
  let ?s' = "s\<lparr>cterm := (cterm s)(n := t), vote := (vote s)(n := Some n), role := (role s)(n := RaftState_kCandidate),
      candidacies := insert (t, n, elog s n) (candidacies s), grants := insert (n, t, n, elog s n) (grants s)\<rparr>"
  have g: "granted ?s' v r c \<longleftrightarrow> granted s v r c \<or> v = n \<and> r = t \<and> c = n" for v r c by (auto simp: granted_def)
  have "\<not> granted s n t c" for c using vote_invD(1) [OF timeout(3), of n t c] timeout(2) by auto
  then show ?case using vote_invD [OF timeout(3)] timeout(2) unfolding vote_inv_def g by (fastforce dest: le_SucI)
next
  case (grant s n c cl)
  let ?s' = "s\<lparr>vote := (vote s)(n := Some c), grants := insert (n, cterm s n, c, elog s n) (grants s)\<rparr>"
  have g: "granted ?s' v r d \<longleftrightarrow> granted s v r d \<or> v = n \<and> r = cterm s n \<and> d = c" for v r d by (auto simp: granted_def)
  have "granted s n (cterm s n) d \<Longrightarrow> d = c" for d using vote_invD(2) [OF grant(5), of n "cterm s n" d] grant(3) by auto
  then show ?case using vote_invD [OF grant(5)] unfolding vote_inv_def g by auto
qed (auto simp: vote_inv_def granted_def)

lemma cand_invD:
  assumes "cand_inv s"
  shows "role s n = RaftState_kCandidate \<Longrightarrow> (cterm s n, n, elog s n) \<in> candidacies s"
    "(t, c, l) \<in> candidacies s \<Longrightarrow> t \<le> cterm s c"
    "(t, c, l) \<in> candidacies s \<Longrightarrow> (t, c, l') \<in> candidacies s \<Longrightarrow> l' = l"
    "(v, t, c, l) \<in> grants s \<Longrightarrow> \<exists>cl. (t, c, cl) \<in> candidacies s \<and> up_to_date cl l"
  using assms unfolding cand_inv_def by blast+

lemma leader_invD:
  assumes "leader_inv Q s"
  shows "(t, n) \<in> leaders s \<Longrightarrow> t \<le> cterm s n" "(t, n) \<in> leaders s \<Longrightarrow> t = cterm s n \<Longrightarrow> role s n \<noteq> RaftState_kCandidate"
    "(t, n) \<in> leaders s \<Longrightarrow> Q (electors s t)" "(t, n) \<in> leaders s \<Longrightarrow> v \<in> electors s t \<Longrightarrow> granted s v t n"
    "role s n = RaftState_kLeader \<Longrightarrow> (cterm s n, n) \<in> leaders s"
  using assms unfolding leader_inv_def by blast+

lemma cand_inv_step: "raft_step Q s s' \<Longrightarrow> cand_inv s \<Longrightarrow> cand_inv s'"
proof (induction rule: raft_step.induct)
  case (adopt s n t)
  have "r \<le> t" if "(r, n, l) \<in> candidacies s" for r l using cand_invD(2) [OF adopt(2) that] adopt(1) by simp
  then show ?case using adopt unfolding cand_inv_def by auto
next
  case (timeout s n t)
  have "r < t" if "(r, n, l) \<in> candidacies s" for r l using cand_invD(2) [OF timeout(3) that] timeout(2) by simp
  moreover have "up_to_date (elog s n) (elog s n)" by (simp add: up_to_date_def)
  ultimately show ?case
    using timeout unfolding cand_inv_def by (intro conjI allI impI) (auto split: if_splits dest: less_imp_le, (metis | force)+)
qed (auto simp: cand_inv_def)

lemma leader_unique:
  assumes "vote_inv s" "leader_inv Q s" "(t, a) \<in> leaders s" "(t, b) \<in> leaders s"
  shows "a = b"
proof -
  obtain v where "v \<in> electors s t" using leader_invD(3) [OF assms(2,3)] intersect [of "electors s t" "electors s t"] by auto
  then have "granted s v t a" "granted s v t b" using leader_invD(4) [OF assms(2)] assms(3,4) by blast+
  then show ?thesis using vote_invD(3) [OF assms(1)] by blast
qed

lemma win_fresh:
  assumes "vote_inv s" "leader_inv Q s" "role s n = RaftState_kCandidate" "Q S" "\<forall>v \<in> S. granted s v (cterm s n) n"
  shows "\<not> led s (cterm s n)"
proof
  assume "led s (cterm s n)"
  then obtain m where m: "(cterm s n, m) \<in> leaders s" by (auto simp: led_def)
  obtain v where v: "v \<in> S" "v \<in> electors s (cterm s n)" using intersect [OF assms(4) leader_invD(3) [OF assms(2) m]] by auto
  then have "granted s v (cterm s n) m" using leader_invD(4) [OF assms(2) m] by blast
  then have "m = n" using vote_invD(3) [OF assms(1)] assms(5) v(1) by blast
  then show False using leader_invD(2) [OF assms(2) m] assms(3) by simp
qed

lemma leader_inv_step: "raft_step Q s s' \<Longrightarrow> vote_inv s \<Longrightarrow> leader_inv Q s \<Longrightarrow> leader_inv Q s'"
proof (induction rule: raft_step.induct)
  case (adopt s n t)
  have "r \<le> t \<and> r \<noteq> t" if "(r, n) \<in> leaders s" for r using leader_invD(1) [OF adopt(3) that] adopt(1) by simp
  then show ?case using adopt(3) unfolding leader_inv_def granted_def by auto
next
  case (timeout s n t)
  let ?s' = "s\<lparr>cterm := (cterm s)(n := t), vote := (vote s)(n := Some n), role := (role s)(n := RaftState_kCandidate),
      candidacies := insert (t, n, elog s n) (candidacies s), grants := insert (n, t, n, elog s n) (grants s)\<rparr>"
  have "granted s v r c \<Longrightarrow> granted ?s' v r c" for v r c by (auto simp: granted_def)
  moreover have "r \<le> t \<and> r \<noteq> t" if "(r, n) \<in> leaders s" for r using leader_invD(1) [OF timeout(4) that] timeout(2) by simp
  ultimately show ?case using timeout(4) unfolding leader_inv_def by auto
next
  case (grant s n c cl)
  let ?s' = "s\<lparr>vote := (vote s)(n := Some c), grants := insert (n, cterm s n, c, elog s n) (grants s)\<rparr>"
  have "granted s v r d \<Longrightarrow> granted ?s' v r d" for v r d by (auto simp: granted_def)
  then show ?case using grant(6) unfolding leader_inv_def by auto
next
  case (win s n S)
  then have "\<not> led s (cterm s n)" using win_fresh by blast
  then show ?case using win by (auto simp: leader_inv_def led_def granted_def)
qed (auto simp: leader_inv_def granted_def)

lemma grows_step: "raft_step Q s s' \<Longrightarrow> vote_inv s \<Longrightarrow> leader_inv Q s \<Longrightarrow> log_inv s \<Longrightarrow> grows s s'"
proof (induction rule: raft_step.induct)
  case (win s n S)
  then have "\<not> led s (cterm s n)" using win_fresh by blast
  then show ?case by (auto simp: grows_def led_def)
next
  case (propose s n L v)
  then show ?case by (auto simp: grows_def led_def log_inv_def)
qed (auto simp: grows_def led_def)

lemma log_invD:
  assumes "log_inv s"
  shows "wf_log s (elog s n)" "e \<in> set (elog s n) \<Longrightarrow> fst e \<le> cterm s n"
    "led s t \<Longrightarrow> wf_log s (lead_log s t)" "led s t \<Longrightarrow> e \<in> set (lead_log s t) \<Longrightarrow> fst e \<le> t"
    "role s n = RaftState_kLeader \<Longrightarrow> elog s n = lead_log s (cterm s n)"
    "(t, c, l) \<in> candidacies s \<Longrightarrow> wf_log s l" "(t, c, l) \<in> candidacies s \<Longrightarrow> e \<in> set l \<Longrightarrow> fst e < t"
    "(v, t, c, l) \<in> grants s \<Longrightarrow> wf_log s l"
    "(t, n) \<in> leaders s \<Longrightarrow> \<exists>l. (t, n, l) \<in> candidacies s \<and> prefix l (lead_log s t)"
  using assms unfolding log_inv_def by blast+

lemma msg_invD:
  assumes "msg_inv s" "(d, m) \<in> msgs s"
  shows "\<exists>l. (m_term m, l) \<in> leaders s \<and> l \<noteq> d" "m_prev m + length (m_entries m) \<le> length (lead_log s (m_term m))"
    "m_entries m = take (length (m_entries m)) (drop (m_prev m) (lead_log s (m_term m)))"
    "m_prev_term m = term_at (lead_log s (m_term m)) (m_prev m)" "led s (m_term m)"
  using assms unfolding msg_inv_def led_def by blast+

text \<open>What a received message does to the log of its receiver.\<close>

lemma receive_log:
  assumes "log_inv s" "msg_inv s" "(n, m) \<in> msgs s" "m_prev m \<le> length (elog s n)" "term_at (elog s n) (m_prev m) = m_prev_term m"
  obtains (same) "merge (m_prev m) (m_entries m) (elog s n) = elog s n"
      "take (m_prev m + length (m_entries m)) (elog s n) = take (m_prev m + length (m_entries m)) (lead_log s (m_term m))"
  | (replaced) j where "merge (m_prev m) (m_entries m) (elog s n) = take (m_prev m + length (m_entries m)) (lead_log s (m_term m))"
      "j < m_prev m + length (m_entries m)" "take j (elog s n) = take j (lead_log s (m_term m))"
      "\<not> (j < length (elog s n) \<and> fst (elog s n ! j) = fst (lead_log s (m_term m) ! j))"
proof -
  note m = msg_invD [OF assms(2,3)]
  show thesis
    by (rule merge_leader [OF log_invD(1) [OF assms(1), of n] log_invD(3) [OF assms(1) m(5)] assms(4) m(2,3)])
      (use that assms(5) m(4) in auto)
qed

lemma receiver_not_leader:
  assumes "vote_inv s" "leader_inv Q s" "msg_inv s" "(n, m) \<in> msgs s" "cterm s n = m_term m"
  shows "role s n \<noteq> RaftState_kLeader"
  using msg_invD(1) [OF assms(3,4)] leader_invD(5) [OF assms(2), of n] leader_unique [OF assms(1,2)] assms(5) by auto

lemma elog_step:
  assumes "raft_step Q s s'" "vote_inv s" "leader_inv Q s" "log_inv s" "msg_inv s"
  shows "wf_log s' (elog s' n) \<and> (\<forall>e \<in> set (elog s' n). fst e \<le> cterm s' n)"
proof -
  note g = grows_step [OF assms(1-4)] note w = wf_log_grows [OF _ g]
  note inv = log_invD [OF assms(4)]
  have keep: ?thesis if "elog s' n = elog s n"
  proof -
    have "cterm s n \<le> cterm s' n" using step_mono [OF assms(1)] by blast
    then have "\<forall>e \<in> set (elog s n). fst e \<le> cterm s' n" using inv(2) le_trans by blast
    then show ?thesis using that w [OF inv(1) [of n]] by simp
  qed
  from assms(1) show ?thesis
  proof cases
    case (propose m L v)
    have "led s' (cterm s m)" "lead_log s' (cterm s m) = elog s m @ [(cterm s m, v)]" "elog s' m = L" "cterm s' m = cterm s m"
      using leader_invD(5) [OF assms(3), of m] propose(1-3) by (auto simp: led_def)
    moreover from this have "wf_log s' L"
      unfolding propose(3) using wf_log_snoc [OF inv(1) [of m] g, of "cterm s m" v] inv(2) [of _ m] by blast
    moreover have "\<forall>e \<in> set L. fst e \<le> cterm s m" unfolding propose(3) using inv(2) [of _ m] by auto
    ultimately show ?thesis using keep propose(1) by (cases "n = m") simp_all
  next
    case (receive m msg)
    note led = msg_invD(5) [OF assms(5) receive(2)]
    have eqs: "elog s' m = merge (m_prev msg) (m_entries msg) (elog s m)" "cterm s' m = cterm s m"
      "n \<noteq> m \<Longrightarrow> elog s' n = elog s n" by (simp_all add: receive(1))
    from assms(4,5) receive(2,5,6) have "wf_log s' (elog s' m) \<and> (\<forall>e \<in> set (elog s' m). fst e \<le> cterm s m)"
    proof (cases rule: receive_log)
      case same
      then show ?thesis unfolding eqs using w [OF inv(1) [of m]] inv(2) [of _ m] by simp
    next
      case (replaced j)
      have "\<forall>e \<in> set (take k (lead_log s (m_term msg))). fst e \<le> cterm s m" for k
        using inv(4) [OF led] receive(3) by (auto dest: in_set_takeD)
      then show ?thesis unfolding eqs replaced(1) using w [OF wf_log_take [OF inv(3) [OF led]]] by blast
    qed
    then show ?thesis using keep eqs by (cases "n = m") simp_all
  qed (use keep in auto)
qed

lemma lead_log_step:
  assumes "raft_step Q s s'" "vote_inv s" "leader_inv Q s" "log_inv s" "msg_inv s"
  shows "role s' n = RaftState_kLeader \<Longrightarrow> elog s' n = lead_log s' (cterm s' n)" (is "?lead \<Longrightarrow> _")
    and "led s' t \<Longrightarrow> wf_log s' (lead_log s' t) \<and> (\<forall>e \<in> set (lead_log s' t). fst e \<le> t)" (is "?led \<Longrightarrow> ?wf")
proof -
  note g = grows_step [OF assms(1-4)] note w = wf_log_grows [OF _ g]
  note inv = log_invD [OF assms(4)]
  have keep: ?wf if "lead_log s' t = lead_log s t" "led s t" using that w inv(3,4) by auto
  have one: "m = m'" if "role s m = RaftState_kLeader" "role s m' = RaftState_kLeader" "cterm s m = cterm s m'" for m m'
    using leader_unique [OF assms(2,3)] leader_invD(5) [OF assms(3)] that by metis
  show "elog s' n = lead_log s' (cterm s' n)" if ?lead
    using assms(1)
  proof cases
    case (win m S)
    then have "\<not> led s (cterm s m)" using win_fresh [OF assms(2,3)] by blast
    then have "role s n = RaftState_kLeader \<Longrightarrow> cterm s n \<noteq> cterm s m" using leader_invD(5) [OF assms(3), of n] by (auto simp: led_def)
    then show ?thesis using win that inv(5) by (auto split: if_splits)
  next
    case (propose m L v)
    then show ?thesis using that inv(5) one [of n m] by (auto split: if_splits)
  next
    case (receive m msg)
    then show ?thesis using that inv(5) receiver_not_leader [OF assms(2,3,5)] by (auto split: if_splits)
  qed (use that inv(5) in \<open>auto split: if_splits\<close>)
  show ?wf if ?led
    using assms(1)
  proof cases
    case (win m S)
    then show ?thesis using that keep elog_step [OF assms, of m] by (cases "t = cterm s m") (auto simp: led_def)
  next
    case (propose m L v)
    then have "led s t" using that by (simp add: led_def)
    then show ?thesis using keep propose elog_step [OF assms, of m] by (cases "t = cterm s m") auto
  qed (use that keep in \<open>auto simp: led_def\<close>)
qed

lemma log_inv_step:
  assumes "raft_step Q s s'" "vote_inv s" "cand_inv s" "leader_inv Q s" "log_inv s" "msg_inv s"
  shows "log_inv s'"
proof -
  note g = grows_step [OF assms(1,2,4,5)] note w = wf_log_grows [OF _ g]
  note inv = log_invD [OF assms(5)] note mono = step_mono [OF assms(1)]
  have "wf_log s' l \<and> (\<forall>e \<in> set l. fst e < t)" if "(t, c, l) \<in> candidacies s'" for t c l
    using assms(1)
  proof cases
    case (timeout n r)
    have "fst e < r" if "e \<in> set (elog s n)" for e using inv(2) [OF that] timeout by simp
    then show ?thesis using that timeout w inv(1,6,7) by auto
  qed (use that w inv(6,7) in auto)
  moreover have "wf_log s' l" if "(v, t, c, l) \<in> grants s'" for v t c l
    using assms(1) by cases (use that w inv(1,8) in auto)
  moreover have "\<exists>l. (t, n, l) \<in> candidacies s' \<and> prefix l (lead_log s' t)" if "(t, n) \<in> leaders s'" for t n
  proof (cases "(t, n) \<in> leaders s")
    case True
    then show ?thesis using inv(9) mono g unfolding grows_def led_def by (blast intro: prefix_order.trans)
  next
    case False
    from assms(1) show ?thesis
    proof cases
      case (win m S)
      then have "(t, n, elog s n) \<in> candidacies s \<and> lead_log s' t = elog s n"
        using False that cand_invD(1) [OF assms(3), of n] by auto
      then show ?thesis using win by auto
    qed (use that False in auto)
  qed
  ultimately show ?thesis
    using elog_step [OF assms(1,2,4-6)] lead_log_step [OF assms(1,2,4-6)] unfolding log_inv_def by blast
qed

lemma msg_inv_step:
  assumes "raft_step Q s s'" "vote_inv s" "leader_inv Q s" "log_inv s" "msg_inv s"
  shows "msg_inv s'"
proof -
  let ?ok = "\<lambda>d m. (\<exists>l. (m_term m, l) \<in> leaders s' \<and> l \<noteq> d)
        \<and> m_prev m + length (m_entries m) \<le> length (lead_log s' (m_term m))
        \<and> m_entries m = take (length (m_entries m)) (drop (m_prev m) (lead_log s' (m_term m)))
        \<and> m_prev_term m = term_at (lead_log s' (m_term m)) (m_prev m)"
  have old: "?ok d m" if m: "(d, m) \<in> msgs s" for d m
  proof -
    note m = msg_invD [OF assms(5) m]
    obtain ys where ys: "lead_log s' (m_term m) = lead_log s (m_term m) @ ys"
      using grows_step [OF assms(1-4)] m(5) by (auto simp: grows_def prefix_def)
    have "take (length (m_entries m)) (drop (m_prev m) (lead_log s' (m_term m)))
        = take (length (m_entries m)) (drop (m_prev m) (lead_log s (m_term m)))" using m(2) ys by simp
    note e = trans [OF m(3) this [symmetric]]
    have "m_prev_term m = term_at (lead_log s' (m_term m)) (m_prev m)"
      "m_prev m + length (m_entries m) \<le> length (lead_log s' (m_term m))"
      using m(2,4) ys by (auto simp: term_at_def nth_append)
    then show ?thesis using e m(1) step_mono [OF assms(1)] by blast
  qed
  have "?ok d m" if "(d, m) \<in> msgs s'" "(d, m) \<notin> msgs s" for d m
    using assms(1)
  proof cases
    case (send n d' p j)
    then have "(cterm s n, n) \<in> leaders s" "elog s n = lead_log s (cterm s n)"
      using leader_invD(5) [OF assms(3)] log_invD(5) [OF assms(4)] by blast+
    then show ?thesis using send that by (auto simp: min_def)
  qed (use that in auto)
  with old show ?thesis unfolding msg_inv_def by blast
qed

lemma diverged_step:
  assumes "raft_step Q s s'" "vote_inv s" "leader_inv Q s" "log_inv s" "led s t" "k \<le> length (lead_log s t)" "diverged s t k u"
  shows "diverged s' t k u"
proof -
  from assms(7) obtain t' where t': "led s t'" "t < t'" "t' \<le> u" "take k (lead_log s t') \<noteq> take k (lead_log s t)"
    by (auto simp: diverged_def)
  have led: "led s' t'" using step_led [OF assms(1) t'(1)] .
  have "take k (lead_log s' t) = take k (lead_log s t)"
    using grows_step [OF assms(1-4)] assms(5,6) by (auto simp: grows_def intro: take_prefix_eq)
  moreover have "take k (lead_log s' t') \<noteq> take k (lead_log s t)"
    using assms(1)
  proof cases
    case (win n S)
    then have "cterm s n \<noteq> t'" using win_fresh [OF assms(2,3)] t'(1) by blast
    then show ?thesis using win t'(4) by simp
  next
    case (propose n L v)
    show ?thesis
    proof (cases "t' = cterm s n")
      case True
      then have "lead_log s' t' = lead_log s t' @ [(t', v)]" using propose log_invD(5) [OF assms(4)] by simp
      moreover have "\<forall>e \<in> set (lead_log s t). fst e < t'" using log_invD(4) [OF assms(4,5)] t'(2) le_less_trans by blast
      ultimately show ?thesis using take_snoc_later t'(4) by metis
    qed (use propose t'(4) in simp)
  qed (use t'(4) in auto)
  ultimately show ?thesis using led t'(2,3) unfolding diverged_def by auto
qed

lemma ack_invD:
  assumes "ack_inv s" "acked s v t k"
  shows "led s t" "t \<le> cterm s v" "k \<le> length (lead_log s t)"
    "take k (elog s v) = take k (lead_log s t) \<or> diverged s t k (cterm s v)"
  using assms unfolding ack_inv_def by blast+

lemma diverged_mono: "diverged s t k u \<Longrightarrow> u \<le> u' \<Longrightarrow> diverged s t k u'"
  by (auto simp: diverged_def intro: le_trans)

lemma not_diverged_self [simp]: "\<not> diverged s t k t"
  by (auto simp: diverged_def)

text \<open>Agreement with a leader's log survives the receipt of entries from it.\<close>

lemma agree_receive:
  assumes "log_inv s" "msg_inv s" "(n, m) \<in> msgs s" "m_prev m \<le> length (elog s n)" "term_at (elog s n) (m_prev m) = m_prev_term m"
    and a: "take k (elog s n) = take k (lead_log s (m_term m))" "k \<le> length (lead_log s (m_term m))"
  shows "take k (merge (m_prev m) (m_entries m) (elog s n)) = take k (lead_log s (m_term m))"
  using assms(1-5)
proof (cases rule: receive_log)
  case (replaced j)
  have "k \<le> j"
  proof (rule ccontr)
    assume "\<not> k \<le> j"
    then have "j < length (elog s n)" "elog s n ! j = lead_log s (m_term m) ! j"
      using take_eq_length [OF a] a by (auto simp: not_le intro: take_Suc_nth [OF _ _ take_eq_take])
    then show False using replaced(4) by simp
  qed
  then show ?thesis using replaced(1,2) by simp
qed (use a in simp)

lemma received_agrees:
  assumes "log_inv s" "msg_inv s" "(n, m) \<in> msgs s" "m_prev m \<le> length (elog s n)" "term_at (elog s n) (m_prev m) = m_prev_term m"
  shows "take (m_prev m + length (m_entries m)) (merge (m_prev m) (m_entries m) (elog s n))
      = take (m_prev m + length (m_entries m)) (lead_log s (m_term m))"
  using assms by (cases rule: receive_log) simp_all

lemma acked_new:
  assumes "raft_step Q s s'" "acked s' v t k" "\<not> acked s v t k"
  shows "t = cterm s v"
  using assms(1) by cases (use assms(2,3) in \<open>auto simp: acked_def split: if_splits\<close>)

lemma acked_old_step:
  assumes "raft_step Q s s'" "vote_inv s" "leader_inv Q s" "log_inv s" "msg_inv s" "ack_inv s" "acked s v t k"
  shows "take k (elog s' v) = take k (lead_log s t) \<or> diverged s' t k (cterm s' v)"
proof (cases "diverged s t k (cterm s v)")
  case True
  then have "diverged s' t k (cterm s v)" using diverged_step [OF assms(1-4)] ack_invD [OF assms(6,7)] by blast
  then show ?thesis using diverged_mono step_mono [OF assms(1)] by blast
next
  case False
  note a = ack_invD [OF assms(6,7)]
  have eq: "take k (elog s v) = take k (lead_log s t)" using a(4) False by blast
  from assms(1) show ?thesis
  proof cases
    case (propose n L x)
    then show ?thesis using eq take_eq_length [OF eq a(3)] by (cases "v = n") simp_all
  next
    case (receive n m)
    show ?thesis
    proof (cases "v = n")
      case True
      have t: "t \<le> m_term m" using a(2) receive(3) True by simp
      show ?thesis
      proof (cases "take k (lead_log s (m_term m)) = take k (lead_log s t)")
        case eq2: True
        then have "take k (merge (m_prev m) (m_entries m) (elog s n)) = take k (lead_log s (m_term m))"
          using agree_receive [OF assms(4,5) receive(2,5,6)] eq True take_eq_length [OF eq2 a(3)] by simp
        then show ?thesis using receive(1) True eq2 by simp
      next
        case False
        then have "diverged s t k (cterm s v)"
          using msg_invD(5) [OF assms(5) receive(2)] t receive(3) True unfolding diverged_def by (metis le_neq_implies_less order_refl)
        then have "diverged s' t k (cterm s v)" using diverged_step [OF assms(1-4) a(1,3)] by blast
        then show ?thesis using receive(1) by simp
      qed
    qed (use receive eq in simp)
  qed (use eq in auto)
qed

lemma ack_inv_step:
  assumes "raft_step Q s s'" "vote_inv s" "leader_inv Q s" "log_inv s" "msg_inv s" "ack_inv s"
  shows "ack_inv s'"
proof -
  note g = grows_step [OF assms(1-4)]
  have "led s' t \<and> t \<le> cterm s' v \<and> k \<le> length (lead_log s' t)
      \<and> (take k (elog s' v) = take k (lead_log s' t) \<or> diverged s' t k (cterm s' v))" if a': "acked s' v t k" for v t k
  proof (cases "acked s v t k")
    case True
    note a = ack_invD [OF assms(6) True]
    have p: "prefix (lead_log s t) (lead_log s' t)" using g a(1) by (simp add: grows_def)
    have "t \<le> cterm s' v" using a(2) step_mono [OF assms(1), of v] by linarith
    then show ?thesis
      using acked_old_step [OF assms True] step_led [OF assms(1) a(1)] take_prefix_eq [OF p a(3)] prefix_length_le [OF p] a(3) by simp
  next
    case False
    from assms(1) show ?thesis
    proof cases
      case (win n S)
      then have "v = n" "t = cterm s n" "k \<le> length (elog s n)" using a' False by (auto simp: acked_def split: if_splits)
      then show ?thesis using win by (auto simp: led_def)
    next
      case (propose n L x)
      then have "v = n" "t = cterm s n" "k \<le> length L" using a' False by (auto simp: acked_def split: if_splits)
      then show ?thesis using propose leader_invD(5) [OF assms(3)] by (auto simp: led_def)
    next
      case (receive n m)
      note m = msg_invD [OF assms(5) receive(2)]
      have "v = n" "t = m_term m" "k \<le> m_prev m + length (m_entries m)"
        using receive a' False by (auto simp: acked_def split: if_splits)
      then show ?thesis
        using receive(1,3) m(2) take_eq_take [OF received_agrees [OF assms(4,5) receive(2,5,6)]] step_led [OF assms(1) m(5)] by simp
    qed (use a' False in \<open>auto simp: acked_def\<close>)
  qed
  then show ?thesis unfolding ack_inv_def by blast
qed

lemma kept_step:
  assumes "raft_step Q s s'" "vote_inv s" "leader_inv Q s" "log_inv s" "ack_inv s" "u \<le> cterm s v" "kept s v u l"
  shows "kept s' v u l"
proof -
  have "take k l = take k (lead_log s' t) \<or> diverged s' t k (u - 1)" if "acked s' v t k" "t < u" for t k
  proof -
    have a: "acked s v t k" using acked_new [OF assms(1) that(1)] that(2) assms(6) by auto
    then have "take k l = take k (lead_log s t) \<or> diverged s t k (u - 1)" using assms(7) that(2) by (auto simp: kept_def)
    moreover have "take k (lead_log s' t) = take k (lead_log s t)"
      using grows_step [OF assms(1-4)] ack_invD [OF assms(5) a] by (auto simp: grows_def intro: take_prefix_eq)
    ultimately show ?thesis using diverged_step [OF assms(1-4)] ack_invD [OF assms(5) a] by auto
  qed
  then show ?thesis by (auto simp: kept_def)
qed

lemma kept_now:
  assumes "ack_inv s" "u = Suc (cterm s n) \<or> u = cterm s n \<and> \<not> led s u"
  shows "kept s n u (elog s n)"
proof -
  have "diverged s t k (u - 1)" if d: "diverged s t k (cterm s n)" for t k
  proof -
    obtain t' where "led s t'" "t < t'" "t' \<le> cterm s n" "take k (lead_log s t') \<noteq> take k (lead_log s t)"
      using d by (auto simp: diverged_def)
    moreover from this assms(2) have "t' \<le> u - 1" by (metis diff_Suc_1 le_neq_implies_less less_Suc_eq_le Suc_pred' not_less0 neq0_conv)
    ultimately show ?thesis by (auto simp: diverged_def)
  qed
  then show ?thesis using ack_invD(4) [OF assms(1)] unfolding kept_def by blast
qed

lemma elect_inv_step:
  assumes "raft_step Q s s'" "vote_inv s" "leader_inv Q s" "log_inv s" "ack_inv s" "elect_inv s"
  shows "elect_inv s'"
proof -
  have bound: "u \<le> cterm s v" if "(v, u, c, l) \<in> grants s" for v u c l
    using vote_invD(1) [OF assms(2)] that by (auto simp: granted_def)
  note keep = kept_step [OF assms(1-5) bound]
  have 1: "kept s' v u l" if g: "(v, u, c, l) \<in> grants s'" "\<not> led s' u" for v u c l
  proof (cases "(v, u, c, l) \<in> grants s")
    case True
    then show ?thesis using keep [OF True] assms(6) g(2) step_led [OF assms(1)] unfolding elect_inv_def by blast
  next
    case False
    have "(u = Suc (cterm s v) \<or> u = cterm s v) \<and> l = elog s v \<and> acks s' = acks s \<and> lead_log s' = lead_log s \<and> leaders s' = leaders s"
      using assms(1) by cases (use False g(1) in auto)
    moreover from this have "kept s v u l" using kept_now [OF assms(5), of u v] g(2) by (auto simp: led_def)
    ultimately show ?thesis by (simp add: kept_def diverged_def led_def acked_def)
  qed
  have 2: "\<exists>l. (v, u, c, l) \<in> grants s' \<and> kept s' v u l" if g: "(u, c) \<in> leaders s'" "v \<in> electors s' u" for u c v
  proof -
    have "\<exists>l. (v, u, c, l) \<in> grants s \<and> kept s v u l"
    proof (cases "(u, c) \<in> leaders s")
      case True
      have "electors s' u = electors s u"
        using assms(1)
      proof cases
        case (win n S)
        then show ?thesis using True win_fresh [OF assms(2,3)] by (auto simp: led_def)
      qed auto
      then show ?thesis using assms(6) g(2) True unfolding elect_inv_def by blast
    next
      case False
      from assms(1) show ?thesis
      proof cases
        case (win n S)
        then have "granted s v u c" "\<not> led s u" using False g win_fresh [OF assms(2,3)] by auto
        then show ?thesis using assms(6) unfolding elect_inv_def granted_def by blast
      qed (use False g in auto)
    qed
    then show ?thesis using keep step_mono [OF assms(1)] by blast
  qed
  from 1 2 show ?thesis unfolding elect_inv_def by blast
qed

text \<open>Leader Completeness: what a quorum acknowledged in the term of its entry is in the log of every later leader.\<close>

lemma candidate_has_committed:
  assumes inv: "log_inv s" "cand_inv s" and g: "(v, u, c, l) \<in> grants s" and cl: "(u, c, cl) \<in> candidacies s" "up_to_date cl l"
    and l: "take k l = take k (lead_log s t)" and k: "0 < k" "k \<le> length (lead_log s t)" "fst (lead_log s t ! (k - 1)) = t" "led s t"
    and ih: "\<And>t'. led s t' \<Longrightarrow> t < t' \<Longrightarrow> t' < u \<Longrightarrow> take k (lead_log s t') = take k (lead_log s t)"
  shows "take k cl = take k (lead_log s t)"
proof -
  have wf: "wf_log s cl" "wf_log s l" using log_invD(6,8) [OF inv(1)] g cl(1) by blast+
  have len: "k \<le> length l" using take_eq_length [OF l k(2)] .
  have "l ! (k - 1) = lead_log s t ! (k - 1)" using take_Suc_nth [of "k - 1" l "lead_log s t"] l len k(1,2) by simp
  moreover have "l \<noteq> []" using len k(1) by auto
  ultimately have last: "t \<le> term_at l (length l)"
    using sorted_nth_le [of l "k - 1" "length l - 1"] wf(2) len k(1,3) by (simp add: term_at_def wf_log_def diff_le_mono)
  have ne: "cl \<noteq> []" using cl(2) len k(1) by (auto simp: up_to_date_def term_at_def)
  define r where "r = term_at cl (length cl)"
  have r: "r = fst (cl ! (length cl - 1))" using ne by (simp add: r_def term_at_def)
  have cl_eq: "led s r" "cl = take (length cl) (lead_log s r)" using wf_logD(1,2) [OF wf(1), of "length cl - 1"] ne r by simp_all
  from cl(2) consider "term_at l (length l) < r" | "term_at l (length l) = r" "length l \<le> length cl" by (auto simp: up_to_date_def r_def)
  then show ?thesis
  proof cases
    case 1
    then have "t < r" using last by simp
    moreover have "r < u" using log_invD(7) [OF inv(1) cl(1), of "cl ! (length cl - 1)"] ne r by simp
    ultimately have eq: "take k (lead_log s r) = take k (lead_log s t)" using ih cl_eq(1) by blast
    have "k \<le> length cl"
    proof (rule ccontr)
      assume "\<not> k \<le> length cl"
      then have i: "length cl - 1 < k" "length cl - 1 < length (lead_log s t)" "length cl - 1 < length cl" using ne k(2) by auto
      then have "lead_log s r ! (length cl - 1) = lead_log s t ! (length cl - 1)"
        using arg_cong [OF eq, of "\<lambda>xs. xs ! (length cl - 1)"] by simp
      moreover have "cl ! (length cl - 1) = lead_log s r ! (length cl - 1)" using arg_cong [OF cl_eq(2), of "\<lambda>xs. xs ! (length cl - 1)"] i(3) by simp
      ultimately have "r \<le> t" using log_invD(4) [OF inv(1) k(4)] i(2) r by simp
      then show False using \<open>t < r\<close> by simp
    qed
    then have "take k cl = take k (lead_log s r)" by (subst cl_eq(2)) simp
    then show ?thesis using eq by simp
  next
    case 2
    have "l = take (length l) (lead_log s r)"
      using wf_logD(2) [OF wf(2), of "length l - 1"] len k(1) 2(1) by (simp add: term_at_def split: if_splits)
    then have "take (length l) cl = l" using cl_eq(2) 2(2) by (metis min.absorb1 take_take)
    then have "take k cl = take k l" using len by (metis min.absorb1 take_take)
    then show ?thesis using l by simp
  qed
qed

lemma leader_completeness:
  assumes inv: "vote_inv s" "cand_inv s" "leader_inv Q s" "log_inv s" "ack_inv s" "elect_inv s"
    and c: "committed Q s t k" "led s u" "t < u"
  shows "take k (lead_log s u) = take k (lead_log s t)"
  using c(2,3)
proof (induction u rule: less_induct)
  case (less u)
  obtain S where S: "Q S" "\<forall>v \<in> S. acked s v t k" and k: "0 < k" "k \<le> length (lead_log s t)" "fst (lead_log s t ! (k - 1)) = t" "led s t"
    using c(1) by (auto simp: committed_def)
  obtain n where n: "(u, n) \<in> leaders s" using less.prems(1) by (auto simp: led_def)
  obtain v where v: "v \<in> S" "v \<in> electors s u" using intersect [OF S(1) leader_invD(3) [OF inv(3) n]] by auto
  obtain l where l: "(v, u, n, l) \<in> grants s" "kept s v u l" using inv(6) n v(2) unfolding elect_inv_def by blast
  have "\<not> diverged s t k (u - 1)"
  proof
    assume "diverged s t k (u - 1)"
    then obtain t' where "led s t'" "t < t'" "t' \<le> u - 1" "take k (lead_log s t') \<noteq> take k (lead_log s t)" by (auto simp: diverged_def)
    moreover from this have "t' < u" using less.prems(2) by linarith
    ultimately show False using less.IH by blast
  qed
  then have eq: "take k l = take k (lead_log s t)" using l(2) S(2) v(1) less.prems(2) unfolding kept_def by blast
  obtain cl where cl: "(u, n, cl) \<in> candidacies s" "up_to_date cl l" using cand_invD(4) [OF inv(2) l(1)] by blast
  have "prefix cl (lead_log s u)" using log_invD(9) [OF inv(4) n] cand_invD(3) [OF inv(2) cl(1)] by blast
  moreover have c: "take k cl = take k (lead_log s t)"
    by (rule candidate_has_committed [OF inv(4,2) l(1) cl eq k]) (use less.IH in blast)
  moreover have "k \<le> length cl" using take_eq_length [OF c k(2)] .
  ultimately show ?case using take_prefix_eq by metis
qed

lemma committed_step:
  assumes "raft_step Q s s'" "vote_inv s" "leader_inv Q s" "log_inv s" "committed Q s t k"
  shows "committed Q s' t k" "take k (lead_log s' t) = take k (lead_log s t)"
proof -
  have c: "led s t" "0 < k" "k \<le> length (lead_log s t)" "fst (lead_log s t ! (k - 1)) = t" "\<exists>S. Q S \<and> (\<forall>v \<in> S. acked s v t k)"
    using assms(5) by (auto simp: committed_def)
  have p: "prefix (lead_log s t) (lead_log s' t)" using grows_step [OF assms(1-4)] c(1) by (simp add: grows_def)
  show "take k (lead_log s' t) = take k (lead_log s t)" using take_prefix_eq [OF p c(3)] .
  have "lead_log s' t ! (k - 1) = lead_log s t ! (k - 1)" using p c(2,3) by (auto simp: prefix_def nth_append)
  then show "committed Q s' t k"
    using c step_led [OF assms(1)] step_acked [OF assms(1)] prefix_length_le [OF p] unfolding committed_def by (metis le_trans)
qed

lemma covered_step:
  assumes "raft_step Q s s'" "vote_inv s" "leader_inv Q s" "log_inv s" "covered Q s u c L" "u \<le> u'" "take c L' = take c L"
  shows "covered Q s' u' c L'"
proof (cases "c = 0")
  case False
  then obtain t k where t: "t \<le> u" "committed Q s t k" "c \<le> k" "take c L = take c (lead_log s t)"
    using assms(5) by (auto simp: covered_def)
  note cs = committed_step [OF assms(1-4) t(2)]
  have "take c L' = take c (lead_log s' t)" using assms(7) t(4) take_eq_take [OF cs(2) t(3)] by simp
  then show ?thesis using cs(1) t(1,3) assms(6) unfolding covered_def by (meson le_trans)
qed (simp add: covered_def)

lemma covered_length:
  assumes "covered Q s u c L"
  shows "c \<le> length L"
  using assms take_eq_length [of c L] by (auto simp: covered_def committed_def)

text \<open>A covered prefix agrees with the log of any leader of the same or a later term.\<close>

lemma covered_agrees:
  assumes inv: "vote_inv s" "cand_inv s" "leader_inv Q s" "log_inv s" "ack_inv s" "elect_inv s"
    and c: "covered Q s u c L" "led s r" "u \<le> r"
  shows "take c L = take c (lead_log s r)" "c \<le> length (lead_log s r)"
proof -
  show eq: "take c L = take c (lead_log s r)"
  proof (cases "c = 0")
    case False
    then obtain t k where t: "t \<le> u" "committed Q s t k" "c \<le> k" "take c L = take c (lead_log s t)"
      using c(1) by (auto simp: covered_def)
    have "take k (lead_log s r) = take k (lead_log s t)"
      using leader_completeness [OF inv t(2) c(2)] t(1) c(3) by (cases "t = r") auto
    then show ?thesis using t(3,4) take_eq_take by metis
  qed simp
  show "c \<le> length (lead_log s r)" using take_eq_length [OF eq [symmetric] covered_length [OF c(1)]] .
qed

lemma commit_node_step:
  assumes step: "raft_step Q s s'" and inv: "vote_inv s" "cand_inv s" "leader_inv Q s" "log_inv s" "ack_inv s" "elect_inv s"
    and "msg_inv s" "commit_inv Q s"
  shows "covered Q s' (cterm s' n) (commit s' n) (elog s' n)"
proof -
  have old: "covered Q s (cterm s n) (commit s n) (elog s n)" and
    msg: "(n, m) \<in> msgs s \<Longrightarrow> covered Q s (m_term m) (m_commit m) (lead_log s (m_term m))" for m
    using assms(9) unfolding commit_inv_def by blast+
  note keep = covered_step [OF step inv(1,3,4) old _, of "cterm s' n" "elog s' n"]
  have mono: "cterm s n \<le> cterm s' n" using step_mono [OF step] by blast
  from step show ?thesis
  proof cases
    case (propose m L v)
    then have "take (commit s n) (elog s' n) = take (commit s n) (elog s n)" using covered_length [OF old] by (cases "n = m") simp_all
    then show ?thesis using keep propose by simp
  next
    case (receive m msg)
    show ?thesis
    proof (cases "n = m")
      case True
      have eq: "take (commit s n) (elog s n) = take (commit s n) (lead_log s (m_term msg))"
        "commit s n \<le> length (lead_log s (m_term msg))"
        using covered_agrees [OF inv old msg_invD(5) [OF assms(8) receive(2)]] receive(3) True by simp_all
      then have "take (commit s n) (elog s' n) = take (commit s n) (elog s n)"
        using agree_receive [OF inv(4) assms(8) receive(2,5,6)] receive(1) True by simp
      then show ?thesis using keep receive(1) by simp
    qed (use keep receive in simp)
  next
    case (advance m k S)
    then have lead: "led s (cterm s m)" "elog s m = lead_log s (cterm s m)"
      using leader_invD(5) [OF inv(3), of m] log_invD(5) [OF inv(4), of m] by (auto simp: led_def)
    then have "committed Q s (cterm s m) k" unfolding committed_def using advance(3-7) by auto
    then have "covered Q s (cterm s m) k (elog s m)" unfolding covered_def using lead(2) by auto
    then show ?thesis using covered_step [OF step inv(1,3,4)] keep advance(1) by (cases "n = m") simp_all
  next
    case (learn m msg)
    show ?thesis
    proof (cases "n = m")
      case True
      let ?K = "m_prev msg + length (m_entries msg)"
      note a = ack_invD [OF inv(5) learn(4)]
      have agree: "take ?K (elog s n) = take ?K (lead_log s (m_term msg))" using a(4) learn(3) True by simp
      have "covered Q s (cterm s n) (min (m_commit msg) ?K) (elog s n)"
      proof (cases "m_commit msg = 0")
        case False
        have "(n, msg) \<in> msgs s" using learn(2) True by simp
        from msg [OF this] False obtain t k where t: "t \<le> m_term msg" "committed Q s t k" "m_commit msg \<le> k"
            "take (m_commit msg) (lead_log s (m_term msg)) = take (m_commit msg) (lead_log s t)"
          unfolding covered_def by auto
        have "take (min (m_commit msg) ?K) (elog s n) = take (min (m_commit msg) ?K) (lead_log s t)"
          using take_eq_take [OF agree] take_eq_take [OF t(4)] by simp
        then show ?thesis using t(1-3) learn(3) True unfolding covered_def by (metis min.coboundedI1)
      qed (simp add: covered_def)
      then show ?thesis using covered_step [OF step inv(1,3,4)] learn(1) True by simp
    qed (use keep learn in simp)
  next
    case (restart m)
    then show ?thesis using keep by (cases "n = m") (simp_all add: covered_def)
  qed (use keep mono in auto)
qed

lemma commit_inv_step:
  assumes step: "raft_step Q s s'" and inv: "vote_inv s" "cand_inv s" "leader_inv Q s" "log_inv s" "ack_inv s" "elect_inv s"
    and "msg_inv s" "commit_inv Q s"
  shows "commit_inv Q s'"
proof -
  have "covered Q s' (m_term m) (m_commit m) (lead_log s' (m_term m))" if m: "(d, m) \<in> msgs s'" for d m
  proof (cases "(d, m) \<in> msgs s")
    case True
    then have c: "covered Q s (m_term m) (m_commit m) (lead_log s (m_term m))" using assms(9) unfolding commit_inv_def by blast
    have "prefix (lead_log s (m_term m)) (lead_log s' (m_term m))"
      using grows_step [OF step inv(1,3,4)] msg_invD(5) [OF assms(8) True] by (simp add: grows_def)
    then show ?thesis using covered_step [OF step inv(1,3,4) c] take_prefix_eq covered_length [OF c] by blast
  next
    case False
    from step show ?thesis
    proof cases
      case (send n d' p j)
      have "covered Q s (cterm s n) (commit s n) (lead_log s (cterm s n))"
        using assms(9) log_invD(5) [OF inv(4) send(2)] unfolding commit_inv_def by metis
      then show ?thesis using covered_step [OF step inv(1,3,4)] send False m by auto
    qed (use False m in auto)
  qed
  then show ?thesis using commit_node_step [OF assms] unfolding commit_inv_def by blast
qed

section \<open>Reachable states\<close>

lemma raft_inv_init: "raft_inv Q raft_init"
  by (simp add: raft_inv_def raft_init_def vote_inv_def granted_def cand_inv_def leader_inv_def log_inv_def led_def msg_inv_def
      ack_inv_def acked_def elect_inv_def commit_inv_def covered_def)

lemma raft_inv_step:
  assumes "raft_step Q s s'" "raft_inv Q s"
  shows "raft_inv Q s'"
proof -
  have inv: "vote_inv s" "cand_inv s" "leader_inv Q s" "log_inv s" "msg_inv s" "ack_inv s" "elect_inv s" "commit_inv Q s"
    using assms(2) by (simp_all add: raft_inv_def)
  show ?thesis
    unfolding raft_inv_def
    by (intro conjI vote_inv_step [OF assms(1) inv(1)] cand_inv_step [OF assms(1) inv(2)] leader_inv_step [OF assms(1) inv(1,3)]
        log_inv_step [OF assms(1) inv(1-5)] msg_inv_step [OF assms(1) inv(1,3-5)] ack_inv_step [OF assms(1) inv(1,3-6)]
        elect_inv_step [OF assms(1) inv(1,3,4,6,7)] commit_inv_step [OF assms(1) inv(1-4,6,7,5,8)])
qed

lemma raft_inv_steps: "raft_steps Q s s' \<Longrightarrow> raft_inv Q s \<Longrightarrow> raft_inv Q s'"
  by (induction rule: rtranclp_induct) (auto intro: raft_inv_step)

lemma reach_inv: "raft_reach Q s \<Longrightarrow> raft_inv Q s"
  by (induction rule: raft_reach.induct) (auto intro: raft_inv_init raft_inv_step)

text \<open>What a node once had below a commit index stays in its log, even if the commit index is lost.\<close>

lemma covered_stays:
  assumes step: "raft_step Q s s'" and inv: "raft_inv Q s" and old: "covered Q s (cterm s n) c (elog s n)"
  shows "take c (elog s' n) = take c (elog s n) \<and> covered Q s' (cterm s' n) c (elog s' n)"
proof -
  have i: "vote_inv s" "cand_inv s" "leader_inv Q s" "log_inv s" "ack_inv s" "elect_inv s" "msg_inv s" using inv by (simp_all add: raft_inv_def)
  have mono: "cterm s n \<le> cterm s' n" using step_mono [OF step] by blast
  have "take c (elog s' n) = take c (elog s n)"
    using step
  proof cases
    case (propose m L v)
    then show ?thesis using covered_length [OF old] by (cases "n = m") simp_all
  next
    case (receive m msg)
    show ?thesis
    proof (cases "n = m")
      case True
      have "take c (elog s n) = take c (lead_log s (m_term msg))" "c \<le> length (lead_log s (m_term msg))"
        using covered_agrees [OF i(1-6) old msg_invD(5) [OF i(7) receive(2)]] receive(3) True by simp_all
      then show ?thesis using agree_receive [OF i(4,7) receive(2,5,6)] receive(1) True by simp
    qed (use receive in simp)
  qed auto
  then show ?thesis using covered_step [OF step i(1,3,4) old mono] by simp
qed

lemma committed_prefix_stays:
  assumes "raft_steps Q s s'" "raft_inv Q s" "c \<le> commit s n"
  shows "c \<le> length (elog s' n) \<and> take c (elog s' n) = take c (elog s n)"
proof -
  have "covered Q s (cterm s n) (commit s n) (elog s n)" using assms(2) by (simp add: raft_inv_def commit_inv_def)
  then have "covered Q s (cterm s n) c (elog s n)" using assms(3) take_eq_take unfolding covered_def by (metis le_trans le_zero_eq)
  with assms(1) have "raft_inv Q s' \<and> take c (elog s' n) = take c (elog s n) \<and> covered Q s' (cterm s' n) c (elog s' n)"
  proof (induction rule: rtranclp_induct)
    case (step y z)
    then show ?case using raft_inv_step [OF step.hyps(2)] covered_stays [OF step.hyps(2), of n c] by auto
  qed (use assms(2) in simp)
  then show ?thesis using covered_length by blast
qed

lemma election_safety: "raft_inv Q s \<Longrightarrow> (t, a) \<in> leaders s \<Longrightarrow> (t, b) \<in> leaders s \<Longrightarrow> a = b"
  unfolding raft_inv_def using leader_unique by blast

lemma log_matching:
  assumes "raft_inv Q s" "i < length (elog s a)" "i < length (elog s b)" "fst (elog s a ! i) = fst (elog s b ! i)"
  shows "take (Suc i) (elog s a) = take (Suc i) (elog s b)"
proof -
  have "log_inv s" using assms(1) by (simp add: raft_inv_def)
  from wf_log_matching [OF log_invD(1) [OF this] log_invD(1) [OF this] assms(2-4)] show ?thesis .
qed

lemma committed_prefixes_agree:
  assumes "raft_inv Q s" "k \<le> commit s a" "k \<le> commit s b"
  shows "k \<le> length (elog s a)" "take k (elog s a) = take k (elog s b)"
proof -
  have inv: "vote_inv s" "cand_inv s" "leader_inv Q s" "log_inv s" "ack_inv s" "elect_inv s" and
    c: "covered Q s (cterm s n) (commit s n) (elog s n)" for n using assms(1) by (auto simp: raft_inv_def commit_inv_def)
  show "k \<le> length (elog s a)" using covered_length [OF c, of a] assms(2) by simp
  have half: "take k (elog s x) = take k (elog s y)"
    if "k \<le> commit s x" "k \<le> commit s y" "t \<le> r" "committed Q s t i" "commit s x \<le> i"
      "take (commit s x) (elog s x) = take (commit s x) (lead_log s t)"
      "committed Q s r j" "take (commit s y) (elog s y) = take (commit s y) (lead_log s r)" for x y t r i j
  proof -
    have "take i (lead_log s r) = take i (lead_log s t)"
      using leader_completeness [OF inv that(4)] that(3,7) by (cases "t = r") (auto simp: committed_def)
    then have "take k (lead_log s r) = take k (lead_log s t)" using take_eq_take that(1,5) le_trans by metis
    then show ?thesis using take_eq_take [OF that(6,1)] take_eq_take [OF that(8,2)] by simp
  qed
  show "take k (elog s a) = take k (elog s b)"
  proof (cases "k = 0")
    case False
    then obtain t i r j where "committed Q s t i" "commit s a \<le> i" "take (commit s a) (elog s a) = take (commit s a) (lead_log s t)"
      "committed Q s r j" "commit s b \<le> j" "take (commit s b) (elog s b) = take (commit s b) (lead_log s r)"
      using c [of a] c [of b] assms(2,3) by (auto simp: covered_def)
    then show ?thesis using half [of a b t r i j] half [of b a r t j i] assms(2,3) by (cases "t \<le> r") auto
  qed simp
qed

end

end
