(* ===== verification/Raft_Node_Facts.thy ===== *)
theory Raft_Node_Facts
  imports Raft_Node Raft_Protocol
begin

text \<open>
  What each critical section of \<^verbatim>\<open>raft/node.cpp\<close> does to the parts of a node that the protocol is about: role, term, vote,
  log, the file that holds term and vote, and the write-ahead log. The collection \<open>node_frame\<close> says which
  fields a helper leaves alone. A node is \<open>persisted\<close> when its state file holds its term and vote.
\<close>

named_theorems node_frame \<open>fields that the helpers of a Raft node leave alone\<close>

section \<open>Helpers that only touch the clock, the state file or the store\<close>

lemma steady_clock_now_frame [simp, node_frame]:
  "rn_local_node_id (snd (steady_clock_now n)) = rn_local_node_id n" "rn_config (snd (steady_clock_now n)) = rn_config n"
  "rn_storage (snd (steady_clock_now n)) = rn_storage n" "rn_log (snd (steady_clock_now n)) = rn_log n"
  "rn_state (snd (steady_clock_now n)) = rn_state n" "rn_current_term (snd (steady_clock_now n)) = rn_current_term n"
  "rn_voted_for (snd (steady_clock_now n)) = rn_voted_for n" "rn_commit_index (snd (steady_clock_now n)) = rn_commit_index n"
  "rn_next_index (snd (steady_clock_now n)) = rn_next_index n" "rn_match_index (snd (steady_clock_now n)) = rn_match_index n"
  "rn_state_file (snd (steady_clock_now n)) = rn_state_file n" "rn_state_disk (snd (steady_clock_now n)) = rn_state_disk n"
  "rn_os (snd (steady_clock_now n)) = rn_os n" "rn_last_ack_time (snd (steady_clock_now n)) = rn_last_ack_time n"
  "rn_open_status (snd (steady_clock_now n)) = rn_open_status n" "rn_leader_id (snd (steady_clock_now n)) = rn_leader_id n"
  "rn_election_deadline (snd (steady_clock_now n)) = rn_election_deadline n"
  by (simp_all add: steady_clock_now_def split: list.split)

lemma RandomElectionTimeout_frame [simp, node_frame]:
  "rn_local_node_id (snd (RandomElectionTimeout n)) = rn_local_node_id n" "rn_config (snd (RandomElectionTimeout n)) = rn_config n"
  "rn_storage (snd (RandomElectionTimeout n)) = rn_storage n" "rn_log (snd (RandomElectionTimeout n)) = rn_log n"
  "rn_state (snd (RandomElectionTimeout n)) = rn_state n" "rn_current_term (snd (RandomElectionTimeout n)) = rn_current_term n"
  "rn_voted_for (snd (RandomElectionTimeout n)) = rn_voted_for n" "rn_commit_index (snd (RandomElectionTimeout n)) = rn_commit_index n"
  "rn_next_index (snd (RandomElectionTimeout n)) = rn_next_index n" "rn_match_index (snd (RandomElectionTimeout n)) = rn_match_index n"
  "rn_state_file (snd (RandomElectionTimeout n)) = rn_state_file n" "rn_state_disk (snd (RandomElectionTimeout n)) = rn_state_disk n"
  "rn_os (snd (RandomElectionTimeout n)) = rn_os n" "rn_last_ack_time (snd (RandomElectionTimeout n)) = rn_last_ack_time n"
  "rn_open_status (snd (RandomElectionTimeout n)) = rn_open_status n" "rn_leader_id (snd (RandomElectionTimeout n)) = rn_leader_id n"
  by (simp_all add: RandomElectionTimeout_def Let_def split: list.split)

lemma ResetElectionDeadlineLocked_frame [simp, node_frame]:
  "rn_local_node_id (ResetElectionDeadlineLocked n) = rn_local_node_id n" "rn_config (ResetElectionDeadlineLocked n) = rn_config n"
  "rn_storage (ResetElectionDeadlineLocked n) = rn_storage n" "rn_log (ResetElectionDeadlineLocked n) = rn_log n"
  "rn_state (ResetElectionDeadlineLocked n) = rn_state n" "rn_current_term (ResetElectionDeadlineLocked n) = rn_current_term n"
  "rn_voted_for (ResetElectionDeadlineLocked n) = rn_voted_for n" "rn_commit_index (ResetElectionDeadlineLocked n) = rn_commit_index n"
  "rn_next_index (ResetElectionDeadlineLocked n) = rn_next_index n" "rn_match_index (ResetElectionDeadlineLocked n) = rn_match_index n"
  "rn_state_file (ResetElectionDeadlineLocked n) = rn_state_file n" "rn_state_disk (ResetElectionDeadlineLocked n) = rn_state_disk n"
  "rn_os (ResetElectionDeadlineLocked n) = rn_os n" "rn_last_ack_time (ResetElectionDeadlineLocked n) = rn_last_ack_time n"
  "rn_open_status (ResetElectionDeadlineLocked n) = rn_open_status n" "rn_leader_id (ResetElectionDeadlineLocked n) = rn_leader_id n"
  by (simp_all add: ResetElectionDeadlineLocked_def split_beta)

lemma PersistStateLocked_frame [simp, node_frame]:
  "rn_local_node_id (PersistStateLocked n) = rn_local_node_id n" "rn_config (PersistStateLocked n) = rn_config n"
  "rn_storage (PersistStateLocked n) = rn_storage n" "rn_log (PersistStateLocked n) = rn_log n"
  "rn_state (PersistStateLocked n) = rn_state n" "rn_current_term (PersistStateLocked n) = rn_current_term n"
  "rn_voted_for (PersistStateLocked n) = rn_voted_for n" "rn_commit_index (PersistStateLocked n) = rn_commit_index n"
  "rn_next_index (PersistStateLocked n) = rn_next_index n" "rn_match_index (PersistStateLocked n) = rn_match_index n"
  "rn_last_ack_time (PersistStateLocked n) = rn_last_ack_time n" "rn_leader_id (PersistStateLocked n) = rn_leader_id n"
  "rn_open_status (PersistStateLocked n) = rn_open_status n" "rn_election_deadline (PersistStateLocked n) = rn_election_deadline n"
  by (simp_all add: PersistStateLocked_def Let_def split: option.split)

lemma ApplyCommittedEntriesLocked_frame [simp, node_frame]:
  "rn_local_node_id (ApplyCommittedEntriesLocked hash n) = rn_local_node_id n
   \<and> rn_config (ApplyCommittedEntriesLocked hash n) = rn_config n \<and> rn_log (ApplyCommittedEntriesLocked hash n) = rn_log n
   \<and> rn_state (ApplyCommittedEntriesLocked hash n) = rn_state n \<and> rn_current_term (ApplyCommittedEntriesLocked hash n) = rn_current_term n
   \<and> rn_voted_for (ApplyCommittedEntriesLocked hash n) = rn_voted_for n
   \<and> rn_commit_index (ApplyCommittedEntriesLocked hash n) = rn_commit_index n
   \<and> rn_next_index (ApplyCommittedEntriesLocked hash n) = rn_next_index n
   \<and> rn_match_index (ApplyCommittedEntriesLocked hash n) = rn_match_index n
   \<and> rn_state_file (ApplyCommittedEntriesLocked hash n) = rn_state_file n
   \<and> rn_state_disk (ApplyCommittedEntriesLocked hash n) = rn_state_disk n \<and> rn_os (ApplyCommittedEntriesLocked hash n) = rn_os n
   \<and> ds_wal (rn_storage (ApplyCommittedEntriesLocked hash n)) = ds_wal (rn_storage n)
   \<and> ds_data_dir (rn_storage (ApplyCommittedEntriesLocked hash n)) = ds_data_dir (rn_storage n)
   \<and> rn_open_status (ApplyCommittedEntriesLocked hash n) = rn_open_status n"
proof (induction hash n rule: ApplyCommittedEntriesLocked.induct)
  case (1 hash n)
  show ?case
  proof (cases "ds_last_applied_index (rn_storage n) < rn_commit_index n")
    case True
    then show ?thesis
      using 1 by (subst (1 2 3 4 5 6 7 8 9 10 11 12 13 14 15) ApplyCommittedEntriesLocked.simps)
        (auto simp: DurableStorage_ApplyCommitted_def split: option.split)
  next
    case False
    then show ?thesis by (simp add: ApplyCommittedEntriesLocked.simps [of _ n])
  qed
qed

section \<open>Term and vote survive a restart\<close>

definition state_bytes :: "u64 \<Rightarrow> u32 \<Rightarrow> bytes" where
  "state_bytes trm vt = WriteU32BE (WriteU64BE [] trm) vt"

definition persisted :: "RaftNode \<Rightarrow> bool" where
  "persisted n \<longleftrightarrow> calm (rn_os n) \<and> rn_state_file n = rn_state_disk n
     \<and> (rn_state_disk n = Some (state_bytes (rn_current_term n) (rn_voted_for n))
        \<or> rn_state_disk n = None \<and> rn_current_term n = 0 \<and> rn_voted_for n = 0)"

lemma PersistStateLocked_persisted:
  assumes "calm (rn_os n)"
  shows "persisted (PersistStateLocked n)"
proof -
  define os1 where "os1 = snd (sys_call (rn_os n))"
  define os2 where "os2 = snd (sys_call os1)"
  let ?buf = "state_bytes (rn_current_term n) (rn_voted_for n)"
  have c: "calm os1" "fst (sys_call os1) = None" "calm os2" using assms by (simp_all add: os1_def os2_def)
  obtain st fd where w: "write_loop ''write: '' \<lparr>wf_data = [], wf_os = os2\<rparr> ?buf 0 = (st, fd)" by fastforce
  have "wf_data fd = ?buf" using write_loop_prefix [OF w] calm_no_fail [OF c(3)] by auto
  moreover have "calm (wf_os fd)"
    using write_loop_suffix [of "''write: ''" "\<lparr>wf_data = [], wf_os = os2\<rparr>" ?buf 0] w c(3) calm_suffix by fastforce
  ultimately show ?thesis
    using c w sys_call_calm [of "wf_os fd"]
    by (simp add: PersistStateLocked_def persisted_def Let_def os1_def [symmetric] os2_def [symmetric] state_bytes_def [symmetric])
qed

lemma state_read_loop_no_fail:
  "no_fail (fd_os fd) \<Longrightarrow> state_read_loop fd len buf = (None, ReadSome_loop fd len buf)"
proof (induction fd len buf rule: state_read_loop.induct)
  case (1 fd len buf)
  show ?case
  proof (cases "length buf < len")
    case True
    obtain io fd1 where r: "sys_read fd (len - length buf) = (io, fd1)" by fastforce
    show ?thesis
    proof (cases io)
      case IoIntr
      then show ?thesis
        using 1(1) [OF True r [symmetric]] 1(3) True r sys_read_Intr [of fd "len - length buf" fd1]
        by (simp add: state_read_loop.simps [of fd] ReadSome_loop.simps [of fd])
    next
      case (IoErr e)
      then show ?thesis using 1(3) r sys_read_Err [of fd "len - length buf" e fd1] by simp
    next
      case (IoBytes bs)
      then show ?thesis
        using 1(2) [OF True r [symmetric]] 1(3) True r sys_read_Bytes [of fd "len - length buf" bs fd1]
        by (simp add: state_read_loop.simps [of fd] ReadSome_loop.simps [of fd])
    qed
  qed (simp add: state_read_loop.simps [of fd] ReadSome_loop.simps [of fd])
qed

lemma LoadPersistedState_state_bytes:
  assumes "rn_state_file n = Some (state_bytes trm vt)" "calm (rn_os n)"
  obtains os where "LoadPersistedState n = (Status_Ok, n\<lparr>rn_os := os, rn_current_term := trm, rn_voted_for := vt\<rparr>)" "calm os"
proof -
  let ?fd = "\<lparr>fd_rest = state_bytes trm vt, fd_os = snd (sys_call (rn_os n))\<rparr>"
  have c: "fst (sys_call (rn_os n)) = None" "calm (snd (sys_call (rn_os n)))" using assms(2) by simp_all
  then have nf: "no_fail (fd_os ?fd)" using calm_no_fail by simp
  have l: "length (state_bytes trm vt) = 12" by (simp add: state_bytes_def)
  obtain buf fd where r: "ReadSome_loop ?fd 12 [] = (buf, fd)" by fastforce
  then have buf: "buf = state_bytes trm vt" using ReadSome_loop_full [OF nf, of "[]" 12] l by simp
  have "suffix (fd_os fd) (fd_os ?fd)" using ReadSome_loop_suffix [of ?fd 12 "[]"] r by simp
  then have "calm (fd_os fd)" using calm_suffix c(2) by simp
  moreover have "ReadU64BE buf = trm" "ReadU32BE (drop 8 buf) = vt"
    unfolding buf state_bytes_def
    by (subst WriteU32BE_append, simp add: be_simps)+
  then have "LoadPersistedState n = (Status_Ok, n\<lparr>rn_os := fd_os fd, rn_current_term := trm, rn_voted_for := vt\<rparr>)"
    using assms(1) c(1) r l by (simp add: LoadPersistedState_def Let_def state_read_loop_no_fail [OF nf] buf)
  ultimately show thesis using that by blast
qed

section \<open>A node whose files agree with its memory\<close>

definition node_ok :: "u32 \<Rightarrow> PeerInfo list \<Rightarrow> RaftNode \<Rightarrow> bool" where
  "node_ok i P n \<longleftrightarrow> rn_local_node_id n = i \<and> cfg_peers (rn_config n) = P \<and> persisted n
     \<and> Log_inv (rn_log n) (ds_wal (rn_storage n)) \<and> calm (ww_os (ds_wal (rn_storage n)))"

text \<open>The abstract log: terms and commands. Positions replace the index field of the entries.\<close>

type_synonym cmd = "WalOp \<times> bytes \<times> bytes"

definition abs_entry :: "LogEntry \<Rightarrow> nat \<times> cmd" where
  "abs_entry e = (unat (e_term e), e_op e, e_key e, e_value e)"

definition abs_log :: "Log \<Rightarrow> cmd tlog" where
  "abs_log log = map abs_entry (log_entries log)"

lemma length_abs_log [simp]: "length (abs_log log) = length (log_entries log)"
  by (simp add: abs_log_def)

lemma fst_abs_log [simp]: "i < length (log_entries log) \<Longrightarrow> fst (abs_log log ! i) = unat (e_term (log_entries log ! i))"
  by (simp add: abs_log_def abs_entry_def)

lemma fst_abs_entry [simp]: "fst (abs_entry e) = unat (e_term e)"
  by (simp add: abs_entry_def)

lemma abs_entry_index [simp]: "abs_entry (e\<lparr>e_index := i\<rparr>) = abs_entry e"
  by (simp add: abs_entry_def)

lemma persisted_calm: "persisted n \<Longrightarrow> calm (rn_os n)"
  by (simp add: persisted_def)

lemma node_ok_Log_inv: "node_ok i P n \<Longrightarrow> Log_inv (rn_log n) (ds_wal (rn_storage n))"
  by (simp add: node_ok_def)

lemma node_ok_contiguous: "node_ok i P n \<Longrightarrow> contiguous (log_entries (rn_log n))"
  by (simp add: node_ok_def Log_inv_def)

lemma Log_LastTerm_abs: "unat (Log_LastTerm log) = term_at (abs_log log) (length (log_entries log))"
  by (simp add: Log_LastTerm_def term_at_def last_conv_nth)

lemma node_ok_reset [simp]: "node_ok i P (ResetElectionDeadlineLocked n) = node_ok i P n"
  by (simp add: node_ok_def persisted_def)

lemma node_ok_persist:
  assumes "node_ok i P n" "rn_local_node_id n' = i" "cfg_peers (rn_config n') = P" "rn_storage n' = rn_storage n" "rn_log n' = rn_log n"
    "rn_os n' = rn_os n"
  shows "node_ok i P (PersistStateLocked n')"
  using assms PersistStateLocked_persisted [of n'] by (simp add: node_ok_def persisted_calm)

lemma node_ok_BecomeFollower:
  assumes "node_ok i P n"
  shows "node_ok i P (BecomeFollowerLocked t n)"
  unfolding BecomeFollowerLocked_def Let_def node_ok_reset
  by (rule node_ok_persist [OF assms]) (use assms in \<open>simp_all add: node_ok_def\<close>)

lemma BecomeFollower_fields [simp]:
  "rn_state (BecomeFollowerLocked t n) = RaftState_kFollower" "rn_current_term (BecomeFollowerLocked t n) = t"
  "rn_voted_for (BecomeFollowerLocked t n) = 0" "rn_log (BecomeFollowerLocked t n) = rn_log n"
  "rn_commit_index (BecomeFollowerLocked t n) = rn_commit_index n" "rn_next_index (BecomeFollowerLocked t n) = rn_next_index n"
  "rn_match_index (BecomeFollowerLocked t n) = rn_match_index n" "rn_storage (BecomeFollowerLocked t n) = rn_storage n"
  "rn_local_node_id (BecomeFollowerLocked t n) = rn_local_node_id n" "rn_config (BecomeFollowerLocked t n) = rn_config n"
  by (simp_all add: BecomeFollowerLocked_def)

section \<open>HandleRequestVote\<close>

lemma HandleRequestVote_cases:
  assumes "HandleRequestVote req n = (resp, n')"
  obtains (denied) "\<not> rvr_vote_granted resp" "n' = (if rv_term req > rn_current_term n then BecomeFollowerLocked (rv_term req) n else n)"
  | (granted) n1 where "rvr_vote_granted resp" "rn_current_term n \<le> rv_term req"
      "n1 = (if rv_term req > rn_current_term n then BecomeFollowerLocked (rv_term req) n else n)"
      "rn_current_term n1 = rv_term req" "rn_voted_for n1 = 0 \<or> rn_voted_for n1 = rv_candidate_id req"
      "rv_last_log_term req > Log_LastTerm (rn_log n)
       \<or> rv_last_log_term req = Log_LastTerm (rn_log n) \<and> rv_last_log_index req \<ge> Log_LastIndex (rn_log n)"
      "n' = ResetElectionDeadlineLocked (PersistStateLocked (n1\<lparr>rn_voted_for := rv_candidate_id req\<rparr>))"
proof -
  define n1 where "n1 = (if rv_term req > rn_current_term n then BecomeFollowerLocked (rv_term req) n else n)"
  have l: "rn_log n1 = rn_log n" by (simp add: n1_def)
  note H = HandleRequestVote_def [of req n, folded n1_def, unfolded Let_def l]
  show thesis
  proof (cases "rv_term req < rn_current_term n1")
    case True
    then show thesis using denied assms unfolding H n1_def [symmetric] by auto
  next
    case False
    then have t: "rn_current_term n1 = rv_term req" "rn_current_term n \<le> rv_term req"
      by (auto simp: n1_def split: if_splits)
    show thesis
    proof (cases "(rn_voted_for n1 = 0 \<or> rn_voted_for n1 = rv_candidate_id req) \<and> (rv_last_log_term req > Log_LastTerm (rn_log n)
       \<or> rv_last_log_term req = Log_LastTerm (rn_log n) \<and> rv_last_log_index req \<ge> Log_LastIndex (rn_log n))")
      case True
      then have "rvr_vote_granted resp" "n' = ResetElectionDeadlineLocked (PersistStateLocked (n1\<lparr>rn_voted_for := rv_candidate_id req\<rparr>))"
        using assms False unfolding H by auto
      then show thesis using granted [OF _ t(2) n1_def t(1)] True by blast
    next
      case no: False
      have "HandleRequestVote req n = (\<lparr>rvr_term = rn_current_term n1, rvr_vote_granted = False\<rparr>, n1)"
        unfolding H if_not_P [OF no] if_not_P [OF False] by (rule refl)
      then show thesis using denied assms unfolding n1_def [symmetric] by auto
    qed
  qed
qed

section \<open>HandleAppendEntries\<close>

lemma Log_inv_bound: "Log_inv log wal \<Longrightarrow> length (log_entries log) < 2 ^ 64"
  by (simp add: Log_inv_def contiguous_def)

lemma append_entry_step:
  assumes inv: "Log_inv log wal" "calm (ww_os wal)" and v: "EntryValid e" and b: "length (log_entries log) + 1 < 2 ^ 64"
  obtains e' log' wal' where "Log_Append log wal e = Some (Status_Ok, e', log', wal')" "Log_inv log' wal'" "calm (ww_os wal')"
    "e' = e\<lparr>e_index := of_nat (Suc (length (log_entries log)))\<rparr>" "log' = \<lparr>log_entries = log_entries log @ [e']\<rparr>"
proof -
  have w: "ok (ww_open_status wal)" "\<not> ww_flush_in_progress wal" "ww_synced_index wal = ww_last_index wal"
    "unat (ww_last_index wal) = length (log_entries log)" using inv(1) by (auto simp: Log_inv_def wal_in_step_def)
  have b': "unat (ww_last_index wal) + 1 < 2 ^ 64" using b w(4) by simp
  obtain e' log' wal' where a: "Log_Append log wal e = Some (Status_Ok, e', log', wal')" "calm (ww_os wal')"
    by (rule Log_Append_calm [OF inv(2) w(1-3) b'])
  from Log_Append_ok [OF inv(1) v b a(1)] a(2) show thesis by (intro that [OF a(1)]) simp_all
qed

lemma append_loop_merge:
  "Log_inv log wal \<Longrightarrow> calm (ww_os wal) \<Longrightarrow> unat index \<le> length (log_entries log) \<Longrightarrow> unat index + length es < 2 ^ 64 \<Longrightarrow>
   list_all EntryValid es \<Longrightarrow>
   \<exists>log' wal'. append_loop index es (log, wal) = Some (log', wal') \<and> Log_inv log' wal' \<and> calm (ww_os wal')
     \<and> abs_log log' = merge (unat index) (map abs_entry es) (abs_log log)"
proof (induction es arbitrary: index log wal)
  case (Cons e es)
  note inv = Cons.prems(1)
  have c: "contiguous (log_entries log)" using inv by (simp add: Log_inv_def)
  have i: "unat (index + 1) = Suc (unat index)" using Cons.prems(4) by (simp add: unat_word_ariths)
  have v: "EntryValid e" "list_all EntryValid es" using Cons.prems(5) by simp_all
  have b: "unat (index + 1) + length es < 2 ^ 64" using Cons.prems(4) i by simp
  have get: "Log_Get log (index + 1) = (if unat index < length (log_entries log) then Some (log_entries log ! unat index) else None)"
    using Log_Get_contiguous [OF c, of "index + 1"] i by auto
  have tail: "\<exists>log' wal'. (case Log_Append log1 wal1 e of None \<Rightarrow> None
        | Some (status, entry, log, wal) \<Rightarrow> append_loop (index + 1) es (log, wal)) = Some (log', wal')
      \<and> Log_inv log' wal' \<and> calm (ww_os wal')
      \<and> abs_log log' = merge (Suc (unat index)) (map abs_entry es) (take (unat index) (abs_log log) @ [abs_entry e])"
    if h: "Log_inv log1 wal1" "calm (ww_os wal1)" "log_entries log1 = take (unat index) (log_entries log)" for log1 wal1
  proof -
    have len: "length (log_entries log1) = unat index" using h(3) Cons.prems(3) by simp
    then have "length (log_entries log1) + 1 < 2 ^ 64" using Cons.prems(4) by simp
    then obtain e' log2 wal2 where a: "Log_Append log1 wal1 e = Some (Status_Ok, e', log2, wal2)" "Log_inv log2 wal2" "calm (ww_os wal2)"
      "e' = e\<lparr>e_index := of_nat (Suc (length (log_entries log1)))\<rparr>" "log2 = \<lparr>log_entries = log_entries log1 @ [e']\<rparr>"
      by (rule append_entry_step [OF h(1,2) v(1)])
    have "unat (index + 1) \<le> length (log_entries log2)" using a(5) len i by simp
    from Cons.IH [OF a(2,3) this b v(2)] show ?thesis
      using a(1,4,5) h(3) i by (simp add: abs_log_def take_map)
  qed
  show ?case
  proof (cases "unat index < length (log_entries log)")
    case True
    show ?thesis
    proof (cases "e_term (log_entries log ! unat index) = e_term e")
      case same: True
      have le: "unat (index + 1) \<le> length (log_entries log)" using True i by simp
      from Cons.IH [OF inv Cons.prems(2) le b v(2)] show ?thesis using True same get i by simp
    next
      case False
      obtain st log1 wal1 where t: "Log_TruncateFrom log wal (index + 1) = (st, log1, wal1)" by (rule prod_cases3)
      have nz: "index + 1 \<noteq> 0" using i by (metis unat_0 nat.distinct(1))
      have w: "ok (ww_open_status wal)" using inv by (simp add: Log_inv_def wal_in_step_def)
      note tc = Log_TruncateFrom_calm [OF Cons.prems(2) w nz t]
      note tr = Log_TruncateFrom_ok [OF inv nz t tc(1)]
      have "log_entries log1 = take (unat index) (log_entries log)" using tr(1) i by simp
      from tail [OF tr(2) tc(2) this] show ?thesis
        using True False get t by (simp add: Let_def word_unat_eq_iff)
    qed
  next
    case False
    then have "log_entries log = take (unat index) (log_entries log)" by simp
    from tail [OF inv Cons.prems(2) this] show ?thesis using False get by (simp add: Let_def)
  qed
qed (auto intro!: exI)

text \<open>The state after the term has been brought up to date, before the log is looked at.\<close>

definition follow :: "AppendEntriesRequest \<Rightarrow> RaftNode \<Rightarrow> RaftNode" where
  "follow req n =
     (let n = (if ae_term req > rn_current_term n then BecomeFollowerLocked (ae_term req) n
               else if rn_state n = RaftState_kCandidate then n\<lparr>rn_state := RaftState_kFollower\<rparr> else n)
      in ResetElectionDeadlineLocked (n\<lparr>rn_leader_id := ae_leader_id req\<rparr>))"

lemma follow_fields [simp]:
  "rn_log (follow req n) = rn_log n" "rn_commit_index (follow req n) = rn_commit_index n" "rn_storage (follow req n) = rn_storage n"
  "rn_next_index (follow req n) = rn_next_index n" "rn_match_index (follow req n) = rn_match_index n"
  "rn_local_node_id (follow req n) = rn_local_node_id n" "rn_config (follow req n) = rn_config n"
  "rn_voted_for (follow req n) = (if ae_term req > rn_current_term n then 0 else rn_voted_for n)"
  "rn_state (follow req n) = (if ae_term req > rn_current_term n \<or> rn_state n = RaftState_kCandidate then RaftState_kFollower else rn_state n)"
  "rn_current_term (follow req n) = (if ae_term req > rn_current_term n then ae_term req else rn_current_term n)"
  by (simp_all add: follow_def Let_def)

lemma node_ok_follow: "node_ok i P n \<Longrightarrow> node_ok i P (follow req n)"
  using node_ok_BecomeFollower [of i P n "ae_term req"] by (auto simp: follow_def Let_def node_ok_def persisted_def)

lemma HandleAppendEntries_cases:
  assumes ok: "node_ok i P n" and v: "list_all EntryValid (ae_entries req)" and b: "unat (ae_prev_log_index req) + length (ae_entries req) < 2 ^ 64"
  obtains (stale) "ae_term req < rn_current_term n"
      "HandleAppendEntries hash req n = Some (\<lparr>aer_term = rn_current_term n, aer_success = False\<rparr>, n)"
  | (mismatch) "rn_current_term n \<le> ae_term req"
      "HandleAppendEntries hash req n = Some (\<lparr>aer_term = ae_term req, aer_success = False\<rparr>, follow req n)"
  | (accepted) log wal n' where "rn_current_term n \<le> ae_term req" "unat (ae_prev_log_index req) \<le> length (log_entries (rn_log n))"
      "term_at (abs_log (rn_log n)) (unat (ae_prev_log_index req)) = (if ae_prev_log_index req = 0 then 0 else unat (ae_prev_log_term req))"
      "Log_inv log wal" "calm (ww_os wal)"
      "abs_log log = merge (unat (ae_prev_log_index req)) (map abs_entry (ae_entries req)) (abs_log (rn_log n))"
      "n' = (follow req n)\<lparr>rn_log := log, rn_storage := (rn_storage n)\<lparr>ds_wal := wal\<rparr>\<rparr>"
      "HandleAppendEntries hash req n = Some (\<lparr>aer_term = ae_term req, aer_success = True\<rparr>,
         if ae_leader_commit req > rn_commit_index n then
           ApplyCommittedEntriesLocked hash (n'\<lparr>rn_commit_index := min (ae_leader_commit req) (Log_LastIndex log)\<rparr>)
         else n')"
proof (cases "ae_term req < rn_current_term n")
  case True
  then show thesis using stale by (simp add: HandleAppendEntries_def)
next
  case False
  let ?p = "ae_prev_log_index req" and ?L = "log_entries (rn_log n)"
  have le: "rn_current_term n \<le> ae_term req" using False by simp
  have t: "rn_current_term (follow req n) = ae_term req" using le by auto
  note H = HandleAppendEntries_def [of hash req n, unfolded Let_def, folded follow_def [unfolded Let_def]]
  have get: "Log_Get (rn_log n) ?p = (if 0 < unat ?p \<and> unat ?p \<le> length ?L then Some (?L ! (unat ?p - 1)) else None)"
    by (rule Log_Get_contiguous [OF node_ok_contiguous [OF ok]])
  show thesis
  proof (cases "?p > 0 \<and> (Log_Get (rn_log n) ?p = None \<or> e_term (the (Log_Get (rn_log n) ?p)) \<noteq> ae_prev_log_term req)")
    case True
    then show thesis using mismatch le False t by (simp add: H)
  next
    case match: False
    have p: "unat ?p \<le> length ?L" "term_at (abs_log (rn_log n)) (unat ?p) = (if ?p = 0 then 0 else unat (ae_prev_log_term req))"
      using match get
      by (auto simp: term_at_def word_gt_0 unat_gt_0 unat_eq_zero abs_log_def less_le_trans [OF diff_less] split: if_splits)
    have inv: "Log_inv (rn_log n) (ds_wal (rn_storage n))" "calm (ww_os (ds_wal (rn_storage n)))" using ok by (simp_all add: node_ok_def)
    from append_loop_merge [OF inv p(1) b v] obtain log wal where
      l: "append_loop ?p (ae_entries req) (rn_log n, ds_wal (rn_storage n)) = Some (log, wal)" "Log_inv log wal" "calm (ww_os wal)"
        "abs_log log = merge (unat ?p) (map abs_entry (ae_entries req)) (abs_log (rn_log n))" by blast
    have "HandleAppendEntries hash req n = Some (\<lparr>aer_term = ae_term req, aer_success = True\<rparr>,
         let n' = (follow req n)\<lparr>rn_log := log, rn_storage := (rn_storage n)\<lparr>ds_wal := wal\<rparr>\<rparr> in
         if ae_leader_commit req > rn_commit_index n then
           ApplyCommittedEntriesLocked hash (n'\<lparr>rn_commit_index := min (ae_leader_commit req) (Log_LastIndex log)\<rparr>)
         else n')"
      using False match l(1) t by (simp add: H)
    then show thesis by (intro accepted [OF le p l(2-4) refl]) (simp add: Let_def)
  qed
qed

section \<open>Restart\<close>

lemma restart_storage:
  assumes "Log_inv log wal" "calm os" "st = DurableStorage_new hash dir (ww_disk wal) os"
  shows "Log_inv log (ds_wal st)" "calm (ww_os (ds_wal st))" "ww_file (ds_wal st) = ww_disk wal"
proof -
  let ?rs = "map record_of_entry (log_entries log)"
  have c: "contiguous (log_entries log)" and v: "list_all EntryValid (log_entries log)" and d: "ww_disk wal = WalLog ?rs @ []"
    using assms(1) by (auto simp: Log_inv_def wal_in_step_def)
  have rv: "\<forall>r \<in> set ?rs. WalRecordValid r" using v by (auto simp: list_all_iff EntryValid_def)
  obtain st' where o: "DurableStorage_Open hash dir (ww_disk wal) os = Inr st'"
    "ww_last_index (ds_wal st') = last_wal_index 0 ?rs" "ww_synced_index (ds_wal st') = last_wal_index 0 ?rs"
    "ww_open_status (ds_wal st') = Status_Ok" "ww_file (ds_wal st') = ww_disk wal" "ww_disk (ds_wal st') = ww_disk wal"
    "\<not> ww_flush_in_progress (ds_wal st')" "calm (ww_os (ds_wal st'))"
    by (rule DurableStorage_Open_log [OF rv WalTorn_Nil d assms(2)])
  have st: "st' = st" using o(1) assms(3) by (simp add: DurableStorage_Open_def Let_def split: if_splits)
  have "unat (last_wal_index 0 ?rs) = length (log_entries log)"
    using c by (auto simp: last_wal_index_def last_map record_of_entry_def contiguous_def last_conv_nth)
  then show "Log_inv log (ds_wal st)" using c v d o unfolding st by (simp add: Log_inv_def wal_in_step_def)
  show "calm (ww_os (ds_wal st))" "ww_file (ds_wal st) = ww_disk wal" using o unfolding st by simp_all
qed

lemma restart_node:
  assumes ok: "node_ok i P n" and os: "calm os" "calm os'" and cfg: "cfg_peers config = P"
    and n': "n' = RaftNode_new i config (DurableStorage_new hash dir (ww_disk (ds_wal (rn_storage n))) os) (rn_state_disk n) os' clock rng"
  shows "node_ok i P n'" "rn_log n' = rn_log n" "rn_current_term n' = rn_current_term n" "rn_voted_for n' = rn_voted_for n"
    "rn_state n' = RaftState_kFollower" "rn_commit_index n' = 0" "rn_open_status n' = Status_Ok"
proof -
  define st where "st = DurableStorage_new hash dir (ww_disk (ds_wal (rn_storage n))) os"
  have inv: "Log_inv (rn_log n) (ds_wal (rn_storage n))" and p: "persisted n" using ok by (simp_all add: node_ok_def)
  note r = restart_storage [OF inv os(1) st_def]
  have d: "ww_disk (ds_wal st) = ww_file (ds_wal st)" using r(1) by (simp add: Log_inv_def wal_in_step_def)
  obtain os3 where l: "Log_Load (ds_data_dir st) (ww_file (ds_wal st)) (ww_os (ds_wal st)) = (Status_Ok, rn_log n, os3)" "calm os3"
    using Log_Load_disk [OF r(1,2)] unfolding d by blast
  define n0 where "n0 = \<lparr>rn_local_node_id = i, rn_config = config, rn_storage = st,
            rn_log = \<lparr>log_entries = []\<rparr>, rn_open_status = Status_Ok, rn_state = RaftState_kFollower,
            rn_current_term = 0, rn_voted_for = 0, rn_leader_id = 0, rn_commit_index = 0,
            rn_election_deadline = 0, rn_next_heartbeat = 0, rn_next_index = [], rn_match_index = [],
            rn_last_ack_time = [], rn_started = False, rn_stop = False,
            rn_state_file = rn_state_disk n, rn_state_disk = rn_state_disk n, rn_os = os', rn_clock = clock, rn_rng = rng\<rparr>"
  obtain os4 where ld: "LoadPersistedState n0 = (Status_Ok, n0\<lparr>rn_os := os4, rn_current_term := rn_current_term n, rn_voted_for := rn_voted_for n\<rparr>)"
    "calm os4"
  proof (cases "rn_state_disk n")
    case None
    then have "rn_current_term n = 0" "rn_voted_for n = 0" using p by (auto simp: persisted_def)
    then show ?thesis using that [of os'] None os(2) by (simp add: LoadPersistedState_def n0_def)
  next
    case (Some b)
    then have "rn_state_file n0 = Some (state_bytes (rn_current_term n) (rn_voted_for n))" "calm (rn_os n0)"
      using p os(2) by (auto simp: persisted_def n0_def)
    then show ?thesis using that by (rule LoadPersistedState_state_bytes)
  qed
  have "n' = ResetElectionDeadlineLocked (n0\<lparr>rn_os := os4, rn_current_term := rn_current_term n, rn_voted_for := rn_voted_for n,
      rn_open_status := Status_Ok, rn_log := rn_log n, rn_storage := st\<lparr>ds_wal := (ds_wal st)\<lparr>ww_os := os3\<rparr>\<rparr>\<rparr>)"
    using ld(1) l(1) unfolding n' RaftNode_new_def st_def [symmetric] n0_def [symmetric] by (simp add: Let_def)
  then show "node_ok i P n'" "rn_log n' = rn_log n" "rn_current_term n' = rn_current_term n" "rn_voted_for n' = rn_voted_for n"
    "rn_state n' = RaftState_kFollower" "rn_commit_index n' = 0" "rn_open_status n' = Status_Ok"
    using r(1) l(2) ld(2) p cfg by (simp_all add: node_ok_def persisted_def n0_def Log_inv_def wal_in_step_def)
qed

section \<open>Propose and replication\<close>

lemma Propose_begin_leader:
  assumes ok: "node_ok i P n" and l: "rn_state n = RaftState_kLeader" and v: "EntryValid e" and b: "length (log_entries (rn_log n)) + 1 < 2 ^ 64"
  obtains log wal where "Propose_begin e n = Some (Inr (of_nat (Suc (length (log_entries (rn_log n))))), n\<lparr>rn_log := log, rn_storage := (rn_storage n)\<lparr>ds_wal := wal\<rparr>\<rparr>)"
    "Log_inv log wal" "calm (ww_os wal)" "abs_log log = abs_log (rn_log n) @ [(unat (rn_current_term n), e_op e, e_key e, e_value e)]"
proof -
  have inv: "Log_inv (rn_log n) (ds_wal (rn_storage n))" "calm (ww_os (ds_wal (rn_storage n)))" using ok by (simp_all add: node_ok_def)
  have v': "EntryValid (e\<lparr>e_term := rn_current_term n\<rparr>)"
    using v by (simp add: EntryValid_def record_of_entry_def WalRecordValid_def)
  obtain e' log wal where a: "Log_Append (rn_log n) (ds_wal (rn_storage n)) (e\<lparr>e_term := rn_current_term n\<rparr>) = Some (Status_Ok, e', log, wal)"
    "Log_inv log wal" "calm (ww_os wal)" "e' = e\<lparr>e_term := rn_current_term n, e_index := of_nat (Suc (length (log_entries (rn_log n))))\<rparr>"
    "log = \<lparr>log_entries = log_entries (rn_log n) @ [e']\<rparr>"
    by (rule append_entry_step [OF inv v' b])
  show thesis
    by (rule that [of wal log]) (use a l in \<open>simp_all add: Propose_begin_def abs_log_def abs_entry_def\<close>)
qed

lemma prev_log_term_at_abs:
  assumes "contiguous (log_entries (rn_log n))" "unat p \<le> length (log_entries (rn_log n))"
  shows "unat (prev_log_term_at n p) = term_at (abs_log (rn_log n)) (unat p)"
proof (cases "p = 0")
  case False
  then have "0 < unat p" by (simp add: unat_gt_0)
  then show ?thesis
    using Log_Get_contiguous [OF assms(1), of p] assms(2) False by (simp add: prev_log_term_at_def term_at_def)
qed (simp add: prev_log_term_at_def term_at_def)

lemma Log_EntriesFrom_contiguous:
  assumes "contiguous (log_entries log)" "1 \<le> unat i"
  shows "Log_EntriesFrom log i = drop (unat i - 1) (log_entries log)"
  using assms(2) by (auto simp: Log_EntriesFrom_def)

section \<open>Which index a majority has reached\<close>

lemma sorted_nth_count:
  assumes "sorted xs" "j < length xs"
  shows "length xs - j \<le> length (filter (\<lambda>x. xs ! j \<le> x) xs)"
proof -
  have "filter (\<lambda>x. xs ! j \<le> x) (drop j xs) = drop j xs"
    using assms sorted_nth_mono [of xs j] by (auto simp: filter_id_conv in_set_conv_nth)
  then have "length xs - j = length (filter (\<lambda>x. xs ! j \<le> x) (drop j xs))" by simp
  also have "\<dots> \<le> length (filter (\<lambda>x. xs ! j \<le> x) (take j xs @ drop j xs))" by (simp only: filter_append length_append)
  finally show ?thesis by simp
qed

lemma majority_index:
  fixes xs :: "u64 list"
  assumes "xs \<noteq> []"
  shows "length xs div 2 + 1 \<le> length (filter (\<lambda>x. sort xs ! (length xs - (length xs div 2 + 1)) \<le> x) xs)"
proof -
  let ?j = "length xs - (length xs div 2 + 1)"
  have "0 < length xs" using assms by simp
  then have "?j < length (sort xs)" and e: "length xs - ?j = length xs div 2 + 1" by (simp, linarith)+
  from sorted_nth_count [OF sorted_sort this(1)] e
  have "length xs div 2 + 1 \<le> length (filter (\<lambda>x. sort xs ! ?j \<le> x) (sort xs))" by simp
  also have "\<dots> = length (filter (\<lambda>x. sort xs ! ?j \<le> x) xs)"
    by (metis (no_types, lifting) filter_sort length_sort)
  finally show ?thesis .
qed

end
