(* ===== verification/Raft_Cluster.thy ===== *)
theory Raft_Cluster
  imports Raft_Node_Facts
begin

text \<open>
  A cluster of nodes running \<^verbatim>\<open>raft/node.cpp\<close>. A state holds every node, the candidacy its background thread is in the middle of
  (\<^verbatim>\<open>StartElection\<close>: the request, the peers still to ask, the votes so far), and all requests and replies ever sent. One
  action runs one critical section of one node, taken from the theory \<^verbatim>\<open>Raft_Node\<close>; actions interleave freely.

  The network is unreliable: a request may be handled late, several times, or never, and a reply may never arrive. What
  an RPC carries is the decoded request, which the codec theorems justify. Timeouts are not modelled: an election may start at
  any moment the code could start one. A restart loses everything but the write-ahead log and the state file. A node stops only
  between two critical sections: what a stop inside one does to the log is in \<open>Raft_Log\<close>.

  Three guards are assumptions on the environment, not tests in the code: a term does not reach \<open>2 ^ 64 - 1\<close>, a log does not
  reach \<open>2 ^ 64 - 2\<close> entries, and system calls on the two files do not fail (\<open>calm\<close>; short writes are allowed).
\<close>

section \<open>States and actions\<close>

record Cluster =
  cl_node :: "u32 \<Rightarrow> RaftNode"
  cl_election :: "u32 \<Rightarrow> (RequestVoteRequest \<times> PeerInfo list \<times> nat) option"
  cl_votes_sent :: "RequestVoteRequest list"
  cl_votes_got :: "(u32 \<times> RequestVoteRequest \<times> RequestVoteResponse) list"
  cl_appends_sent :: "(u32 \<times> bool \<times> AppendEntriesRequest) list"   \<comment> \<open>the flag marks \<^verbatim>\<open>ConfirmLeadershipQuorum\<close>\<close>
  cl_appends_got :: "(u32 \<times> bool \<times> AppendEntriesRequest \<times> AppendEntriesResponse) list"

datatype Action =
    ElectionTimeout u32
  | DeliverVote u32 RequestVoteRequest
  | VoteReply u32 RequestVoteResponse
  | VoteLost u32
  | ElectionEnd u32
  | ProposeEntry u32 LogEntry
  | Replicate u32 PeerInfo
  | Confirm u32 PeerInfo
  | DeliverAppend u32 bool AppendEntriesRequest
  | AppendReply PeerInfo AppendEntriesRequest AppendEntriesResponse
  | ConfirmReply PeerInfo AppendEntriesRequest AppendEntriesResponse
  | Restart u32 "sys list" "sys list" "int list" "nat list"

definition ids :: "PeerInfo list \<Rightarrow> u32 set" where
  "ids P = peer_node_id ` set P"

definition set_node :: "u32 \<Rightarrow> RaftNode \<Rightarrow> Cluster \<Rightarrow> Cluster" where
  "set_node i n c = c\<lparr>cl_node := (cl_node c)(i := n)\<rparr>"

definition set_election :: "u32 \<Rightarrow> (RequestVoteRequest \<times> PeerInfo list \<times> nat) option \<Rightarrow> Cluster \<Rightarrow> Cluster" where
  "set_election i e c = c\<lparr>cl_election := (cl_election c)(i := e)\<rparr>"

fun cluster_step :: "(bytes \<Rightarrow> u64) \<Rightarrow> PeerInfo list \<Rightarrow> Action \<Rightarrow> Cluster \<Rightarrow> Cluster option" where
  "cluster_step hash P (ElectionTimeout i) c =
     (if i \<in> ids P \<and> rn_state (cl_node c i) \<noteq> RaftState_kLeader \<and> cl_election c i = None
         \<and> unat (rn_current_term (cl_node c i)) + 1 < 2 ^ 64 then
        (case StartElection_begin (cl_node c i) of (req, n) \<Rightarrow>
           Some (set_node i n (set_election i (Some (req, other_peers n, 1))
             (c\<lparr>cl_votes_sent := req # cl_votes_sent c\<rparr>))))
      else None)"
| "cluster_step hash P (DeliverVote i req) c =
     (if i \<in> ids P \<and> i \<noteq> rv_candidate_id req \<and> req \<in> set (cl_votes_sent c) then
        (case HandleRequestVote req (cl_node c i) of (resp, n) \<Rightarrow>
           Some (set_node i n (c\<lparr>cl_votes_got := (i, req, resp) # cl_votes_got c\<rparr>)))
      else None)"
| "cluster_step hash P (VoteReply i resp) c =
     (case cl_election c i of
        Some (req, peer # rest, votes) \<Rightarrow>
          if (peer_node_id peer, req, resp) \<in> set (cl_votes_got c) then
            (case StartElection_reply (rv_term req) resp votes (cl_node c i) of
               (None, n) \<Rightarrow> Some (set_node i n (set_election i None c))
             | (Some votes, n) \<Rightarrow> Some (set_node i n (set_election i (Some (req, rest, votes)) c)))
          else None
      | _ \<Rightarrow> None)"
| "cluster_step hash P (VoteLost i) c =
     (case cl_election c i of
        Some (req, peer # rest, votes) \<Rightarrow> Some (set_election i (Some (req, rest, votes)) c)
      | _ \<Rightarrow> None)"
| "cluster_step hash P (ElectionEnd i) c =
     (case cl_election c i of
        Some (req, [], votes) \<Rightarrow>
          Some (set_node i (StartElection_finish (rv_term req) votes (cl_node c i)) (set_election i None c))
      | _ \<Rightarrow> None)"
| "cluster_step hash P (ProposeEntry i entry) c =
     (if i \<in> ids P \<and> EntryValid entry \<and> length (log_entries (rn_log (cl_node c i))) + 2 < 2 ^ 64 then
        (case Propose_begin entry (cl_node c i) of
           None \<Rightarrow> None
         | Some (_, n) \<Rightarrow> Some (set_node i n c))
      else None)"
| "cluster_step hash P (Replicate i peer) c =
     (if i \<in> ids P \<and> peer \<in> set P \<and> peer_node_id peer \<noteq> i then
        (case ReplicateToPeer_begin peer (cl_node c i) of
           (None, n) \<Rightarrow> Some (set_node i n c)
         | (Some req, n) \<Rightarrow>
             Some (set_node i n (c\<lparr>cl_appends_sent := (peer_node_id peer, False, req) # cl_appends_sent c\<rparr>)))
      else None)"
| "cluster_step hash P (Confirm i peer) c =
     (if i \<in> ids P \<and> peer \<in> set P \<and> peer_node_id peer \<noteq> i then
        (case Confirm_request (rn_current_term (cl_node c i)) peer (cl_node c i) of
           (None, n) \<Rightarrow> Some (set_node i n c)
         | (Some req, n) \<Rightarrow>
             Some (set_node i n (c\<lparr>cl_appends_sent := (peer_node_id peer, True, req) # cl_appends_sent c\<rparr>)))
      else None)"
| "cluster_step hash P (DeliverAppend i k req) c =
     (if (i, k, req) \<in> set (cl_appends_sent c) then
        (case HandleAppendEntries hash req (cl_node c i) of
           None \<Rightarrow> None
         | Some (resp, n) \<Rightarrow> Some (set_node i n (c\<lparr>cl_appends_got := (i, k, req, resp) # cl_appends_got c\<rparr>)))
      else None)"
| "cluster_step hash P (AppendReply peer req resp) c =
     (if (peer_node_id peer, False, req, resp) \<in> set (cl_appends_got c) then
        Some (set_node (ae_leader_id req) (ReplicateToPeer_finish hash peer req resp (cl_node c (ae_leader_id req))) c)
      else None)"
| "cluster_step hash P (ConfirmReply peer req resp) c =
     (if (peer_node_id peer, True, req, resp) \<in> set (cl_appends_got c) then
        Some (set_node (ae_leader_id req) (snd (Confirm_reply (ae_term req) peer resp 0 (cl_node c (ae_leader_id req)))) c)
      else None)"
| "cluster_step hash P (Restart i os os' clock rng) c =
     (if i \<in> ids P \<and> calm os \<and> calm os' then
        let n = cl_node c i;
            storage = DurableStorage_new hash (ds_data_dir (rn_storage n)) (ww_disk (ds_wal (rn_storage n))) os in
        Some (set_node i (RaftNode_new i (rn_config n) storage (rn_state_disk n) os' clock rng) (set_election i None c))
      else None)"

text \<open>Every node starts with empty files and the same list of peers.\<close>

definition cluster_init :: "(bytes \<Rightarrow> u64) \<Rightarrow> PeerInfo list \<Rightarrow> Cluster \<Rightarrow> bool" where
  "cluster_init hash P c \<longleftrightarrow>
     (\<forall>i \<in> ids P. \<exists>config dir os os' clock rng. cfg_peers config = P \<and> calm os \<and> calm os'
        \<and> cl_node c i = RaftNode_new i config (DurableStorage_new hash dir [] os) None os' clock rng)
     \<and> cl_election c = (\<lambda>_. None) \<and> cl_votes_sent c = [] \<and> cl_votes_got c = [] \<and> cl_appends_sent c = [] \<and> cl_appends_got c = []"

definition is_confirm :: "Action \<Rightarrow> bool" where
  "is_confirm a \<longleftrightarrow> (case a of Confirm _ _ \<Rightarrow> True | _ \<Rightarrow> False)"

text \<open>States reachable with (\<open>b\<close>) and without the read-confirmation rounds.\<close>

inductive cluster_reach :: "(bytes \<Rightarrow> u64) \<Rightarrow> PeerInfo list \<Rightarrow> bool \<Rightarrow> Cluster \<Rightarrow> bool" for hash P b where
  start: "cluster_init hash P c \<Longrightarrow> cluster_reach hash P b c"
| act: "cluster_reach hash P b c \<Longrightarrow> b \<or> \<not> is_confirm a \<Longrightarrow> cluster_step hash P a c = Some c' \<Longrightarrow> cluster_reach hash P b c'"

text \<open>A sequence of actions, one after the other.\<close>

primrec cluster_run :: "(bytes \<Rightarrow> u64) \<Rightarrow> PeerInfo list \<Rightarrow> Action list \<Rightarrow> Cluster \<Rightarrow> Cluster option" where
  "cluster_run hash P [] c = Some c"
| "cluster_run hash P (a # acts) c =
     (case cluster_step hash P a c of None \<Rightarrow> None | Some c' \<Rightarrow> cluster_run hash P acts c')"

lemma cluster_run_append:
  "cluster_run hash P (xs @ ys) c = (case cluster_run hash P xs c of None \<Rightarrow> None | Some c' \<Rightarrow> cluster_run hash P ys c')"
  by (induction xs arbitrary: c) (simp_all split: option.split)

lemma cluster_run_reach:
  assumes "cluster_reach hash P b c" "cluster_run hash P acts c = Some c'" "b \<or> list_all (\<lambda>a. \<not> is_confirm a) acts"
  shows "cluster_reach hash P b c'"
  using assms
proof (induction acts arbitrary: c)
  case (Cons a acts)
  then obtain c1 where c1: "cluster_step hash P a c = Some c1" "cluster_run hash P acts c1 = Some c'" by (auto split: option.splits)
  have "cluster_reach hash P b c1" using Cons.prems(1,3) c1(1) by (auto intro: cluster_reach.act)
  then show ?case using Cons.IH c1(2) Cons.prems(3) by auto
qed simp

section \<open>Majorities\<close>

definition majority_of :: "PeerInfo list \<Rightarrow> u32 set \<Rightarrow> bool" where
  "majority_of P S \<longleftrightarrow> S \<subseteq> ids P \<and> length P div 2 + 1 \<le> card S"

lemma finite_ids [simp]: "finite (ids P)"
  by (simp add: ids_def)

lemma card_ids_le: "card (ids P) \<le> length P"
  unfolding ids_def by (rule le_trans [OF card_image_le card_length]) simp

interpretation maj: quorums "majority_of P" for P
proof unfold_locales
  fix A B assume "majority_of P A" "majority_of P B"
  then have h: "A \<subseteq> ids P" "B \<subseteq> ids P" "length P div 2 + 1 \<le> card A" "length P div 2 + 1 \<le> card B" by (auto simp: majority_of_def)
  show "A \<inter> B \<noteq> {}"
  proof
    assume "A \<inter> B = {}"
    then have "card (A \<union> B) = card A + card B" using h(1,2) by (intro card_Un_disjoint) (auto intro: finite_subset)
    moreover have "card (A \<union> B) \<le> card (ids P)" using h(1,2) by (intro card_mono) auto
    ultimately show False using h(3,4) card_ids_le [of P] by linarith
  qed
qed

end
