(* ===== verification/Raft_Refinement.thy ===== *)
theory Raft_Refinement
  imports Raft_Cluster
begin

text \<open>
  The cluster implements the abstract protocol: a simulation between the states of \<^verbatim>\<open>Raft_Cluster\<close> and those of
  \<^verbatim>\<open>Raft_Protocol\<close>. Every action of the code corresponds to zero or more steps of the protocol on the same node. The simulation
  covers roles, terms, votes and logs for all actions; commit indices are covered as long as no node runs
  \<^verbatim>\<open>ConfirmLeadershipQuorum\<close> (flag \<open>b\<close>).
\<close>

section \<open>The simulation relation\<close>

definition sim_leader :: "PeerInfo list \<Rightarrow> (u32, cmd) Raft \<Rightarrow> u32 \<Rightarrow> RaftNode \<Rightarrow> bool" where
  "sim_leader P s i n \<longleftrightarrow>
     acked s i (unat (rn_current_term n)) (length (log_entries (rn_log n)))
     \<and> distinct (map fst (rn_match_index n)) \<and> fst ` set (rn_match_index n) = ids P - {i}
     \<and> (\<forall>p v. (p, v) \<in> set (rn_match_index n) \<longrightarrow> v = 0 \<or> acked s p (unat (rn_current_term n)) (unat v))
     \<and> (\<forall>p \<in> ids P - {i}. \<exists>v. map_of (rn_next_index n) p = Some v \<and> 1 \<le> unat v \<and> unat v \<le> length (log_entries (rn_log n)) + 1)"

definition sim_node :: "bool \<Rightarrow> PeerInfo list \<Rightarrow> (u32, cmd) Raft \<Rightarrow> u32 \<Rightarrow> RaftNode \<Rightarrow> bool" where
  "sim_node b P s i n \<longleftrightarrow>
     node_ok i P n \<and> length (log_entries (rn_log n)) + 1 < 2 ^ 64
     \<and> role s i = rn_state n \<and> cterm s i = unat (rn_current_term n)
     \<and> vote s i = (if rn_voted_for n = 0 then None else Some (rn_voted_for n))
     \<and> elog s i = abs_log (rn_log n) \<and> (b \<or> commit s i = unat (rn_commit_index n))
     \<and> (rn_state n = RaftState_kLeader \<longrightarrow> sim_leader P s i n)"

definition abs_append :: "AppendEntriesRequest \<Rightarrow> nat \<Rightarrow> cmd Append" where
  "abs_append req mc = \<lparr>m_term = unat (ae_term req), m_prev = unat (ae_prev_log_index req),
     m_prev_term = (if ae_prev_log_index req = 0 then 0 else unat (ae_prev_log_term req)),
     m_entries = map abs_entry (ae_entries req), m_commit = mc\<rparr>"

definition append_ok :: "AppendEntriesRequest \<Rightarrow> bool" where
  "append_ok req \<longleftrightarrow> list_all EntryValid (ae_entries req)
     \<and> unat (ae_prev_log_index req) + length (ae_entries req) + 1 < 2 ^ 64
     \<and> (\<forall>j < length (ae_entries req). unat (e_index (ae_entries req ! j)) = unat (ae_prev_log_index req) + Suc j)"

definition sim_vote_sent :: "PeerInfo list \<Rightarrow> (u32, cmd) Raft \<Rightarrow> RequestVoteRequest \<Rightarrow> bool" where
  "sim_vote_sent P s req \<longleftrightarrow> rv_candidate_id req \<in> ids P
     \<and> (\<exists>l. (unat (rv_term req), rv_candidate_id req, l) \<in> candidacies s \<and> length l = unat (rv_last_log_index req)
          \<and> term_at l (length l) = unat (rv_last_log_term req))"

definition sim_vote_got :: "PeerInfo list \<Rightarrow> (u32, cmd) Raft \<Rightarrow> u32 \<Rightarrow> RequestVoteRequest \<Rightarrow> RequestVoteResponse \<Rightarrow> bool" where
  "sim_vote_got P s p req resp \<longleftrightarrow>
     (rvr_vote_granted resp \<longrightarrow> p \<in> ids P \<and> granted s p (unat (rv_term req)) (rv_candidate_id req))"

definition sim_election :: "PeerInfo list \<Rightarrow> (u32, cmd) Raft \<Rightarrow> u32 \<Rightarrow> RequestVoteRequest \<Rightarrow> PeerInfo list \<Rightarrow> nat \<Rightarrow> bool" where
  "sim_election P s i req rest votes \<longleftrightarrow>
     i \<in> ids P \<and> rv_candidate_id req = i \<and> granted s i (unat (rv_term req)) i
     \<and> distinct (map peer_node_id rest) \<and> ids rest \<subseteq> ids P - {i}
     \<and> (\<exists>G. votes = Suc (card G) \<and> G \<subseteq> ids P - {i} - ids rest \<and> (\<forall>p \<in> G. granted s p (unat (rv_term req)) i))"

definition sim_append_sent :: "bool \<Rightarrow> PeerInfo list \<Rightarrow> (u32, cmd) Raft \<Rightarrow> u32 \<Rightarrow> AppendEntriesRequest \<Rightarrow> bool" where
  "sim_append_sent b P s p req \<longleftrightarrow>
     p \<in> ids P \<and> ae_leader_id req \<in> ids P \<and> append_ok req
     \<and> (\<exists>mc. (p, abs_append req mc) \<in> msgs s
          \<and> (b \<or> mc = unat (ae_leader_commit req)
               \<and> unat (ae_leader_commit req) \<le> unat (ae_prev_log_index req) + length (ae_entries req)))"

definition sim_append_got :: "(u32, cmd) Raft \<Rightarrow> u32 \<Rightarrow> AppendEntriesRequest \<Rightarrow> AppendEntriesResponse \<Rightarrow> bool" where
  "sim_append_got s p req resp \<longleftrightarrow>
     (aer_success resp \<longrightarrow> acked s p (unat (ae_term req)) (unat (ae_prev_log_index req) + length (ae_entries req)))"

definition sim_net :: "bool \<Rightarrow> PeerInfo list \<Rightarrow> (u32, cmd) Raft \<Rightarrow> Cluster \<Rightarrow> bool" where
  "sim_net b P s c \<longleftrightarrow>
     (\<forall>req \<in> set (cl_votes_sent c). sim_vote_sent P s req)
     \<and> (\<forall>(p, req, resp) \<in> set (cl_votes_got c). sim_vote_got P s p req resp)
     \<and> (\<forall>i req rest votes. cl_election c i = Some (req, rest, votes) \<longrightarrow> sim_election P s i req rest votes)
     \<and> (\<forall>(p, k, req) \<in> set (cl_appends_sent c). sim_append_sent b P s p req)
     \<and> (\<forall>(p, k, req, resp) \<in> set (cl_appends_got c). sim_append_sent b P s p req \<and> sim_append_got s p req resp)"

definition sim :: "bool \<Rightarrow> PeerInfo list \<Rightarrow> Cluster \<Rightarrow> (u32, cmd) Raft \<Rightarrow> bool" where
  "sim b P c s \<longleftrightarrow> (\<forall>i \<in> ids P. sim_node b P s i (cl_node c i)) \<and> sim_net b P s c"

section \<open>Frame\<close>

definition same_node :: "u32 \<Rightarrow> (u32, cmd) Raft \<Rightarrow> (u32, cmd) Raft \<Rightarrow> bool" where
  "same_node i s s' \<longleftrightarrow> role s' i = role s i \<and> cterm s' i = cterm s i \<and> vote s' i = vote s i \<and> elog s' i = elog s i \<and> commit s' i = commit s i"

lemma steps_acked: "raft_steps Q s s' \<Longrightarrow> acked s v t k \<Longrightarrow> acked s' v t k"
  using steps_mono [of Q s s'] unfolding acked_def by blast

lemma steps_granted: "raft_steps Q s s' \<Longrightarrow> granted s v t k \<Longrightarrow> granted s' v t k"
  using steps_mono [of Q s s'] unfolding granted_def by blast

lemma sim_leader_steps:
  assumes "raft_steps Q s s'" "sim_leader P s i n"
  shows "sim_leader P s' i n"
proof -
  have "\<forall>p v. (p, v) \<in> set (rn_match_index n) \<longrightarrow> v = 0 \<or> acked s' p (unat (rn_current_term n)) (unat v)"
    using assms(2) steps_acked [OF assms(1)] unfolding sim_leader_def by blast
  then show ?thesis using assms(2) steps_acked [OF assms(1)] by (simp add: sim_leader_def)
qed

lemma sim_node_steps: "raft_steps Q s s' \<Longrightarrow> same_node i s s' \<Longrightarrow> sim_node b P s i n \<Longrightarrow> sim_node b P s' i n"
  using sim_leader_steps [of Q s s' P i n] unfolding sim_node_def same_node_def by auto

lemma sim_vote_sent_steps: "raft_steps Q s s' \<Longrightarrow> sim_vote_sent P s req \<Longrightarrow> sim_vote_sent P s' req"
  using steps_mono [of Q s s'] unfolding sim_vote_sent_def by blast

lemma sim_vote_got_steps: "raft_steps Q s s' \<Longrightarrow> sim_vote_got P s p req resp \<Longrightarrow> sim_vote_got P s' p req resp"
  using steps_granted [of Q s s'] unfolding sim_vote_got_def by blast

lemma sim_election_steps:
  assumes "raft_steps Q s s'" "sim_election P s i req rest votes"
  shows "sim_election P s' i req rest votes"
proof -
  obtain G where "votes = Suc (card G)" "G \<subseteq> ids P - {i} - ids rest" "\<forall>p \<in> G. granted s p (unat (rv_term req)) i"
    using assms(2) by (auto simp: sim_election_def)
  then have "\<exists>G. votes = Suc (card G) \<and> G \<subseteq> ids P - {i} - ids rest \<and> (\<forall>p \<in> G. granted s' p (unat (rv_term req)) i)"
    using steps_granted [OF assms(1)] by blast
  then show ?thesis using assms(2) steps_granted [OF assms(1)] by (simp add: sim_election_def)
qed

lemma sim_append_sent_steps: "raft_steps Q s s' \<Longrightarrow> sim_append_sent b P s p req \<Longrightarrow> sim_append_sent b P s' p req"
  using steps_mono [of Q s s'] unfolding sim_append_sent_def by blast

lemma sim_append_got_steps: "raft_steps Q s s' \<Longrightarrow> sim_append_got s p req resp \<Longrightarrow> sim_append_got s' p req resp"
  using steps_acked [of Q s s'] unfolding sim_append_got_def by blast

lemma sim_net_steps:
  assumes "raft_steps Q s s'" "sim_net b P s c"
  shows "sim_net b P s' c"
proof -
  note h = assms(2) [unfolded sim_net_def]
  show ?thesis
    unfolding sim_net_def
  proof (intro conjI)
    show "\<forall>req \<in> set (cl_votes_sent c). sim_vote_sent P s' req" using h sim_vote_sent_steps [OF assms(1)] by blast
    show "\<forall>(p, req, resp) \<in> set (cl_votes_got c). sim_vote_got P s' p req resp" using h sim_vote_got_steps [OF assms(1)] by blast
    show "\<forall>i req rest votes. cl_election c i = Some (req, rest, votes) \<longrightarrow> sim_election P s' i req rest votes"
      using h sim_election_steps [OF assms(1)] by blast
    show "\<forall>(p, k, req) \<in> set (cl_appends_sent c). sim_append_sent b P s' p req" using h sim_append_sent_steps [OF assms(1)] by blast
    show "\<forall>(p, k, req, resp) \<in> set (cl_appends_got c). sim_append_sent b P s' p req \<and> sim_append_got s' p req resp"
      using h sim_append_sent_steps [OF assms(1), of b P] sim_append_got_steps [OF assms(1)] by (simp add: split_beta)
  qed
qed

text \<open>One node changes, the network grows.\<close>

lemma sim_set_node:
  assumes "sim b P c s" "raft_steps Q s s'" "\<And>j. j \<noteq> i \<Longrightarrow> same_node j s s'" "i \<in> ids P \<Longrightarrow> sim_node b P s' i n" "sim_net b P s' c'"
    "cl_node c' = cl_node c"
  shows "sim b P (set_node i n c') s'"
proof -
  have "sim_node b P s' j (cl_node (set_node i n c') j)" if "j \<in> ids P" for j
  proof (cases "j = i")
    case False
    have "sim_node b P s j (cl_node c j)" using assms(1) that by (simp add: sim_def)
    from sim_node_steps [OF assms(2,3) this] False show ?thesis by (simp add: set_node_def assms(6))
  qed (use assms(4) that in \<open>simp add: set_node_def\<close>)
  moreover have "sim_net b P s' (set_node i n c')" using assms(5) by (simp add: sim_net_def set_node_def)
  ultimately show ?thesis by (simp add: sim_def)
qed

lemma same_node_refl [simp]: "same_node i s s"
  by (simp add: same_node_def)

lemma same_node_trans: "same_node i s s' \<Longrightarrow> same_node i s' s'' \<Longrightarrow> same_node i s s''"
  by (simp add: same_node_def)

text \<open>Raising the term: \<^verbatim>\<open>BecomeFollowerLocked\<close> is the step \<open>adopt\<close>.\<close>

definition adopted :: "u32 \<Rightarrow> nat \<Rightarrow> (u32, cmd) Raft \<Rightarrow> (u32, cmd) Raft" where
  "adopted i t s = s\<lparr>cterm := (cterm s)(i := t), vote := (vote s)(i := None), role := (role s)(i := RaftState_kFollower)\<rparr>"

lemma sim_adopt:
  assumes "sim_node b P s i n" "rn_current_term n < t"
  shows "raft_step Q s (adopted i (unat t) s)" "sim_node b P (adopted i (unat t) s) i (BecomeFollowerLocked t n)"
    "j \<noteq> i \<Longrightarrow> same_node j s (adopted i (unat t) s)"
proof -
  show "raft_step Q s (adopted i (unat t) s)"
    unfolding adopted_def by (rule raft_step.adopt) (use assms in \<open>simp add: sim_node_def word_less_nat_alt\<close>)
  show "sim_node b P (adopted i (unat t) s) i (BecomeFollowerLocked t n)"
    using assms(1) node_ok_BecomeFollower by (auto simp: sim_node_def adopted_def)
  show "j \<noteq> i \<Longrightarrow> same_node j s (adopted i (unat t) s)" by (simp add: same_node_def adopted_def)
qed

section \<open>Elections\<close>

definition peers_ok :: "PeerInfo list \<Rightarrow> bool" where
  "peers_ok P \<longleftrightarrow> distinct (map peer_node_id P) \<and> 0 \<notin> ids P"

lemma simD:
  assumes "sim b P c s"
  shows "i \<in> ids P \<Longrightarrow> sim_node b P s i (cl_node c i)" "req \<in> set (cl_votes_sent c) \<Longrightarrow> sim_vote_sent P s req"
    "(p, req, resp) \<in> set (cl_votes_got c) \<Longrightarrow> sim_vote_got P s p req resp"
    "cl_election c i = Some (req, rest, votes) \<Longrightarrow> sim_election P s i req rest votes"
    "(p, k, areq) \<in> set (cl_appends_sent c) \<Longrightarrow> sim_append_sent b P s p areq"
    "(p, k, areq, aresp) \<in> set (cl_appends_got c) \<Longrightarrow> sim_append_sent b P s p areq \<and> sim_append_got s p areq aresp" "sim_net b P s c"
  using assms unfolding sim_def sim_net_def by blast+

lemma sim_nodeD:
  assumes "sim_node b P s i n"
  shows "node_ok i P n" "length (log_entries (rn_log n)) + 1 < 2 ^ 64" "role s i = rn_state n" "cterm s i = unat (rn_current_term n)"
    "vote s i = (if rn_voted_for n = 0 then None else Some (rn_voted_for n))" "elog s i = abs_log (rn_log n)"
    "b \<or> commit s i = unat (rn_commit_index n)" "rn_state n = RaftState_kLeader \<Longrightarrow> sim_leader P s i n"
    "rn_local_node_id n = i" "cfg_peers (rn_config n) = P"
  using assms by (simp_all add: sim_node_def node_ok_def)

lemma ids_other_peers: "node_ok i P n \<Longrightarrow> ids (other_peers n) = ids P - {i}"
  by (auto simp: other_peers_def node_ok_def ids_def)

lemma distinct_other_peers: "node_ok i P n \<Longrightarrow> peers_ok P \<Longrightarrow> distinct (map peer_node_id (other_peers n))"
  by (auto simp: other_peers_def node_ok_def peers_ok_def distinct_map inj_on_def)

lemma sim_ElectionTimeout:
  assumes sim: "sim b P c s" and P: "peers_ok P" and step: "cluster_step hash P (ElectionTimeout i) c = Some c'"
  shows "\<exists>s'. raft_steps Q s s' \<and> sim b P c' s'"
proof -
  define n where "n = cl_node c i"
  have g: "i \<in> ids P" "rn_state n \<noteq> RaftState_kLeader" "unat (rn_current_term n) + 1 < 2 ^ 64"
    using step by (auto simp: n_def split: if_splits)
  obtain req n' where b: "StartElection_begin n = (req, n')" by fastforce
  have c': "c' = set_node i n' (set_election i (Some (req, other_peers n', 1)) (c\<lparr>cl_votes_sent := req # cl_votes_sent c\<rparr>))"
    using step b by (auto simp: n_def split: if_splits)
  note sn = sim_nodeD [OF simD(1) [OF sim g(1), folded n_def]]
  define t where "t = Suc (cterm s i)"
  have t: "unat (rn_current_term n + 1) = t" using g(3) sn(4) by (simp add: t_def unat_word_ariths)
  have i: "i \<noteq> 0" using P g(1) by (auto simp: peers_ok_def)
  have n': "node_ok i P n'" "rn_state n' = RaftState_kCandidate" "rn_current_term n' = rn_current_term n + 1" "rn_voted_for n' = i"
      "rn_log n' = rn_log n" "rn_commit_index n' = rn_commit_index n" and
    req: "req = \<lparr>rv_term = rn_current_term n + 1, rv_candidate_id = i, rv_last_log_index = Log_LastIndex (rn_log n),
      rv_last_log_term = Log_LastTerm (rn_log n)\<rparr>"
    using b sn(1) node_ok_persist [OF sn(1)] sn(9,10) by (auto simp: StartElection_begin_def Let_def)
  define s' where "s' = s\<lparr>cterm := (cterm s)(i := t), vote := (vote s)(i := Some i), role := (role s)(i := RaftState_kCandidate),
      candidacies := insert (t, i, elog s i) (candidacies s), grants := insert (i, t, i, elog s i) (grants s)\<rparr>"
  have st: "raft_steps Q s s'"
    unfolding s'_def by (rule r_into_rtranclp, rule raft_step.timeout) (use g(2) sn(3) in \<open>simp_all add: t_def\<close>)
  have node: "sim_node b P s' i n'" using sn n' t i by (simp add: sim_node_def s'_def)
  have same: "j \<noteq> i \<Longrightarrow> same_node j s s'" for j by (simp add: same_node_def s'_def)
  have "sim_vote_sent P s' req"
    using g(1) t Log_LastIndex_contiguous [OF node_ok_contiguous [OF sn(1)]] Log_LastTerm_abs [of "rn_log n"] sn(6)
    by (auto simp: sim_vote_sent_def req s'_def intro!: exI [of _ "abs_log (rn_log n)"])
  moreover have "sim_election P s' i req (other_peers n') 1"
    unfolding sim_election_def
    using g(1) t ids_other_peers [OF n'(1)] distinct_other_peers [OF n'(1) P]
    by (auto simp: req granted_def s'_def intro!: exI [of _ "{}"])
  ultimately have "sim_net b P s' (set_election i (Some (req, other_peers n', 1)) (c\<lparr>cl_votes_sent := req # cl_votes_sent c\<rparr>))"
    using sim_net_steps [OF st simD(7) [OF sim]] by (simp add: sim_net_def set_election_def)
  from sim_set_node [OF sim st same node this] st show ?thesis unfolding c' by (auto simp: set_election_def)
qed

lemma sim_grant:
  assumes sn: "sim_node b P s i n" and sv: "sim_vote_sent P s req" and i: "i \<in> ids P" "i \<noteq> rv_candidate_id req" and P: "peers_ok P"
    and h: "rn_current_term n = rv_term req" "rn_voted_for n = 0 \<or> rn_voted_for n = rv_candidate_id req"
      "rv_last_log_term req > Log_LastTerm (rn_log n)
       \<or> rv_last_log_term req = Log_LastTerm (rn_log n) \<and> rv_last_log_index req \<ge> Log_LastIndex (rn_log n)"
    and n': "n' = ResetElectionDeadlineLocked (PersistStateLocked (n\<lparr>rn_voted_for := rv_candidate_id req\<rparr>))"
  obtains s' where "raft_step Q s s'" "sim_node b P s' i n'" "granted s' i (unat (rv_term req)) (rv_candidate_id req)"
    "\<forall>j. j \<noteq> i \<longrightarrow> same_node j s s'"
proof -
  let ?c = "rv_candidate_id req"
  note d = sim_nodeD [OF sn]
  obtain l where l: "(unat (rv_term req), ?c, l) \<in> candidacies s" "length l = unat (rv_last_log_index req)"
    "term_at l (length l) = unat (rv_last_log_term req)" and c: "?c \<in> ids P" using sv by (auto simp: sim_vote_sent_def)
  have c0: "?c \<noteq> 0" using P c by (auto simp: peers_ok_def)
  have "unat (Log_LastIndex (rn_log n)) = length (elog s i)" "unat (Log_LastTerm (rn_log n)) = term_at (elog s i) (length (elog s i))"
    using Log_LastIndex_contiguous [OF node_ok_contiguous [OF d(1)]] Log_LastTerm_abs [of "rn_log n"] d(6) by simp_all
  then have up: "up_to_date l (elog s i)"
    using h(3) l(2,3) by (auto simp: up_to_date_def word_less_nat_alt word_le_nat_alt)
  define s' where "s' = s\<lparr>vote := (vote s)(i := Some ?c), grants := insert (i, cterm s i, ?c, elog s i) (grants s)\<rparr>"
  have t: "cterm s i = unat (rv_term req)" using d(4) h(1) by simp
  show thesis
  proof (rule that [of s'])
    show "raft_step Q s s'"
      unfolding s'_def by (rule raft_step.grant [of _ _ _ l]) (use l(1) t i(2) d(5) h(2) up in auto)
    have "node_ok i P n'" unfolding n' node_ok_reset
      by (rule node_ok_persist [OF d(1)]) (use d(9,10) in simp_all)
    then show "sim_node b P s' i n'" using d c0 by (auto simp: sim_node_def s'_def n' sim_leader_def acked_def)
    show "granted s' i (unat (rv_term req)) ?c" using t by (auto simp: granted_def s'_def)
    show "\<forall>j. j \<noteq> i \<longrightarrow> same_node j s s'" by (simp add: same_node_def s'_def)
  qed
qed

lemma sim_DeliverVote:
  assumes sim: "sim b P c s" and P: "peers_ok P" and step: "cluster_step hash P (DeliverVote i req) c = Some c'"
  shows "\<exists>s'. raft_steps Q s s' \<and> sim b P c' s'"
proof -
  define n where "n = cl_node c i"
  have g: "i \<in> ids P" "i \<noteq> rv_candidate_id req" "req \<in> set (cl_votes_sent c)" using step by (auto split: if_splits)
  obtain resp n' where r: "HandleRequestVote req n = (resp, n')" by fastforce
  have c': "c' = set_node i n' (c\<lparr>cl_votes_got := (i, req, resp) # cl_votes_got c\<rparr>)"
    using step r by (auto simp: n_def split: if_splits)
  note sn = simD(1) [OF sim g(1), folded n_def] and sv = simD(2) [OF sim g(3)]
  define n1 where "n1 = (if rv_term req > rn_current_term n then BecomeFollowerLocked (rv_term req) n else n)"
  have "\<exists>s1. raft_steps Q s s1 \<and> sim_node b P s1 i n1 \<and> (\<forall>j. j \<noteq> i \<longrightarrow> same_node j s s1)"
  proof (cases "rv_term req > rn_current_term n")
    case True
    note a = sim_adopt [OF sn True]
    show ?thesis by (rule exI [of _ "adopted i (unat (rv_term req)) s"]) (use a(2,3) True in \<open>auto simp: n1_def intro: a(1)\<close>)
  qed (use sn n1_def in auto)
  then obtain s1 where s1: "raft_steps Q s s1" "sim_node b P s1 i n1" "\<And>j. j \<noteq> i \<Longrightarrow> same_node j s s1" by blast
  have "\<exists>s'. raft_steps Q s s' \<and> sim_node b P s' i n' \<and> (\<forall>j. j \<noteq> i \<longrightarrow> same_node j s s') \<and> sim_vote_got P s' i req resp"
    using r
  proof (cases rule: HandleRequestVote_cases)
    case denied
    then show ?thesis using s1 by (auto simp: sim_vote_got_def n1_def)
  next
    case (granted m)
    have m: "m = n1" "rn_log n1 = rn_log n" using granted(3) by (simp_all add: n1_def)
    have u: "rv_last_log_term req > Log_LastTerm (rn_log n1)
       \<or> rv_last_log_term req = Log_LastTerm (rn_log n1) \<and> rv_last_log_index req \<ge> Log_LastIndex (rn_log n1)"
      using granted(6) m(2) by simp
    obtain s' where "raft_step Q s1 s'" "sim_node b P s' i n'" "granted s' i (unat (rv_term req)) (rv_candidate_id req)"
      "\<forall>j. j \<noteq> i \<longrightarrow> same_node j s1 s'"
      by (rule sim_grant [where Q = Q, OF s1(2) sim_vote_sent_steps [OF s1(1) sv] g(1,2) P granted(4,5) [unfolded m] u granted(7) [unfolded m(1)]])
    then show ?thesis
      using s1(1,3) g(1) same_node_trans [of _ s s1 s'] by (intro exI [of _ s']) (auto simp: sim_vote_got_def)
  qed
  then obtain s' where s': "raft_steps Q s s'" "sim_node b P s' i n'" "\<And>j. j \<noteq> i \<Longrightarrow> same_node j s s'" "sim_vote_got P s' i req resp" by blast
  have "sim_net b P s' (c\<lparr>cl_votes_got := (i, req, resp) # cl_votes_got c\<rparr>)"
    using sim_net_steps [OF s'(1) simD(7) [OF sim]] s'(4) by (simp add: sim_net_def)
  from sim_set_node [OF sim s'(1,3,2) this] s'(1) show ?thesis unfolding c' by auto
qed

lemma sim_unchanged_net:
  assumes "sim b P c s" "\<And>s'. raft_steps Q s s' \<Longrightarrow> sim_net b P s' c \<Longrightarrow> sim_net b P s' c'" "cl_node c' = cl_node c"
    "\<exists>s'. raft_steps Q s s' \<and> sim_node b P s' i n \<and> (\<forall>j. j \<noteq> i \<longrightarrow> same_node j s s')"
  shows "\<exists>s'. raft_steps Q s s' \<and> sim b P (set_node i n c') s'"
proof -
  obtain s' where s': "raft_steps Q s s'" "sim_node b P s' i n" "\<And>j. j \<noteq> i \<Longrightarrow> same_node j s s'" using assms(4) by blast
  have "sim_net b P s' c'" using assms(2) [OF s'(1)] sim_net_steps [OF s'(1) simD(7) [OF assms(1)]] by blast
  from sim_set_node [OF assms(1) s'(1,3,2) this assms(3)] s'(1) show ?thesis by blast
qed

lemma sim_keep_or_adopt:
  assumes "sim_node b P s i n" "n' = n \<or> (\<exists>t. rn_current_term n < t \<and> n' = BecomeFollowerLocked t n)"
  shows "\<exists>s'. raft_steps Q s s' \<and> sim_node b P s' i n' \<and> (\<forall>j. j \<noteq> i \<longrightarrow> same_node j s s')"
proof (cases "n' = n")
  case False
  then obtain t where t: "rn_current_term n < t" "n' = BecomeFollowerLocked t n" using assms(2) by blast
  note a = sim_adopt [OF assms(1) t(1)]
  show ?thesis by (rule exI [of _ "adopted i (unat t) s"]) (use a(2,3) t in \<open>auto intro: a(1)\<close>)
qed (use assms(1) in auto)

lemma sim_net_election:
  assumes "sim_net b P s c" "\<And>req rest votes. e = Some (req, rest, votes) \<Longrightarrow> sim_election P s i req rest votes"
  shows "sim_net b P s (set_election i e c)"
  using assms by (simp add: sim_net_def set_election_def)

lemma sim_election_skip: "sim_election P s i req (peer # rest) votes \<Longrightarrow> sim_election P s i req rest votes"
  unfolding sim_election_def by (elim conjE exE, intro conjI exI) (auto simp: ids_def)

lemma sim_election_count:
  assumes "sim_election P s i req (peer # rest) votes" "granted s (peer_node_id peer) (unat (rv_term req)) i"
  shows "sim_election P s i req rest (votes + 1)"
proof -
  obtain G where G: "votes = Suc (card G)" "G \<subseteq> ids P - {i} - ids (peer # rest)" "\<forall>p \<in> G. granted s p (unat (rv_term req)) i"
    using assms(1) by (auto simp: sim_election_def)
  have p: "peer_node_id peer \<notin> G" "peer_node_id peer \<in> ids P - {i} - ids rest" "ids (peer # rest) = insert (peer_node_id peer) (ids rest)"
    using G(2) assms(1) by (auto simp: sim_election_def ids_def)
  have "finite G" using G(2) finite_subset [of G "ids P"] by auto
  then have "votes + 1 = Suc (card (insert (peer_node_id peer) G))" using G(1) p(1) by simp
  moreover have "insert (peer_node_id peer) G \<subseteq> ids P - {i} - ids rest" using G(2) p(2,3) by auto
  ultimately have "\<exists>G. votes + 1 = Suc (card G) \<and> G \<subseteq> ids P - {i} - ids rest \<and> (\<forall>p \<in> G. granted s p (unat (rv_term req)) i)"
    using G(3) assms(2) by blast
  then show ?thesis using assms(1) by (auto simp: sim_election_def ids_def)
qed

lemma sim_VoteReply:
  assumes sim: "sim b P c s" and step: "cluster_step hash P (VoteReply i resp) c = Some c'"
  shows "\<exists>s'. raft_steps Q s s' \<and> sim b P c' s'"
proof -
  define n where "n = cl_node c i"
  obtain req peer rest votes where e: "cl_election c i = Some (req, peer # rest, votes)"
    and got: "(peer_node_id peer, req, resp) \<in> set (cl_votes_got c)"
    using step by (auto split: option.splits list.splits if_splits)
  note se = simD(4) [OF sim e] and sg = simD(3) [OF sim got]
  have i: "i \<in> ids P" "rv_candidate_id req = i" using se by (auto simp: sim_election_def)
  note sn = simD(1) [OF sim i(1), folded n_def]
  obtain res n' where r: "StartElection_reply (rv_term req) resp votes n = (res, n')" by fastforce
  have n': "n' = n \<or> (\<exists>t. rn_current_term n < t \<and> n' = BecomeFollowerLocked t n)"
    using r by (auto simp: StartElection_reply_def split: if_splits)
  have c': "c' = set_node i n' (set_election i (case res of None \<Rightarrow> None | Some v \<Rightarrow> Some (req, rest, v)) c)"
    using step e got r by (auto simp: n_def split: option.splits)
  show ?thesis
    unfolding c'
  proof (rule sim_unchanged_net [OF sim _ _ sim_keep_or_adopt [OF sn n']])
    fix s' assume s': "raft_steps Q s s'" "sim_net b P s' c"
    have "sim_election P s' i req rest v" if "res = Some v" for v
    proof (cases "rvr_vote_granted resp")
      case True
      then have "v = votes + 1" using r that by (auto simp: StartElection_reply_def split: if_splits)
      moreover have "granted s (peer_node_id peer) (unat (rv_term req)) i" using sg True i(2) by (simp add: sim_vote_got_def)
      ultimately show ?thesis using sim_election_steps [OF s'(1) sim_election_count [OF se]] by simp
    next
      case False
      then have "v = votes" using r that by (auto simp: StartElection_reply_def split: if_splits)
      then show ?thesis using sim_election_steps [OF s'(1) sim_election_skip [OF se]] by simp
    qed
    then show "sim_net b P s' (set_election i (case res of None \<Rightarrow> None | Some v \<Rightarrow> Some (req, rest, v)) c)"
      by (intro sim_net_election [OF s'(2)]) (auto split: option.splits)
  qed (simp add: set_election_def)
qed

lemma sim_VoteLost:
  assumes sim: "sim b P c s" and step: "cluster_step hash P (VoteLost i) c = Some c'"
  shows "\<exists>s'. raft_steps Q s s' \<and> sim b P c' s'"
proof -
  obtain req peer rest votes where e: "cl_election c i = Some (req, peer # rest, votes)"
    and c': "c' = set_election i (Some (req, rest, votes)) c"
    using step by (auto split: option.splits list.splits)
  have "sim_net b P s c'"
    unfolding c' by (rule sim_net_election [OF simD(7) [OF sim]]) (use sim_election_skip [OF simD(4) [OF sim e]] in auto)
  then have "sim b P c' s" using sim c' by (simp add: sim_def set_election_def)
  then show ?thesis by blast
qed

lemma map_of_fold_update:
  "map_of (fold (\<lambda>peer. AList.update (peer_node_id peer) v) ps m) = (\<lambda>q. if q \<in> ids ps then Some v else map_of m q)"
  by (induction ps arbitrary: m) (auto simp: ids_def AList.update_conv')

lemma distinct_fold_update:
  "distinct (map fst m) \<Longrightarrow> distinct (map fst (fold (\<lambda>peer. AList.update (peer_node_id peer) v) ps m))"
  by (induction ps arbitrary: m) (simp_all add: AList.distinct_update)

lemma BecomeLeader_fields:
  assumes "node_ok i P n"
  shows "node_ok i P (BecomeLeaderLocked n)" "rn_state (BecomeLeaderLocked n) = RaftState_kLeader"
    "rn_current_term (BecomeLeaderLocked n) = rn_current_term n" "rn_voted_for (BecomeLeaderLocked n) = rn_voted_for n"
    "rn_log (BecomeLeaderLocked n) = rn_log n" "rn_commit_index (BecomeLeaderLocked n) = rn_commit_index n"
    "rn_match_index (BecomeLeaderLocked n) = fold (\<lambda>peer. AList.update (peer_node_id peer) 0) (other_peers n) []"
    "rn_next_index (BecomeLeaderLocked n)
      = fold (\<lambda>peer. AList.update (peer_node_id peer) (Log_LastIndex (rn_log n) + 1)) (other_peers n) []"
  using assms by (simp_all add: BecomeLeaderLocked_def Let_def split_beta other_peers_def node_ok_def persisted_def)

lemma sim_leader_new:
  assumes ok: "node_ok i P n" and b: "length (log_entries (rn_log n)) + 1 < 2 ^ 64"
    and a: "acked s i (unat (rn_current_term n)) (length (log_entries (rn_log n)))"
  shows "sim_leader P s i (BecomeLeaderLocked n)"
proof -
  note f = BecomeLeader_fields [OF ok] and o = ids_other_peers [OF ok]
  let ?m = "rn_match_index (BecomeLeaderLocked n)"
  have d: "distinct (map fst ?m)" unfolding f(7) by (rule distinct_fold_update) simp
  have m: "map_of ?m = (\<lambda>q. if q \<in> ids P - {i} then Some 0 else None)" unfolding f(7) by (auto simp: map_of_fold_update o fun_eq_iff)
  have dom: "fst ` set ?m = ids P - {i}" unfolding dom_map_of_conv_image_fst [symmetric] m by (auto split: if_splits)
  have z: "v = 0" if "(p, v) \<in> set ?m" for p v
    using map_of_is_SomeI [OF d that] by (simp add: m split: if_splits)
  have "unat (Log_LastIndex (rn_log n) + 1) = length (log_entries (rn_log n)) + 1"
    using Log_LastIndex_contiguous [OF node_ok_contiguous [OF ok]] b by (simp add: unat_word_ariths)
  then have "\<forall>p \<in> ids P - {i}. \<exists>v. map_of (rn_next_index (BecomeLeaderLocked n)) p = Some v \<and> 1 \<le> unat v \<and> unat v \<le> length (log_entries (rn_log n)) + 1"
    by (simp add: f(8) map_of_fold_update o)
  then show ?thesis using a d dom z by (auto simp: sim_leader_def f(3,5))
qed

lemma sim_ElectionEnd:
  assumes sim: "sim b P c s" and step: "cluster_step hash P (ElectionEnd i) c = Some c'"
  shows "\<exists>s'. raft_steps (majority_of P) s s' \<and> sim b P c' s'"
proof -
  define n where "n = cl_node c i"
  obtain req votes where e: "cl_election c i = Some (req, [], votes)"
    and c': "c' = set_node i (StartElection_finish (rv_term req) votes n) (set_election i None c)"
    using step by (auto simp: n_def split: option.splits list.splits)
  note se = simD(4) [OF sim e]
  obtain G where i: "i \<in> ids P" "granted s i (unat (rv_term req)) i" and
    G: "votes = Suc (card G)" "G \<subseteq> ids P - {i}" "\<forall>p \<in> G. granted s p (unat (rv_term req)) i"
    using se by (auto simp: sim_election_def ids_def)
  note sn = simD(1) [OF sim i(1), folded n_def] note d = sim_nodeD [OF sn]
  have "\<exists>s'. raft_steps (majority_of P) s s' \<and> sim_node b P s' i (StartElection_finish (rv_term req) votes n)
      \<and> (\<forall>j. j \<noteq> i \<longrightarrow> same_node j s s')"
  proof (cases "rn_state n = RaftState_kCandidate \<and> rn_current_term n = rv_term req \<and> votes \<ge> majority n")
    case True
    let ?S = "insert i G" and ?n' = "BecomeLeaderLocked n"
    note f = BecomeLeader_fields [OF d(1)]
    define s' where "s' = s\<lparr>role := (role s)(i := RaftState_kLeader), leaders := insert (cterm s i, i) (leaders s),
      electors := (electors s)(cterm s i := ?S), lead_log := (lead_log s)(cterm s i := elog s i),
      acks := insert (i, cterm s i, length (elog s i)) (acks s)\<rparr>"
    have "finite G" using G(2) finite_subset [of G "ids P"] by auto
    then have "card ?S = votes" using G(1,2) by (subst card_insert_disjoint) auto
    then have q: "majority_of P ?S" using True G(2) i(1) d(10) by (auto simp: majority_of_def majority_def)
    have st: "raft_step (majority_of P) s s'"
      unfolding s'_def by (rule raft_step.win) (use True d(3,4) q i(2) G(3) in auto)
    have "acked s' i (unat (rn_current_term n)) (length (log_entries (rn_log n)))"
      using d(4,6) by (auto simp: acked_def s'_def)
    note l = sim_leader_new [OF d(1,2) this]
    have "sim_node b P s' i ?n'" using d l by (simp add: sim_node_def f s'_def)
    moreover have "j \<noteq> i \<Longrightarrow> same_node j s s'" for j by (simp add: same_node_def s'_def)
    ultimately show ?thesis using st True by (intro exI [of _ s']) (auto simp: StartElection_finish_def)
  next
    case False
    then have "StartElection_finish (rv_term req) votes n = n" by (simp only: StartElection_finish_def if_False)
    then show ?thesis using sn by (intro exI [of _ s]) simp
  qed
  note ex = this
  show ?thesis
    unfolding c'
  proof (rule sim_unchanged_net [OF sim _ _ ex])
    show "sim_net b P s' c \<Longrightarrow> sim_net b P s' (set_election i None c)" for s' by (rule sim_net_election) simp_all
  qed (simp add: set_election_def)
qed

section \<open>Proposals and requests\<close>

lemma sim_leader_longer:
  assumes "sim_leader P s i n" "rn_match_index n' = rn_match_index n" "rn_next_index n' = rn_next_index n"
    "rn_current_term n' = rn_current_term n" "length (log_entries (rn_log n)) \<le> length (log_entries (rn_log n'))"
    "acked s i (unat (rn_current_term n')) (length (log_entries (rn_log n')))"
  shows "sim_leader P s i n'"
proof -
  have "\<exists>v. map_of (rn_next_index n') p = Some v \<and> 1 \<le> unat v \<and> unat v \<le> length (log_entries (rn_log n')) + 1" if "p \<in> ids P - {i}" for p
  proof -
    obtain v where "map_of (rn_next_index n) p = Some v" "1 \<le> unat v" "unat v \<le> length (log_entries (rn_log n)) + 1"
      using assms(1) \<open>p \<in> ids P - {i}\<close> unfolding sim_leader_def by blast
    then show ?thesis using assms(3,5) by (intro exI [of _ v]) simp
  qed
  then show ?thesis using assms(1,2,4,6) by (simp add: sim_leader_def)
qed

lemma sim_ProposeEntry:
  assumes sim: "sim b P c s" and step: "cluster_step hash P (ProposeEntry i e) c = Some c'"
  shows "\<exists>s'. raft_steps Q s s' \<and> sim b P c' s'"
proof -
  define n where "n = cl_node c i"
  have g: "i \<in> ids P" "EntryValid e" "length (log_entries (rn_log n)) + 2 < 2 ^ 64"
    using step by (auto simp: n_def split: if_splits)
  obtain r n' where p: "Propose_begin e n = Some (r, n')" and c': "c' = set_node i n' c"
    using step by (auto simp: n_def split: if_splits option.splits)
  note sn = simD(1) [OF sim g(1), folded n_def] note d = sim_nodeD [OF sn]
  have "\<exists>s'. raft_steps Q s s' \<and> sim_node b P s' i n' \<and> (\<forall>j. j \<noteq> i \<longrightarrow> same_node j s s')"
  proof (cases "rn_state n = RaftState_kLeader")
    case True
    obtain log wal where l: "Propose_begin e n = Some (Inr (of_nat (Suc (length (log_entries (rn_log n))))), n\<lparr>rn_log := log, rn_storage := (rn_storage n)\<lparr>ds_wal := wal\<rparr>\<rparr>)"
      "Log_inv log wal" "calm (ww_os wal)" "abs_log log = abs_log (rn_log n) @ [(unat (rn_current_term n), e_op e, e_key e, e_value e)]"
      by (rule Propose_begin_leader [OF d(1) True g(2) d(2)])
    have n': "n' = n\<lparr>rn_log := log, rn_storage := (rn_storage n)\<lparr>ds_wal := wal\<rparr>\<rparr>" using p l(1) by simp
    have len: "length (log_entries log) = length (log_entries (rn_log n)) + 1" using arg_cong [OF l(4), of length] by simp
    define s' where "s' = s\<lparr>elog := (elog s)(i := abs_log log), lead_log := (lead_log s)(cterm s i := abs_log log),
      acks := insert (i, cterm s i, length (abs_log log)) (acks s)\<rparr>"
    have st: "raft_steps Q s s'"
      unfolding s'_def
      by (rule r_into_rtranclp, rule raft_step.propose [of _ _ _ "(e_op e, e_key e, e_value e)"]) (use True d(3,4,6) l(4) in simp_all)
    have "sim_leader P s' i n" using sim_leader_steps [OF st d(8) [OF True]] .
    then have lead: "sim_leader P s' i n'"
      by (rule sim_leader_longer) (use d(4) in \<open>simp_all add: n' len acked_def s'_def exI [of _ "Suc (length (log_entries (rn_log n)))"]\<close>)
    have "node_ok i P n'" using d(1) l(2,3) by (simp add: n' node_ok_def persisted_def)
    then have "sim_node b P s' i n'"
      unfolding sim_node_def using d(3-5,7) len g(3) lead by (simp add: s'_def n')
    then show ?thesis using st by (intro exI [of _ s']) (auto simp: same_node_def s'_def)
  next
    case False
    then have "n' = n" using p by (simp add: Propose_begin_def)
    then show ?thesis using sn by (intro exI [of _ s]) simp
  qed
  note ex = this
  show ?thesis unfolding c' by (rule sim_unchanged_net [OF sim _ refl ex])
qed

lemma map_at_leader:
  assumes "sim_leader P s i n" "p \<in> ids P" "p \<noteq> i"
  obtains v where "map_at (rn_next_index n) p = (v, rn_next_index n)" "1 \<le> unat v" "unat v \<le> length (log_entries (rn_log n)) + 1"
proof -
  obtain v where "map_of (rn_next_index n) p = Some v" "1 \<le> unat v" "unat v \<le> length (log_entries (rn_log n)) + 1"
    using assms unfolding sim_leader_def by blast
  then show thesis by (intro that [of v]) (simp_all add: map_at_def)
qed

text \<open>A request that describes a prefix of the leader's log is a message of the protocol.\<close>

lemma sim_send:
  assumes sn: "sim_node b P s i n" and l: "rn_state n = RaftState_kLeader" and inv: "raft_inv (majority_of P) s"
    and ip: "i \<in> ids P" "p \<in> ids P" "p \<noteq> i" and nx: "1 \<le> unat v" "unat v \<le> length (log_entries (rn_log n)) + 1"
    and es: "es = take j (drop (unat v - 1) (log_entries (rn_log n)))" "b \<or> length (log_entries (rn_log n)) \<le> j"
    and req: "req = \<lparr>ae_term = rn_current_term n, ae_leader_id = i, ae_prev_log_index = v - 1,
      ae_prev_log_term = prev_log_term_at n (v - 1), ae_leader_commit = rn_commit_index n, ae_entries = es\<rparr>"
  obtains s' where "raft_step Q s s'" "sim_append_sent b P s' p req" "\<forall>j. same_node j s s'"
proof -
  note d = sim_nodeD [OF sn]
  let ?L = "log_entries (rn_log n)" and ?p = "unat v - 1"
  have c: "contiguous ?L" and val: "list_all EntryValid ?L" using d(1) by (simp_all add: node_ok_def Log_inv_def)
  have "v \<noteq> 0" using nx(1) by auto
  then have p: "unat (v - 1) = ?p" by (simp add: unat_minus_one)
  have ple: "?p \<le> length ?L" using nx(2) by simp
  have pt: "(if v - 1 = 0 then 0 else unat (prev_log_term_at n (v - 1))) = term_at (elog s i) ?p"
    using prev_log_term_at_abs [OF c, of "v - 1"] p ple d(6) by (auto simp: term_at_def)
  have len: "?p + length es \<le> length ?L" using es(1) ple by auto
  define s' where "s' = s\<lparr>msgs := insert (p, \<lparr>m_term = cterm s i, m_prev = ?p, m_prev_term = term_at (elog s i) ?p,
      m_entries = take j (drop ?p (elog s i)), m_commit = commit s i\<rparr>) (msgs s)\<rparr>"
  have st: "raft_step Q s s'"
    unfolding s'_def by (rule raft_step.send) (use l d(3,6) ip(3) ple in simp_all)
  have "(p, abs_append req (commit s i)) \<in> msgs s'"
  proof -
    have "abs_append req (commit s i) = \<lparr>m_term = cterm s i, m_prev = ?p, m_prev_term = term_at (elog s i) ?p,
        m_entries = take j (drop ?p (elog s i)), m_commit = commit s i\<rparr>"
      unfolding pt [symmetric] using d(4,6) p by (simp add: abs_append_def req es(1) abs_log_def take_map drop_map)
    then show ?thesis by (simp add: s'_def)
  qed
  moreover have "append_ok req"
  proof -
    have "list_all EntryValid es" using val by (auto simp: es(1) list_all_iff dest: in_set_takeD in_set_dropD)
    moreover have "unat (e_index (es ! k)) = ?p + Suc k" if "k < length es" for k
    proof -
      have "es ! k = ?L ! (?p + k)" "?p + k < length ?L" using that len by (auto simp: es(1))
      then show ?thesis using c by (simp add: contiguous_def)
    qed
    ultimately show ?thesis using len d(2) p by (simp add: append_ok_def req)
  qed
  moreover have "commit s i = unat (rn_commit_index n) \<and> unat (rn_commit_index n) \<le> ?p + length es" if "\<not> b"
  proof -
    have cm: "commit s i = unat (rn_commit_index n)" using d(7) that by blast
    have "commit s i \<le> length (elog s i)" using maj.committed_prefixes_agree(1) [OF inv, of "commit s i" i i] by simp
    moreover have "?p + length es = length ?L" using es ple that by (simp add: min_def)
    ultimately show ?thesis using cm d(6) by simp
  qed
  ultimately have "sim_append_sent b P s' p req"
    using ip(1,2) p unfolding sim_append_sent_def by (auto simp: req)
  then show thesis using that st by (auto simp: s'_def same_node_def)
qed

lemma sim_new_request:
  assumes sim: "sim b P c s" and i: "i \<in> ids P" and st: "raft_step Q s s'" "sim_append_sent b P s' p req" "\<forall>j. same_node j s s'"
  shows "\<exists>s'. raft_steps Q s s' \<and> sim b P (set_node i (cl_node c i) (c\<lparr>cl_appends_sent := (p, k, req) # cl_appends_sent c\<rparr>)) s'"
proof -
  have steps: "raft_steps Q s s'" using st(1) by blast
  have net: "sim_net b P s' (c\<lparr>cl_appends_sent := (p, k, req) # cl_appends_sent c\<rparr>)"
    using sim_net_steps [OF steps simD(7) [OF sim]] st(2) by (simp add: sim_net_def)
  have node: "sim_node b P s' i (cl_node c i)" using sim_node_steps [OF steps _ simD(1) [OF sim i]] st(3) by blast
  show ?thesis by (rule exI [of _ s'], rule conjI [OF steps], rule sim_set_node [OF sim steps _ node net]) (use st(3) in simp_all)
qed

lemma sim_keep_node: "sim b P c s \<Longrightarrow> sim b P (set_node i (cl_node c i) c) s"
  by (simp add: set_node_def)

lemma sim_Replicate:
  assumes sim: "sim b P c s" and inv: "raft_inv (majority_of P) s" and step: "cluster_step hash P (Replicate i peer) c = Some c'"
  shows "\<exists>s'. raft_steps Q s s' \<and> sim b P c' s'"
proof -
  define n where "n = cl_node c i"
  let ?p = "peer_node_id peer"
  have g: "i \<in> ids P" "?p \<in> ids P" "?p \<noteq> i" using step by (auto simp: ids_def split: if_splits)
  note sn = simD(1) [OF sim g(1), folded n_def] note d = sim_nodeD [OF sn]
  show ?thesis
  proof (cases "rn_state n = RaftState_kLeader")
    case True
    obtain v where v: "map_at (rn_next_index n) ?p = (v, rn_next_index n)" "1 \<le> unat v" "unat v \<le> length (log_entries (rn_log n)) + 1"
      by (rule map_at_leader [OF d(8) [OF True] g(2,3)])
    define es where "es = Log_EntriesFrom (rn_log n) v"
    have es: "es = take (length (log_entries (rn_log n))) (drop (unat v - 1) (log_entries (rn_log n)))"
      unfolding es_def Log_EntriesFrom_contiguous [OF node_ok_contiguous [OF d(1)] v(2)] by simp
    define req where "req = \<lparr>ae_term = rn_current_term n, ae_leader_id = i, ae_prev_log_index = v - 1,
      ae_prev_log_term = prev_log_term_at n (v - 1), ae_leader_commit = rn_commit_index n, ae_entries = es\<rparr>"
    have r: "ReplicateToPeer_begin peer n = (Some req, n)"
      using True v(1) d(9) by (simp add: ReplicateToPeer_begin_def req_def es_def Let_def)
    have c': "c' = set_node i n (c\<lparr>cl_appends_sent := (?p, False, req) # cl_appends_sent c\<rparr>)"
      using step r by (simp add: n_def split: if_splits)
    obtain s' where "raft_step Q s s'" "sim_append_sent b P s' ?p req" "\<forall>j. same_node j s s'"
      by (rule sim_send [OF sn True inv g v(2,3) es _ req_def]) simp
    from sim_new_request [OF sim g(1) this] show ?thesis unfolding c' n_def .
  next
    case False
    then have "c' = set_node i n c" using step by (simp add: n_def ReplicateToPeer_begin_def split: if_splits)
    then show ?thesis using sim_keep_node [OF sim, of i] by (intro exI [of _ s]) (simp add: n_def)
  qed
qed

lemma sim_Confirm:
  assumes sim: "sim True P c s" and inv: "raft_inv (majority_of P) s" and step: "cluster_step hash P (Confirm i peer) c = Some c'"
  shows "\<exists>s'. raft_steps Q s s' \<and> sim True P c' s'"
proof -
  define n where "n = cl_node c i"
  let ?p = "peer_node_id peer"
  have g: "i \<in> ids P" "?p \<in> ids P" "?p \<noteq> i" using step by (auto simp: ids_def split: if_splits)
  note sn = simD(1) [OF sim g(1), folded n_def] note d = sim_nodeD [OF sn]
  show ?thesis
  proof (cases "rn_state n = RaftState_kLeader")
    case True
    obtain v where v: "map_at (rn_next_index n) ?p = (v, rn_next_index n)" "1 \<le> unat v" "unat v \<le> length (log_entries (rn_log n)) + 1"
      by (rule map_at_leader [OF d(8) [OF True] g(2,3)])
    define req where "req = \<lparr>ae_term = rn_current_term n, ae_leader_id = i, ae_prev_log_index = v - 1,
      ae_prev_log_term = prev_log_term_at n (v - 1), ae_leader_commit = rn_commit_index n, ae_entries = []\<rparr>"
    have r: "Confirm_request (rn_current_term n) peer n = (Some req, n)"
      using True v(1) d(9) by (simp add: Confirm_request_def req_def Let_def)
    have c': "c' = set_node i n (c\<lparr>cl_appends_sent := (?p, True, req) # cl_appends_sent c\<rparr>)"
      using step r by (simp add: n_def split: if_splits)
    have es: "[] = take 0 (drop (unat v - 1) (log_entries (rn_log n)))" by simp
    obtain s' where "raft_step Q s s'" "sim_append_sent True P s' ?p req" "\<forall>j. same_node j s s'"
      by (rule sim_send [OF sn True inv g v(2,3) es _ req_def]) simp
    from sim_new_request [OF sim g(1) this] show ?thesis unfolding c' n_def .
  next
    case False
    then have "c' = set_node i n c" using step by (simp add: n_def Confirm_request_def split: if_splits)
    then show ?thesis using sim_keep_node [OF sim, of i] by (intro exI [of _ s]) (simp add: n_def)
  qed
qed

section \<open>AppendEntries\<close>

lemma sim_leader_cong:
  assumes "sim_leader P s i n" "rn_match_index n' = rn_match_index n" "rn_next_index n' = rn_next_index n"
    "rn_current_term n' = rn_current_term n" "rn_log n' = rn_log n"
  shows "sim_leader P s i n'"
  using assms by (simp add: sim_leader_def)

lemma sim_node_cong:
  assumes "sim_node b P s i n" "node_ok i P n'" "rn_log n' = rn_log n" "rn_state n' = rn_state n" "rn_current_term n' = rn_current_term n"
    "rn_voted_for n' = rn_voted_for n" "b \<or> rn_commit_index n' = rn_commit_index n" "rn_match_index n' = rn_match_index n"
    "rn_next_index n' = rn_next_index n"
  shows "sim_node b P s i n'"
  using assms sim_leader_cong [of P s i n n'] by (auto simp: sim_node_def)

lemma sim_follow:
  assumes sn: "sim_node b P s i n" and le: "rn_current_term n \<le> ae_term req"
  obtains s' where "raft_steps Q s s'" "sim_node b P s' i (follow req n)" "\<forall>j. j \<noteq> i \<longrightarrow> same_node j s s'"
proof -
  note d = sim_nodeD [OF sn] and ok = node_ok_follow [OF sim_nodeD(1) [OF sn], of req]
  consider "rn_current_term n < ae_term req" | "rn_current_term n = ae_term req" "rn_state n = RaftState_kCandidate"
    | "rn_current_term n = ae_term req" "rn_state n \<noteq> RaftState_kCandidate" using le by fastforce
  then show thesis
  proof cases
    case 1
    note a = sim_adopt [OF sn 1]
    have "sim_node b P (adopted i (unat (ae_term req)) s) i (follow req n)"
      by (rule sim_node_cong [OF a(2) ok]) (use 1 in simp_all)
    then show thesis using that a(1,3) by blast
  next
    case 2
    define s' where "s' = s\<lparr>role := (role s)(i := RaftState_kFollower)\<rparr>"
    have "raft_step Q s s'" unfolding s'_def by (rule raft_step.stepdown) (use d(3) 2 in simp)
    moreover have "sim_node b P s' i (follow req n)" using d ok 2 by (simp add: sim_node_def s'_def)
    moreover have "\<forall>j. j \<noteq> i \<longrightarrow> same_node j s s'" by (simp add: same_node_def s'_def)
    ultimately show thesis using that by blast
  next
    case 3
    have "sim_node b P s i (follow req n)" by (rule sim_node_cong [OF sn ok]) (use 3 in simp_all)
    then show thesis by (intro that [OF rtranclp.rtrancl_refl]) simp_all
  qed
qed

lemma length_merge: "p \<le> length L \<Longrightarrow> length (merge p es L) \<le> max (length L) (p + length es)"
  by (cases rule: merge_cases [of p L es]) auto

lemma sim_receive:
  assumes sn: "sim_node b P s i n" and inv: "raft_inv (majority_of P) s" and m: "(i, abs_append req mc) \<in> msgs s" and ok: "append_ok req"
    and t: "rn_current_term n = ae_term req" "rn_state n \<noteq> RaftState_kCandidate"
    and p: "unat (ae_prev_log_index req) \<le> length (log_entries (rn_log n))"
      "term_at (abs_log (rn_log n)) (unat (ae_prev_log_index req)) = (if ae_prev_log_index req = 0 then 0 else unat (ae_prev_log_term req))"
    and l: "Log_inv log wal" "calm (ww_os wal)" "abs_log log = merge (unat (ae_prev_log_index req)) (map abs_entry (ae_entries req)) (abs_log (rn_log n))"
    and n': "n' = n\<lparr>rn_log := log, rn_storage := st\<lparr>ds_wal := wal\<rparr>\<rparr>"
  obtains s' where "raft_step Q s s'" "sim_node b P s' i n'" "\<forall>j. j \<noteq> i \<longrightarrow> same_node j s s'"
    "acked s' i (unat (ae_term req)) (unat (ae_prev_log_index req) + length (ae_entries req))" "msgs s' = msgs s"
    "unat (ae_prev_log_index req) + length (ae_entries req) \<le> length (log_entries log)"
proof -
  note d = sim_nodeD [OF sn]
  let ?m = "abs_append req mc" and ?K = "unat (ae_prev_log_index req) + length (ae_entries req)"
  define s' where "s' = s\<lparr>elog := (elog s)(i := merge (m_prev ?m) (m_entries ?m) (elog s i)),
      acks := insert (i, m_term ?m, m_prev ?m + length (m_entries ?m)) (acks s)\<rparr>"
  have pre: "m_prev ?m \<le> length (elog s i)" "term_at (elog s i) (m_prev ?m) = m_prev_term ?m" "cterm s i = m_term ?m"
    using p d(4,6) t(1) by (simp_all add: abs_append_def)
  have st: "raft_step Q s s'" unfolding s'_def by (rule raft_step.receive [OF m pre(3) _ pre(1,2)]) (use d(3) t(2) in simp)
  have inv': "vote_inv s" "leader_inv (majority_of P) s" "log_inv s" "msg_inv s" using inv by (simp_all add: raft_inv_def)
  have nl: "rn_state n \<noteq> RaftState_kLeader" using maj.receiver_not_leader [OF inv'(1,2,4) m pre(3)] d(3) by simp
  have el: "elog s' i = abs_log log" using l(3) d(6) by (simp add: s'_def abs_append_def)
  have "take ?K (abs_log log) = take ?K (lead_log s (m_term ?m))"
    using maj.received_agrees [OF inv'(3,4) m pre(1,2)] el by (simp add: s'_def abs_append_def)
  then have K: "?K \<le> length (log_entries log)"
    using take_eq_length [of ?K "abs_log log"] maj.msg_invD(2) [OF inv'(4) m] by (simp add: abs_append_def)
  have "length (log_entries log) + 1 < 2 ^ 64"
    using length_merge [of "unat (ae_prev_log_index req)" "abs_log (rn_log n)" "map abs_entry (ae_entries req)"]
      p(1) d(2) ok l(3) length_abs_log [of log] by (simp add: append_ok_def max_def split: if_splits)
  moreover have "node_ok i P n'" using d(1) l(1,2) by (simp add: node_ok_def n' persisted_def)
  ultimately have "sim_node b P s' i n'" unfolding sim_node_def using d(3-5,7) nl el by (simp add: n' s'_def)
  moreover have "\<forall>j. j \<noteq> i \<longrightarrow> same_node j s s'" by (simp add: same_node_def s'_def)
  moreover have "acked s' i (unat (ae_term req)) ?K" by (auto simp: acked_def s'_def abs_append_def)
  ultimately show thesis using that [OF st] K by (simp add: s'_def)
qed

lemma sim_commit_node:
  assumes "sim_node b P s i n" "b \<or> commit s' i = unat k" "raft_steps Q s s'"
    "role s' i = role s i" "cterm s' i = cterm s i" "vote s' i = vote s i" "elog s' i = elog s i"
  shows "sim_node b P s' i (ApplyCommittedEntriesLocked hash (n\<lparr>rn_commit_index := k\<rparr>))"
proof -
  let ?n' = "ApplyCommittedEntriesLocked hash (n\<lparr>rn_commit_index := k\<rparr>)"
  note d = sim_nodeD [OF assms(1)]
  have ok: "node_ok i P ?n'" using d(1) by (simp add: node_ok_def persisted_def)
  have "rn_state n = RaftState_kLeader \<Longrightarrow> sim_leader P s' i ?n'"
    by (rule sim_leader_cong [OF sim_leader_steps [OF assms(3) d(8)]]) simp_all
  then show ?thesis using ok d assms(2,4-7) by (simp add: sim_node_def)
qed

lemma sim_DeliverAppend:
  assumes sim: "sim b P c s" and inv: "raft_inv (majority_of P) s" and step: "cluster_step hash P (DeliverAppend i k req) c = Some c'"
  shows "\<exists>s'. raft_steps (majority_of P) s s' \<and> sim b P c' s'"
proof -
  let ?Q = "majority_of P" and ?K = "unat (ae_prev_log_index req) + length (ae_entries req)"
  define n where "n = cl_node c i"
  have sent: "(i, k, req) \<in> set (cl_appends_sent c)" using step by (auto split: if_splits)
  note sa = simD(5) [OF sim sent]
  obtain mc where i: "i \<in> ids P" "append_ok req" and mc: "(i, abs_append req mc) \<in> msgs s"
      "b \<or> mc = unat (ae_leader_commit req) \<and> unat (ae_leader_commit req) \<le> ?K"
    using sa by (auto simp: sim_append_sent_def)
  note sn = simD(1) [OF sim i(1), folded n_def] note d = sim_nodeD [OF sn]
  obtain resp n' where r: "HandleAppendEntries hash req n = Some (resp, n')" and
    c': "c' = set_node i n' (c\<lparr>cl_appends_got := (i, k, req, resp) # cl_appends_got c\<rparr>)"
    using step sent by (auto simp: n_def split: option.splits)
  have v: "list_all EntryValid (ae_entries req)" "?K < 2 ^ 64" using i(2) by (simp_all add: append_ok_def)
  have "\<exists>s'. raft_steps ?Q s s' \<and> sim_node b P s' i n' \<and> (\<forall>j. j \<noteq> i \<longrightarrow> same_node j s s') \<and> sim_append_got s' i req resp"
    using d(1) v
  proof (cases rule: HandleAppendEntries_cases [where hash = hash])
    case stale
    then show ?thesis using r sn by (intro exI [of _ s]) (simp add: sim_append_got_def)
  next
    case mismatch
    obtain s' where "raft_steps ?Q s s'" "sim_node b P s' i (follow req n)" "\<forall>j. j \<noteq> i \<longrightarrow> same_node j s s'"
      by (rule sim_follow [OF sn mismatch(1)])
    then show ?thesis using r mismatch(2) by (intro exI [of _ s']) (auto simp: sim_append_got_def)
  next
    case (accepted log wal n1)
    obtain s1 where s1: "raft_steps ?Q s s1" "sim_node b P s1 i (follow req n)" "\<forall>j. j \<noteq> i \<longrightarrow> same_node j s s1"
      by (rule sim_follow [OF sn accepted(1)])
    have m1: "(i, abs_append req mc) \<in> msgs s1" using mc(1) steps_mono [OF s1(1)] by blast
    have f: "rn_current_term (follow req n) = ae_term req" "rn_state (follow req n) \<noteq> RaftState_kCandidate"
      using accepted(1) by auto
    have l: "abs_log log = merge (unat (ae_prev_log_index req)) (map abs_entry (ae_entries req)) (abs_log (rn_log (follow req n)))"
      "unat (ae_prev_log_index req) \<le> length (log_entries (rn_log (follow req n)))"
      "term_at (abs_log (rn_log (follow req n))) (unat (ae_prev_log_index req)) = (if ae_prev_log_index req = 0 then 0 else unat (ae_prev_log_term req))"
      using accepted(2,3,6) by simp_all
    obtain s2 where s2: "raft_step ?Q s1 s2" "sim_node b P s2 i n1" "\<forall>j. j \<noteq> i \<longrightarrow> same_node j s1 s2"
        "acked s2 i (unat (ae_term req)) ?K" "msgs s2 = msgs s1" "?K \<le> length (log_entries log)"
      by (rule sim_receive [where Q = ?Q, OF s1(2) maj.raft_inv_steps [OF s1(1) inv] m1 i(2) f l(2,3) accepted(4,5) l(1) accepted(7)])
    have st2: "raft_steps ?Q s s2" and same2: "\<forall>j. j \<noteq> i \<longrightarrow> same_node j s s2"
      using s1(1,3) s2(1,3) same_node_trans by (auto intro: rtranclp.rtrancl_into_rtrancl)
    have resp: "resp = \<lparr>aer_term = ae_term req, aer_success = True\<rparr>" using r accepted(8) by simp
    show ?thesis
    proof (cases "ae_leader_commit req > rn_commit_index n \<and> \<not> b")
      case False
      have "sim_node b P s2 i n'"
        using r accepted(8) s2(2) False sim_commit_node [OF s2(2), of s2 _ ?Q hash] by (auto split: if_splits)
      then show ?thesis using st2 same2 s2(4) by (intro exI [of _ s2]) (simp add: sim_append_got_def)
    next
      case True
      let ?k = "min (ae_leader_commit req) (Log_LastIndex log)"
      have n': "n' = ApplyCommittedEntriesLocked hash (n1\<lparr>rn_commit_index := ?k\<rparr>)" using r accepted(8) True by simp
      have lc: "mc = unat (ae_leader_commit req)" "unat (ae_leader_commit req) \<le> ?K" using mc(2) True by auto
      have "unat (Log_LastIndex log) = length (log_entries log)"
        using accepted(4) by (intro Log_LastIndex_contiguous) (simp add: Log_inv_def)
      then have k: "unat ?k = min mc ?K" using lc s2(6) by (simp add: min_def word_le_nat_alt)
      define s3 where "s3 = s2\<lparr>commit := (commit s2)(i := min (m_commit (abs_append req mc)) (m_prev (abs_append req mc) + length (m_entries (abs_append req mc))))\<rparr>"
      have "cterm s2 i = unat (ae_term req)" using sim_nodeD(4) [OF s2(2)] f(1) accepted(7) by simp
      then have st3: "raft_step ?Q s2 s3"
        unfolding s3_def by (intro raft_step.learn) (use m1 s2(4,5) in \<open>simp_all add: abs_append_def\<close>)
      then have "sim_node b P s3 i n'"
        unfolding n' by (intro sim_commit_node [OF s2(2), of _ _ ?Q]) (use k in \<open>auto simp: s3_def abs_append_def\<close>)
      moreover have "\<forall>j. j \<noteq> i \<longrightarrow> same_node j s s3" using same2 by (simp add: same_node_def s3_def)
      moreover have "acked s3 i (unat (ae_term req)) ?K" using step_acked [OF st3 s2(4)] .
      ultimately show ?thesis using st2 st3 by (intro exI [of _ s3]) (auto simp: sim_append_got_def)
    qed
  qed
  then obtain s' where s': "raft_steps ?Q s s'" "sim_node b P s' i n'" "\<And>j. j \<noteq> i \<Longrightarrow> same_node j s s'" "sim_append_got s' i req resp" by blast
  have "sim_net b P s' (c\<lparr>cl_appends_got := (i, k, req, resp) # cl_appends_got c\<rparr>)"
    using sim_net_steps [OF s'(1) simD(7) [OF sim]] s'(4) sim_append_sent_steps [OF s'(1) sa] by (simp add: sim_net_def)
  from sim_set_node [OF sim s'(1,3,2) this] s'(1) show ?thesis unfolding c' by auto
qed

section \<open>Replies\<close>

text \<open>The index \<^verbatim>\<open>AdvanceCommitIndexLocked\<close> picks has been acknowledged by a majority.\<close>

lemma sim_leader_majority:
  assumes sl: "sim_leader P s i n" and ok: "node_ok i P n" and P: "peers_ok P" and i: "i \<in> ids P"
    and xs: "xs = Log_LastIndex (rn_log n) # map snd (rn_match_index n)" and k: "k = sort xs ! (length xs - (length xs div 2 + 1))" "k \<noteq> 0"
  obtains S where "majority_of P S" "\<forall>v \<in> S. acked s v (unat (rn_current_term n)) (unat k)"
proof -
  let ?m = "rn_match_index n" and ?t = "unat (rn_current_term n)"
  have d: "distinct (map fst ?m)" "fst ` set ?m = ids P - {i}" using sl by (auto simp: sim_leader_def)
  let ?R = "filter (\<lambda>x. k \<le> snd x) ?m"
  define S where "S = (if k \<le> Log_LastIndex (rn_log n) then {i} else {}) \<union> fst ` set ?R"
  have R: "distinct (map fst ?R)" using d(1) by (simp add: distinct_map_filter)
  have iR: "i \<notin> fst ` set ?R" using d(2) by auto
  have "card (fst ` set ?R) = length ?R" using distinct_card [OF R] by simp
  then have card: "card S = length (filter (\<lambda>x. k \<le> x) xs)"
    using iR by (simp add: S_def xs filter_map comp_def)
  have "card (ids P) = length P" using P distinct_card [of "map peer_node_id P"] by (simp add: peers_ok_def ids_def)
  moreover have "length ?m = card (ids P - {i})" using distinct_card [OF d(1)] d(2) by simp
  ultimately have "length xs = length P" using i card_gt_0_iff [of "ids P"] by (auto simp: xs card_Diff_singleton)
  then have "length P div 2 + 1 \<le> card S" using majority_index [of xs] by (simp add: card k(1) xs)
  moreover have "S \<subseteq> ids P" using i d(2) by (auto simp: S_def)
  moreover have "acked s v ?t (unat k)" if v: "v \<in> S" for v
  proof (cases "v = i \<and> k \<le> Log_LastIndex (rn_log n)")
    case True
    then have "unat k \<le> length (log_entries (rn_log n))"
      using Log_LastIndex_contiguous [OF node_ok_contiguous [OF ok]] by (simp add: word_le_nat_alt)
    then show ?thesis using sl True by (auto simp: sim_leader_def acked_def intro: le_trans)
  next
    case False
    then obtain x where x: "(v, x) \<in> set ?m" "k \<le> x" using v by (auto simp: S_def split: if_splits)
    moreover have "x \<noteq> 0" using x(2) k(2) by auto
    ultimately have "acked s v ?t (unat x)" using sl by (auto simp: sim_leader_def)
    then show ?thesis using x(2) by (auto simp: acked_def word_le_nat_alt intro: le_trans)
  qed
  ultimately show thesis using that [of S] by (auto simp: majority_of_def)
qed

lemma sim_advance:
  assumes sn: "sim_node b P s i n" and P: "peers_ok P" and i: "i \<in> ids P" and l: "rn_state n = RaftState_kLeader"
  shows "\<exists>s'. raft_steps (majority_of P) s s' \<and> sim_node b P s' i (AdvanceCommitIndexLocked hash n) \<and> (\<forall>j. j \<noteq> i \<longrightarrow> same_node j s s')"
proof -
  let ?Q = "majority_of P"
  note d = sim_nodeD [OF sn]
  define xs where "xs = Log_LastIndex (rn_log n) # map snd (rn_match_index n)"
  define k where "k = sort xs ! (length xs - (length xs div 2 + 1))"
  note A = AdvanceCommitIndexLocked_def [of hash n, unfolded Let_def, folded xs_def, unfolded length_sort, folded k_def]
  show ?thesis
  proof (cases "k \<le> rn_commit_index n \<or> Log_Get (rn_log n) k = None \<or> e_term (the (Log_Get (rn_log n) k)) \<noteq> rn_current_term n")
    case True
    then have "AdvanceCommitIndexLocked hash n = n" unfolding A by (auto split: option.split)
    then show ?thesis using sn by (intro exI [of _ s]) simp
  next
    case False
    then obtain e where e: "rn_commit_index n < k" "Log_Get (rn_log n) k = Some e" "e_term e = rn_current_term n" by auto
    have n': "AdvanceCommitIndexLocked hash n = ApplyCommittedEntriesLocked hash (n\<lparr>rn_commit_index := k\<rparr>)"
      unfolding A using e by simp
    have k0: "k \<noteq> 0" using e(1) by auto
    have g: "0 < unat k" "unat k \<le> length (log_entries (rn_log n))" "e = log_entries (rn_log n) ! (unat k - 1)"
      using e(2) Log_Get_contiguous [OF node_ok_contiguous [OF d(1)], of k] by (auto split: if_splits)
    obtain S where S: "?Q S" "\<forall>v \<in> S. acked s v (unat (rn_current_term n)) (unat k)"
      by (rule sim_leader_majority [OF d(8) [OF l] d(1) P i xs_def k_def k0])
    define s' where "s' = s\<lparr>commit := (commit s)(i := unat k)\<rparr>"
    have st: "raft_steps ?Q s s'"
      unfolding s'_def by (rule r_into_rtranclp, rule raft_step.advance) (use l d(3,4,6) g e(3) S in simp_all)
    have "sim_node b P s' i (AdvanceCommitIndexLocked hash n)"
      unfolding n' by (rule sim_commit_node [OF sn _ st]) (simp_all add: s'_def)
    then show ?thesis using st by (intro exI [of _ s']) (simp add: same_node_def s'_def)
  qed
qed

lemma sim_leader_next:
  assumes "sim_leader P s i n" "rn_match_index n' = rn_match_index n" "rn_current_term n' = rn_current_term n" "rn_log n' = rn_log n"
    "rn_next_index n' = AList.update p v (rn_next_index n)" "1 \<le> unat v" "unat v \<le> length (log_entries (rn_log n)) + 1"
  shows "sim_leader P s i n'"
proof -
  have "\<exists>w. map_of (rn_next_index n') q = Some w \<and> 1 \<le> unat w \<and> unat w \<le> length (log_entries (rn_log n)) + 1" if "q \<in> ids P - {i}" for q
    using assms(1,5-7) that by (cases "q = p") (auto simp: sim_leader_def AList.update_conv')
  then show ?thesis using assms(1-4) by (simp add: sim_leader_def)
qed

lemma sim_leader_match:
  assumes "sim_leader P s i n" "rn_next_index n' = rn_next_index n" "rn_current_term n' = rn_current_term n" "rn_log n' = rn_log n"
    "rn_match_index n' = AList.update p v (rn_match_index n)" "p \<in> ids P - {i}" "acked s p (unat (rn_current_term n)) (unat v)"
  shows "sim_leader P s i n'"
proof -
  let ?m = "rn_match_index n" and ?m' = "rn_match_index n'"
  have d: "distinct (map fst ?m)" "fst ` set ?m = ids P - {i}" using assms(1) by (auto simp: sim_leader_def)
  have d': "distinct (map fst ?m')" unfolding assms(5) by (rule AList.distinct_update [OF d(1)])
  have "fst ` set ?m' = ids P - {i}" unfolding assms(5) AList.dom_update d(2) using assms(6) by auto
  moreover have "w = 0 \<or> acked s q (unat (rn_current_term n)) (unat w)" if "(q, w) \<in> set ?m'" for q w
  proof -
    have "map_of ?m' q = Some w" using d' that by simp
    then show ?thesis
      using assms(1,5,7) by (cases "q = p") (auto simp: AList.update_conv' sim_leader_def dest: map_of_SomeD)
  qed
  ultimately show ?thesis using assms(1-4) d' by (simp add: sim_leader_def)
qed

lemma sim_AppendReply:
  assumes sim: "sim b P c s" and inv: "raft_inv (majority_of P) s" and P: "peers_ok P"
    and step: "cluster_step hash P (AppendReply peer req resp) c = Some c'"
  shows "\<exists>s'. raft_steps (majority_of P) s s' \<and> sim b P c' s'"
proof -
  let ?p = "peer_node_id peer" and ?i = "ae_leader_id req" and ?K = "unat (ae_prev_log_index req) + length (ae_entries req)"
  define n where "n = cl_node c ?i"
  define n' where "n' = ReplicateToPeer_finish hash peer req resp n"
  have got: "(?p, False, req, resp) \<in> set (cl_appends_got c)" and c': "c' = set_node ?i n' c"
    using step by (auto simp: n_def n'_def split: if_splits)
  note sa = conjunct1 [OF simD(6) [OF sim got]] and sg = conjunct2 [OF simD(6) [OF sim got]]
  obtain mc where i: "?i \<in> ids P" "?p \<in> ids P" "append_ok req" and m: "(?p, abs_append req mc) \<in> msgs s"
    using sa by (auto simp: sim_append_sent_def)
  note sn = simD(1) [OF sim i(1), folded n_def] note d = sim_nodeD [OF sn]
  have ex: "\<exists>s'. raft_steps (majority_of P) s s' \<and> sim_node b P s' ?i n' \<and> (\<forall>j. j \<noteq> ?i \<longrightarrow> same_node j s s')"
  proof (cases "rn_state n \<noteq> RaftState_kLeader \<or> rn_current_term n \<noteq> ae_term req \<or> aer_term resp > rn_current_term n")
    case True
    then have "n' = n \<or> (\<exists>t. rn_current_term n < t \<and> n' = BecomeFollowerLocked t n)" by (auto simp: n'_def ReplicateToPeer_finish_def)
    then show ?thesis by (rule sim_keep_or_adopt [OF sn])
  next
    case False
    then have l: "rn_state n = RaftState_kLeader" "rn_current_term n = ae_term req" "\<not> aer_term resp > rn_current_term n" by auto
    have inv': "vote_inv s" "leader_inv (majority_of P) s" "log_inv s" "msg_inv s" using inv by (simp_all add: raft_inv_def)
    have me: "(unat (ae_term req), ?i) \<in> leaders s" "elog s ?i = lead_log s (unat (ae_term req))"
      using maj.leader_invD(5) [OF inv'(2), of ?i] maj.log_invD(5) [OF inv'(3), of ?i] d(3,4) l by simp_all
    have p: "?p \<in> ids P - {?i}"
      using maj.msg_invD(1) [OF inv'(4) m] maj.leader_unique [OF inv'(1,2) me(1)] i(2) by (auto simp: abs_append_def)
    have K: "?K \<le> length (log_entries (rn_log n))"
      using maj.msg_invD(2) [OF inv'(4) m] me(2) d(6) length_abs_log [of "rn_log n"] by (simp add: abs_append_def)
    show ?thesis
    proof (cases "aer_success resp")
      case True
      define n1 where "n1 = (snd (steady_clock_now n))\<lparr>rn_last_ack_time := AList.update ?p (fst (steady_clock_now n)) (rn_last_ack_time n)\<rparr>"
      define n2 where "n2 = (if ae_entries req \<noteq> [] then
          n1\<lparr>rn_match_index := AList.update ?p (e_index (last (ae_entries req))) (rn_match_index n1),
             rn_next_index := AList.update ?p (e_index (last (ae_entries req)) + 1) (rn_next_index n1)\<rparr> else n1)"
      have n': "n' = AdvanceCommitIndexLocked hash n2"
        unfolding n'_def n2_def n1_def ReplicateToPeer_finish_def using l True by (simp add: Let_def split_beta)
      have sn1: "sim_node b P s ?i n1"
        by (rule sim_node_cong [OF sn]) (use d(1) in \<open>simp_all add: n1_def node_ok_def persisted_def\<close>)
      have n1f: "rn_match_index n1 = rn_match_index n" "rn_next_index n1 = rn_next_index n" "rn_state n1 = rn_state n"
        "rn_current_term n1 = rn_current_term n" "rn_log n1 = rn_log n" by (simp_all add: n1_def)
      have "sim_node b P s ?i n2 \<and> rn_state n2 = RaftState_kLeader"
      proof (cases "ae_entries req = []")
        case False
        have last: "unat (e_index (last (ae_entries req))) = ?K" using i(3) False by (simp add: append_ok_def last_conv_nth)
        then have last1: "unat (e_index (last (ae_entries req)) + 1) = ?K + 1" using K d(2) by (simp add: unat_word_ariths)
        have a: "acked s ?p (unat (rn_current_term n1)) (unat (e_index (last (ae_entries req))))"
          using sg True last l(2) n1f(4) by (simp add: sim_append_got_def)
        have s1: "sim_leader P s ?i n1" using sim_nodeD(8) [OF sn1] l(1) n1f(3) by simp
        have "sim_leader P s ?i (n1\<lparr>rn_match_index := AList.update ?p (e_index (last (ae_entries req))) (rn_match_index n1)\<rparr>)"
          by (rule sim_leader_match [OF s1 _ _ _ _ p a]) simp_all
        then have "sim_leader P s ?i n2"
          by (rule sim_leader_next [where p = ?p and v = "e_index (last (ae_entries req)) + 1"])
            (use False last1 K n1f in \<open>simp_all add: n2_def\<close>)
        then show ?thesis
          using sim_nodeD [OF sn1] l(1) n1f(3) False unfolding sim_node_def by (simp add: n2_def node_ok_def persisted_def)
      qed (use sn1 l(1) n1f(3) in \<open>simp add: n2_def\<close>)
      then show ?thesis unfolding n' using sim_advance [OF _ P i(1)] by blast
    next
      case False
      obtain v where v: "map_at (rn_next_index n) ?p = (v, rn_next_index n)" "1 \<le> unat v" "unat v \<le> length (log_entries (rn_log n)) + 1"
        using map_at_leader [OF d(8) [OF l(1)]] p by blast
      have n': "n' = (if v > 1 then n\<lparr>rn_next_index := AList.update ?p (v - 1) (rn_next_index n)\<rparr> else n)"
        unfolding n'_def ReplicateToPeer_finish_def using l False v(1) by simp
      have "sim_node b P s ?i n'"
      proof (cases "v > 1")
        case True
        have "v \<noteq> 0" using True by auto
        then have "unat (v - 1) = unat v - 1" by (simp add: unat_minus_one)
        then have "1 \<le> unat (v - 1)" "unat (v - 1) \<le> length (log_entries (rn_log n)) + 1" using True v(3) by (simp_all add: word_less_nat_alt)
        then have "sim_leader P s ?i n'"
          by (intro sim_leader_next [OF d(8) [OF l(1)], where p = ?p and v = "v - 1"]) (use True in \<open>simp_all add: n'\<close>)
        then show ?thesis using d l(1) True unfolding sim_node_def by (simp add: n' node_ok_def persisted_def)
      qed (use sn in \<open>simp add: n'\<close>)
      then show ?thesis by (intro exI [of _ s]) simp
    qed
  qed
  show ?thesis unfolding c' by (rule sim_unchanged_net [OF sim _ refl ex])
qed

lemma sim_ConfirmReply:
  assumes sim: "sim b P c s" and step: "cluster_step hash P (ConfirmReply peer req resp) c = Some c'"
  shows "\<exists>s'. raft_steps Q s s' \<and> sim b P c' s'"
proof -
  let ?i = "ae_leader_id req"
  define n where "n = cl_node c ?i"
  define n' where "n' = snd (Confirm_reply (ae_term req) peer resp 0 n)"
  have got: "(peer_node_id peer, True, req, resp) \<in> set (cl_appends_got c)" and c': "c' = set_node ?i n' c"
    using step by (auto simp: n_def n'_def split: if_splits)
  have i: "?i \<in> ids P" using simD(6) [OF sim got] by (auto simp: sim_append_sent_def)
  note sn = simD(1) [OF sim i, folded n_def] note d = sim_nodeD [OF sn]
  have ex: "\<exists>s'. raft_steps Q s s' \<and> sim_node b P s' ?i n' \<and> (\<forall>j. j \<noteq> ?i \<longrightarrow> same_node j s s')"
  proof (cases "aer_term resp > rn_current_term n \<or> rn_state n \<noteq> RaftState_kLeader \<or> rn_current_term n \<noteq> ae_term req \<or> \<not> aer_success resp")
    case True
    then have "n' = n \<or> (\<exists>t. rn_current_term n < t \<and> n' = BecomeFollowerLocked t n)" by (auto simp: n'_def Confirm_reply_def)
    then show ?thesis by (rule sim_keep_or_adopt [OF sn])
  next
    case False
    then have n': "n' = (snd (steady_clock_now n))\<lparr>rn_last_ack_time := AList.update (peer_node_id peer) (fst (steady_clock_now n)) (rn_last_ack_time n)\<rparr>"
      by (simp add: n'_def Confirm_reply_def split_beta Let_def)
    have "sim_node b P s ?i n'" by (rule sim_node_cong [OF sn]) (use d(1) in \<open>simp_all add: n' node_ok_def persisted_def\<close>)
    then show ?thesis by (intro exI [of _ s]) simp
  qed
  show ?thesis unfolding c' by (rule sim_unchanged_net [OF sim _ refl ex])
qed

section \<open>Restart, start, and all actions\<close>

lemma sim_Restart:
  assumes sim: "sim b P c s" and step: "cluster_step hash P (Restart i os os' clock rng) c = Some c'"
  shows "\<exists>s'. raft_steps Q s s' \<and> sim b P c' s'"
proof -
  define n where "n = cl_node c i"
  define n' where "n' = RaftNode_new i (rn_config n) (DurableStorage_new hash (ds_data_dir (rn_storage n)) (ww_disk (ds_wal (rn_storage n))) os)
      (rn_state_disk n) os' clock rng"
  have g: "i \<in> ids P" "calm os" "calm os'" and c': "c' = set_node i n' (set_election i None c)"
    using step by (auto simp: n_def n'_def Let_def split: if_splits)
  note sn = simD(1) [OF sim g(1), folded n_def] note d = sim_nodeD [OF sn]
  note r = restart_node [OF d(1) g(2,3) d(10) n'_def]
  define s' where "s' = s\<lparr>role := (role s)(i := RaftState_kFollower), commit := (commit s)(i := 0)\<rparr>"
  have st: "raft_steps Q s s'" unfolding s'_def by (rule r_into_rtranclp, rule raft_step.restart)
  have "sim_node b P s' i n'" using d r by (simp add: sim_node_def s'_def)
  moreover have "\<forall>j. j \<noteq> i \<longrightarrow> same_node j s s'" by (simp add: same_node_def s'_def)
  ultimately have ex: "\<exists>s'. raft_steps Q s s' \<and> sim_node b P s' i n' \<and> (\<forall>j. j \<noteq> i \<longrightarrow> same_node j s s')" using st by blast
  show ?thesis
    unfolding c'
  proof (rule sim_unchanged_net [OF sim _ _ ex])
    show "sim_net b P s' c \<Longrightarrow> sim_net b P s' (set_election i None c)" for s' by (rule sim_net_election) simp_all
  qed (simp add: set_election_def)
qed

lemma sim_step:
  assumes "sim b P c s" "raft_inv (majority_of P) s" "peers_ok P" "b \<or> \<not> is_confirm a" "cluster_step hash P a c = Some c'"
  shows "\<exists>s'. raft_steps (majority_of P) s s' \<and> sim b P c' s'"
proof (cases a)
  case (ElectionTimeout i)
  show ?thesis by (rule sim_ElectionTimeout [OF assms(1,3) assms(5) [unfolded ElectionTimeout]])
next
  case (DeliverVote i req)
  show ?thesis by (rule sim_DeliverVote [OF assms(1,3) assms(5) [unfolded DeliverVote]])
next
  case (VoteReply i resp)
  show ?thesis by (rule sim_VoteReply [OF assms(1) assms(5) [unfolded VoteReply]])
next
  case (VoteLost i)
  show ?thesis by (rule sim_VoteLost [OF assms(1) assms(5) [unfolded VoteLost]])
next
  case (ElectionEnd i)
  show ?thesis by (rule sim_ElectionEnd [OF assms(1) assms(5) [unfolded ElectionEnd]])
next
  case (ProposeEntry i e)
  show ?thesis by (rule sim_ProposeEntry [OF assms(1) assms(5) [unfolded ProposeEntry]])
next
  case (Replicate i peer)
  show ?thesis by (rule sim_Replicate [OF assms(1,2) assms(5) [unfolded Replicate]])
next
  case (Confirm i peer)
  then have b: "b = True" using assms(4) by (simp add: is_confirm_def)
  show ?thesis unfolding b by (rule sim_Confirm [OF assms(1) [unfolded b] assms(2) assms(5) [unfolded Confirm]])
next
  case (DeliverAppend i k req)
  show ?thesis by (rule sim_DeliverAppend [OF assms(1,2) assms(5) [unfolded DeliverAppend]])
next
  case (AppendReply peer req resp)
  show ?thesis by (rule sim_AppendReply [OF assms(1-3) assms(5) [unfolded AppendReply]])
next
  case (ConfirmReply peer req resp)
  show ?thesis by (rule sim_ConfirmReply [OF assms(1) assms(5) [unfolded ConfirmReply]])
next
  case (Restart i os os' clock rng)
  show ?thesis by (rule sim_Restart [OF assms(1) assms(5) [unfolded Restart]])
qed

lemma raft_log_empty: "Log_inv \<lparr>log_entries = []\<rparr> (WalWriter_fresh [] [])"
  by (simp add: Log_inv_def wal_in_step_def WalWriter_fresh_def)

lemma sim_start:
  assumes "cluster_init hash P c"
  shows "sim b P c raft_init"
proof -
  have "sim_node b P raft_init i (cl_node c i)" if i: "i \<in> ids P" for i
  proof -
    obtain config dir os os' clock rng where h: "cfg_peers config = P" "calm os" "calm os'"
      "cl_node c i = RaftNode_new i config (DurableStorage_new hash dir [] os) None os' clock rng"
      using assms i unfolding cluster_init_def by blast
    define n where "n = \<lparr>rn_local_node_id = i, rn_config = config,
            rn_storage = \<lparr>ds_data_dir = dir, ds_kv = ShardedKV_init, ds_wal = WalWriter_fresh [] [], ds_last_applied_index = 0, ds_recovery_status = Status_Ok\<rparr>,
            rn_log = \<lparr>log_entries = []\<rparr>, rn_open_status = Status_Ok, rn_state = RaftState_kFollower,
            rn_current_term = 0, rn_voted_for = 0, rn_leader_id = 0, rn_commit_index = 0,
            rn_election_deadline = 0, rn_next_heartbeat = 0, rn_next_index = [], rn_match_index = [],
            rn_last_ack_time = [], rn_started = False, rn_stop = False,
            rn_state_file = None, rn_state_disk = None, rn_os = [], rn_clock = [], rn_rng = []\<rparr>"
    have ok: "node_ok i P n" using h(1) raft_log_empty by (simp add: n_def node_ok_def persisted_def WalWriter_fresh_def)
    have "cl_node c i = RaftNode_new i config (DurableStorage_new hash dir (ww_disk (ds_wal (rn_storage n))) os) (rn_state_disk n) os' clock rng"
      using h(4) by (simp add: n_def WalWriter_fresh_def)
    note r = restart_node [OF ok h(2,3,1) this]
    show ?thesis using r by (simp add: sim_node_def raft_init_def n_def abs_log_def)
  qed
  moreover have "sim_net b P raft_init c" using assms by (simp add: sim_net_def cluster_init_def)
  ultimately show ?thesis by (simp add: sim_def)
qed

lemma cluster_reach_sim:
  assumes "cluster_reach hash P b c" "peers_ok P"
  shows "\<exists>s. raft_reach (majority_of P) s \<and> sim b P c s"
  using assms(1)
proof induction
  case (start c)
  then show ?case using sim_start raft_reach.init by blast
next
  case (act c a c')
  then obtain s where s: "raft_reach (majority_of P) s" "sim b P c s" by blast
  obtain s' where s': "raft_steps (majority_of P) s s'" "sim b P c' s'"
    using sim_step [OF s(2) maj.reach_inv [OF s(1)] assms(2) act.hyps(2,3)] by blast
  have "raft_reach (majority_of P) s'" using s'(1) s(1) by (induction rule: rtranclp_induct) (auto intro: raft_reach.step)
  then show ?case using s'(2) by blast
qed

end
