(* ===== verification/Raft_Scenario.thy ===== *)
theory Raft_Scenario
  imports Raft_Cluster Raft_Node_Facts
begin

text \<open>
  One execution of a cluster of three nodes, step by step. Node 1 wins term 1 and appends an entry that reaches nobody. Node 2 wins
  term 2 with the vote of node 3, appends another entry at the same index, replicates it to node 3 and commits it.
  The execution shows that the hypotheses of the safety theorems can hold; its continuation with a read-confirmation
  round shows that committed entries can differ.
\<close>

section \<open>Nodes with the system calls succeeding at once\<close>

definition peer1 :: PeerInfo where "peer1 = \<lparr>peer_node_id = 1, peer_host = ''a'', peer_port = 7001\<rparr>"
definition peer2 :: PeerInfo where "peer2 = \<lparr>peer_node_id = 2, peer_host = ''b'', peer_port = 7002\<rparr>"
definition peer3 :: PeerInfo where "peer3 = \<lparr>peer_node_id = 3, peer_host = ''c'', peer_port = 7003\<rparr>"

definition three :: "PeerInfo list" where "three = [peer1, peer2, peer3]"

definition wal_of :: "LogEntry list \<Rightarrow> WalWriter" where
  "wal_of es = \<lparr>ww_open_status = Status_Ok, ww_last_index = of_nat (length es), ww_synced_index = of_nat (length es),
     ww_flush_in_progress = False, ww_fsync_count = of_nat (length es), ww_file = WalLog (map record_of_entry es),
     ww_disk = WalLog (map record_of_entry es), ww_os = []\<rparr>"

definition state_file_of :: "u64 \<Rightarrow> u32 \<Rightarrow> bytes option" where
  "state_file_of t v = (if t = 0 then None else Some (state_bytes t v))"

definition nd ::
  "u32 \<Rightarrow> RaftState \<Rightarrow> u64 \<Rightarrow> u32 \<Rightarrow> u32 \<Rightarrow> u64 \<Rightarrow> LogEntry list \<Rightarrow> ShardedKV \<Rightarrow> u64
   \<Rightarrow> (u32 \<times> u64) list \<Rightarrow> (u32 \<times> u64) list \<Rightarrow> (u32 \<times> int) list \<Rightarrow> RaftNode" where
  "nd i st t v ld cm es kv ap ni mi la =
     \<lparr>rn_local_node_id = i, rn_config = \<lparr>cfg_local_node_id = i, cfg_leader_node_id = 0, cfg_peers = three\<rparr>,
      rn_storage = \<lparr>ds_data_dir = ''d'', ds_kv = kv, ds_wal = wal_of es, ds_last_applied_index = ap, ds_recovery_status = Status_Ok\<rparr>,
      rn_log = \<lparr>log_entries = es\<rparr>, rn_open_status = Status_Ok, rn_state = st, rn_current_term = t, rn_voted_for = v,
      rn_leader_id = ld, rn_commit_index = cm, rn_election_deadline = 250, rn_next_heartbeat = 0, rn_next_index = ni,
      rn_match_index = mi, rn_last_ack_time = la, rn_started = False, rn_stop = False,
      rn_state_file = state_file_of t v, rn_state_disk = state_file_of t v, rn_os = [], rn_clock = [], rn_rng = []\<rparr>"

lemma WalScan_empty: "WalScan body a \<lparr>fd_rest = [], fd_os = []\<rparr> = (Status_Ok, a, \<lparr>fd_rest = [], fd_os = []\<rparr>)"
proof -
  have "ReadSome \<lparr>fd_rest = [], fd_os = []\<rparr> k = ([], \<lparr>fd_rest = [], fd_os = []\<rparr>)" for k
    by (subst ReadSome_def, subst ReadSome_loop.simps) (simp add: sys_read_def)
  then have "ReadNextWalRecord \<lparr>fd_rest = [], fd_os = []\<rparr> = (Status_Ok, None, \<lparr>fd_rest = [], fd_os = []\<rparr>)"
    by (simp add: ReadNextWalRecord_def Let_def kFixedHeaderSize_def)
  then show ?thesis by (simp add: WalScan.simps [of _ _ "\<lparr>fd_rest = [], fd_os = []\<rparr>"])
qed

lemma sys_call_Nil [simp]: "sys_call [] = (None, [])"
  by (simp add: sys_call_def)

lemma storage_init:
  "DurableStorage_new hash ''d'' [] []
     = \<lparr>ds_data_dir = ''d'', ds_kv = ShardedKV_init, ds_wal = wal_of [], ds_last_applied_index = 0, ds_recovery_status = Status_Ok\<rparr>"
proof -
  have "\<exists>dirs. MakeDirectoryRecursive ''d/wal'' [] = (Status_Ok, dirs, [])"
    by (simp add: MakeDirectoryRecursive_def MakeDirectory_loop.simps find_slash_def)
  then show ?thesis
    by (auto simp: DurableStorage_new_def WalWriter_new_def WalWriter_OpenOrCreate_def WalWriter_fresh_def RecoverFromWal_def
        Let_def WalScan_empty wal_of_def)
qed

lemma nd_init:
  "RaftNode_new i \<lparr>cfg_local_node_id = i, cfg_leader_node_id = 0, cfg_peers = three\<rparr> (DurableStorage_new hash ''d'' [] []) None [] [] []
     = nd i RaftState_kFollower 0 0 0 0 [] ShardedKV_init 0 [] [] []"
  by (simp add: RaftNode_new_def LoadPersistedState_def Let_def storage_init Log_Load_def wal_of_def WalScan_empty nd_def
      state_file_of_def ResetElectionDeadlineLocked_def steady_clock_now_def RandomElectionTimeout_def kElectionTimeoutMin_def)

section \<open>The critical sections on such nodes\<close>

lemma write_loop_calm:
  assumes "bs \<noteq> []"
  shows "write_loop what \<lparr>wf_data = d, wf_os = []\<rparr> bs 0 = (Status_Ok, \<lparr>wf_data = d @ bs, wf_os = []\<rparr>)"
  using assms by (subst write_loop.simps, simp add: sys_write_def, subst write_loop.simps, simp)

lemma Persist_exec:
  assumes "rn_os n = []"
  shows "PersistStateLocked n = n\<lparr>rn_os := [], rn_state_file := Some (state_bytes (rn_current_term n) (rn_voted_for n)),
      rn_state_disk := Some (state_bytes (rn_current_term n) (rn_voted_for n))\<rparr>"
proof -
  have "state_bytes (rn_current_term n) (rn_voted_for n) \<noteq> []" by (simp add: state_bytes_def WriteU32BE_def)
  then show ?thesis
    using assms by (simp add: PersistStateLocked_def Let_def state_bytes_def [symmetric] write_loop_calm)
qed

lemma Reset_exec: "rn_clock n = [] \<Longrightarrow> rn_rng n = [] \<Longrightarrow> ResetElectionDeadlineLocked n = n\<lparr>rn_election_deadline := 250\<rparr>"
  by (simp add: ResetElectionDeadlineLocked_def steady_clock_now_def RandomElectionTimeout_def kElectionTimeoutMin_def)

lemma append_exec:
  "Log_Append \<lparr>log_entries = []\<rparr> (wal_of []) e = Some (Status_Ok, e\<lparr>e_index := 1\<rparr>, \<lparr>log_entries = [e\<lparr>e_index := 1\<rparr>]\<rparr>, wal_of [e\<lparr>e_index := 1\<rparr>])"
proof -
  have "EncodeWalRecord r [] \<noteq> []" for r by (simp add: EncodeWalRecord_def Let_def WriteU32BE_def)
  then show ?thesis
    by (simp add: Log_Append_def Let_def WalWriter_Append_def WalWriter_write_def WriteAll_def write_loop_calm wal_of_def WalWriter_Sync_def
        Sync_enter_def Sync_flush_def Sync_lead_def WalWriter_FsyncNow_def record_of_entry_def WalLog_def)
qed

lemmas nd_exec = nd_def Persist_exec Reset_exec state_file_of_def

section \<open>The execution\<close>

definition entry_x :: LogEntry where "entry_x = \<lparr>e_term = 1, e_index = 1, e_op = WalOp_kSet, e_key = [107], e_value = [120]\<rparr>"
definition entry_y :: LogEntry where "entry_y = \<lparr>e_term = 2, e_index = 1, e_op = WalOp_kSet, e_key = [107], e_value = [121]\<rparr>"

definition store_of :: "(bytes \<Rightarrow> u64) \<Rightarrow> LogEntry \<Rightarrow> ShardedKV" where
  "store_of hash e = apply_record (ShardedKV_Set hash) (ShardedKV_Delete hash) ShardedKV_init (record_of_entry e)"

definition cl ::
  "RaftNode \<Rightarrow> RaftNode \<Rightarrow> RaftNode \<Rightarrow> (RequestVoteRequest \<times> PeerInfo list \<times> nat) option \<Rightarrow> (RequestVoteRequest \<times> PeerInfo list \<times> nat) option
   \<Rightarrow> RequestVoteRequest list \<Rightarrow> (u32 \<times> RequestVoteRequest \<times> RequestVoteResponse) list
   \<Rightarrow> (u32 \<times> bool \<times> AppendEntriesRequest) list \<Rightarrow> (u32 \<times> bool \<times> AppendEntriesRequest \<times> AppendEntriesResponse) list \<Rightarrow> Cluster" where
  "cl n1 n2 n3 e1 e2 vs vg as ag =
     \<lparr>cl_node = (\<lambda>i. if i = 1 then n1 else if i = 2 then n2 else if i = 3 then n3 else nd 0 RaftState_kFollower 0 0 0 0 [] ShardedKV_init 0 [] [] []),
      cl_election = (\<lambda>i. if i = 1 then e1 else if i = 2 then e2 else None),
      cl_votes_sent = vs, cl_votes_got = vg, cl_appends_sent = as, cl_appends_got = ag\<rparr>"

lemma cl_simps [simp]:
  "cl_node (cl n1 n2 n3 e1 e2 vs vg as ag) 1 = n1" "cl_node (cl n1 n2 n3 e1 e2 vs vg as ag) 2 = n2"
  "cl_node (cl n1 n2 n3 e1 e2 vs vg as ag) 3 = n3" "cl_election (cl n1 n2 n3 e1 e2 vs vg as ag) 1 = e1"
  "cl_election (cl n1 n2 n3 e1 e2 vs vg as ag) 2 = e2" "cl_votes_sent (cl n1 n2 n3 e1 e2 vs vg as ag) = vs"
  "cl_votes_got (cl n1 n2 n3 e1 e2 vs vg as ag) = vg" "cl_appends_sent (cl n1 n2 n3 e1 e2 vs vg as ag) = as"
  "cl_appends_got (cl n1 n2 n3 e1 e2 vs vg as ag) = ag"
  "set_node 1 m (cl n1 n2 n3 e1 e2 vs vg as ag) = cl m n2 n3 e1 e2 vs vg as ag"
  "set_node 2 m (cl n1 n2 n3 e1 e2 vs vg as ag) = cl n1 m n3 e1 e2 vs vg as ag"
  "set_node 3 m (cl n1 n2 n3 e1 e2 vs vg as ag) = cl n1 n2 m e1 e2 vs vg as ag"
  "set_election 1 e (cl n1 n2 n3 e1 e2 vs vg as ag) = cl n1 n2 n3 e e2 vs vg as ag"
  "set_election 2 e (cl n1 n2 n3 e1 e2 vs vg as ag) = cl n1 n2 n3 e1 e vs vg as ag"
  "cl n1 n2 n3 e1 e2 vs vg as ag\<lparr>cl_votes_sent := vs'\<rparr> = cl n1 n2 n3 e1 e2 vs' vg as ag"
  "cl n1 n2 n3 e1 e2 vs vg as ag\<lparr>cl_votes_got := vg'\<rparr> = cl n1 n2 n3 e1 e2 vs vg' as ag"
  "cl n1 n2 n3 e1 e2 vs vg as ag\<lparr>cl_appends_sent := as'\<rparr> = cl n1 n2 n3 e1 e2 vs vg as' ag"
  "cl n1 n2 n3 e1 e2 vs vg as ag\<lparr>cl_appends_got := ag'\<rparr> = cl n1 n2 n3 e1 e2 vs vg as ag'"
  by (auto simp: cl_def set_node_def set_election_def fun_eq_iff)

lemma three_ids: "ids three = {1, 2, 3}"
  by (auto simp: ids_def three_def peer1_def peer2_def peer3_def)

lemma peer_in_three: "peer1 \<in> set three" "peer2 \<in> set three" "peer3 \<in> set three"
  by (simp_all add: three_def)

lemma peer_ids [simp]: "peer_node_id peer1 = 1" "peer_node_id peer2 = 2" "peer_node_id peer3 = 3"
  by (simp_all add: peer1_def peer2_def peer3_def)

definition vote1 :: RequestVoteRequest where "vote1 = \<lparr>rv_term = 1, rv_candidate_id = 1, rv_last_log_index = 0, rv_last_log_term = 0\<rparr>"
definition vote2 :: RequestVoteRequest where "vote2 = \<lparr>rv_term = 2, rv_candidate_id = 2, rv_last_log_index = 0, rv_last_log_term = 0\<rparr>"
definition yes1 :: RequestVoteResponse where "yes1 = \<lparr>rvr_term = 1, rvr_vote_granted = True\<rparr>"
definition yes2 :: RequestVoteResponse where "yes2 = \<lparr>rvr_term = 2, rvr_vote_granted = True\<rparr>"
definition done2 :: AppendEntriesResponse where "done2 = \<lparr>aer_term = 2, aer_success = True\<rparr>"
definition append_y :: AppendEntriesRequest where
  "append_y = \<lparr>ae_term = 2, ae_leader_id = 2, ae_prev_log_index = 0, ae_prev_log_term = 0, ae_leader_commit = 0, ae_entries = [entry_y]\<rparr>"
definition commit_y :: AppendEntriesRequest where
  "commit_y = \<lparr>ae_term = 2, ae_leader_id = 2, ae_prev_log_index = 1, ae_prev_log_term = 2, ae_leader_commit = 1, ae_entries = []\<rparr>"
definition confirm_1 :: AppendEntriesRequest where
  "confirm_1 = \<lparr>ae_term = 2, ae_leader_id = 2, ae_prev_log_index = 0, ae_prev_log_term = 0, ae_leader_commit = 1, ae_entries = []\<rparr>"

abbreviation (input) "nd0 i st t v ld es ni mi \<equiv> nd i st t v ld 0 es ShardedKV_init 0 ni mi []"
abbreviation (input) "start i \<equiv> nd0 i RaftState_kFollower 0 0 0 [] [] []"

lemma other_peers_nd: "other_peers (nd 1 st t v ld cm es kv ap ni mi la) = [peer2, peer3]" "other_peers (nd 2 st t v ld cm es kv ap ni mi la) = [peer1, peer3]"
  by (simp_all add: other_peers_def nd_def three_def)

lemma begin_exec:
  "StartElection_begin (nd i st t v ld cm [] kv ap ni mi la) =
     (\<lparr>rv_term = t + 1, rv_candidate_id = i, rv_last_log_index = 0, rv_last_log_term = 0\<rparr>, nd i RaftState_kCandidate (t + 1) i 0 cm [] kv ap ni mi la)"
  if "t + 1 \<noteq> 0"
  using that by (simp add: StartElection_begin_def nd_exec Log_LastIndex_def Log_LastTerm_def)

lemma vote_exec:
  "HandleRequestVote \<lparr>rv_term = u, rv_candidate_id = c, rv_last_log_index = 0, rv_last_log_term = 0\<rparr>
     (nd i RaftState_kFollower 0 0 0 0 [] kv ap ni mi []) =
     (\<lparr>rvr_term = u, rvr_vote_granted = True\<rparr>, nd i RaftState_kFollower u c 0 0 [] kv ap ni mi [])"
  if "0 < u"
  using that by (auto simp: HandleRequestVote_def Let_def BecomeFollowerLocked_def nd_exec Log_LastIndex_def Log_LastTerm_def)

lemma finish_exec:
  "StartElection_finish t 2 (nd 1 RaftState_kCandidate t 1 0 0 [] kv ap [] [] [])
     = nd 1 RaftState_kLeader t 1 1 0 [] kv ap [(2, 1), (3, 1)] [(2, 0), (3, 0)] []"
  "StartElection_finish t 2 (nd 2 RaftState_kCandidate t 2 0 0 [] kv ap [] [] [])
     = nd 2 RaftState_kLeader t 2 2 0 [] kv ap [(1, 1), (3, 1)] [(1, 0), (3, 0)] []"
  by (simp_all add: StartElection_finish_def majority_def BecomeLeaderLocked_def Let_def steady_clock_now_def nd_def three_def Log_LastIndex_def)

lemma propose_exec:
  "Propose_begin e (nd i RaftState_kLeader t v ld cm [] kv ap ni mi la)
     = Some (Inr 1, nd i RaftState_kLeader t v ld cm [e\<lparr>e_term := t, e_index := 1\<rparr>] kv ap ni mi la)"
  by (simp add: Propose_begin_def nd_def append_exec)

text \<open>The states the execution goes through.\<close>

abbreviation (input) "lead1 es \<equiv> nd0 1 RaftState_kLeader 1 1 1 es [(2, 1), (3, 1)] [(2, 0), (3, 0)]"
abbreviation (input) "lead2 es \<equiv> nd0 2 RaftState_kLeader 2 2 2 es [(1, 1), (3, 1)] [(1, 0), (3, 0)]"
abbreviation (input) "got1 \<equiv> (2 :: u32, vote1, yes1)"
abbreviation (input) "got2 \<equiv> (3 :: u32, vote2, yes2)"

definition lead2_done :: "(bytes \<Rightarrow> u64) \<Rightarrow> RaftNode" where
  "lead2_done hash = nd 2 RaftState_kLeader 2 2 2 1 [entry_y] (store_of hash entry_y) 1 [(1, 1), (3, 2)] [(1, 0), (3, 1)] [(3, 0)]"

definition follow3_done :: "(bytes \<Rightarrow> u64) \<Rightarrow> RaftNode" where
  "follow3_done hash = nd 3 RaftState_kFollower 2 2 2 1 [entry_y] (store_of hash entry_y) 1 [] [] []"

definition committed_state :: "(bytes \<Rightarrow> u64) \<Rightarrow> Cluster" where
  "committed_state hash = cl (lead1 [entry_x]) (lead2_done hash) (follow3_done hash) None None [vote2, vote1] [got2, got1]
     [(3, False, commit_y), (3, False, append_y)] [(3, False, commit_y, done2), (3, False, append_y, done2)]"

lemma first_leader:
  "cluster_step hash three (ElectionTimeout 1) (cl (start 1) (start 2) (start 3) None None [] [] [] [])
     = Some (cl (nd0 1 RaftState_kCandidate 1 1 0 [] [] []) (start 2) (start 3) (Some (vote1, [peer2, peer3], 1)) None [vote1] [] [] [])"
  "cluster_step hash three (DeliverVote 2 vote1)
       (cl (nd0 1 RaftState_kCandidate 1 1 0 [] [] []) (start 2) (start 3) (Some (vote1, [peer2, peer3], 1)) None [vote1] [] [] [])
     = Some (cl (nd0 1 RaftState_kCandidate 1 1 0 [] [] []) (nd0 2 RaftState_kFollower 1 1 0 [] [] []) (start 3)
         (Some (vote1, [peer2, peer3], 1)) None [vote1] [got1] [] [])"
  "cluster_step hash three (VoteReply 1 yes1)
       (cl (nd0 1 RaftState_kCandidate 1 1 0 [] [] []) n2 n3 (Some (vote1, [peer2, peer3], 1)) None [vote1] [got1] [] [])
     = Some (cl (nd0 1 RaftState_kCandidate 1 1 0 [] [] []) n2 n3 (Some (vote1, [peer3], 2)) None [vote1] [got1] [] [])"
  "cluster_step hash three (VoteLost 1) (cl n1 n2 n3 (Some (vote1, [peer3], 2)) None vs vg [] [])
     = Some (cl n1 n2 n3 (Some (vote1, [], 2)) None vs vg [] [])"
  "cluster_step hash three (ElectionEnd 1) (cl (nd0 1 RaftState_kCandidate 1 1 0 [] [] []) n2 n3 (Some (vote1, [], 2)) None vs vg [] [])
     = Some (cl (lead1 []) n2 n3 None None vs vg [] [])"
  "cluster_step hash three (ProposeEntry 1 entry_x) (cl (lead1 []) n2 n3 None None vs vg [] [])
     = Some (cl (lead1 [entry_x]) n2 n3 None None vs vg [] [])"
proof -
  show "cluster_step hash three (ElectionTimeout 1) (cl (start 1) (start 2) (start 3) None None [] [] [] [])
     = Some (cl (nd0 1 RaftState_kCandidate 1 1 0 [] [] []) (start 2) (start 3) (Some (vote1, [peer2, peer3], 1)) None [vote1] [] [] [])"
    by (simp add: three_ids begin_exec other_peers_nd vote1_def) (simp add: nd_def)
qed (simp_all add: three_ids vote_exec vote1_def yes1_def StartElection_reply_def finish_exec propose_exec entry_x_def EntryValid_def
    record_of_entry_def WalRecordValid_def kMaxFieldSize_def, simp_all add: nd_def numeral_2_eq_2)

lemma second_leader:
  "cluster_step hash three (ElectionTimeout 2) (cl n1 (nd0 2 RaftState_kFollower 1 1 0 [] [] []) n3 None None vs vg [] [])
     = Some (cl n1 (nd0 2 RaftState_kCandidate 2 2 0 [] [] []) n3 None (Some (vote2, [peer1, peer3], 1)) (vote2 # vs) vg [] [])"
  "cluster_step hash three (VoteLost 2) (cl n1 n2 n3 None (Some (vote2, [peer1, peer3], 1)) vs vg [] [])
     = Some (cl n1 n2 n3 None (Some (vote2, [peer3], 1)) vs vg [] [])"
  "cluster_step hash three (DeliverVote 3 vote2) (cl n1 n2 (start 3) None e2 [vote2, vote1] vg [] [])
     = Some (cl n1 n2 (nd0 3 RaftState_kFollower 2 2 0 [] [] []) None e2 [vote2, vote1] (got2 # vg) [] [])"
  "cluster_step hash three (VoteReply 2 yes2) (cl n1 (nd0 2 RaftState_kCandidate 2 2 0 [] [] []) n3 None (Some (vote2, [peer3], 1)) vs (got2 # vg) [] [])
     = Some (cl n1 (nd0 2 RaftState_kCandidate 2 2 0 [] [] []) n3 None (Some (vote2, [], 2)) vs (got2 # vg) [] [])"
  "cluster_step hash three (ElectionEnd 2) (cl n1 (nd0 2 RaftState_kCandidate 2 2 0 [] [] []) n3 None (Some (vote2, [], 2)) vs vg [] [])
     = Some (cl n1 (lead2 []) n3 None None vs vg [] [])"
  "cluster_step hash three (ProposeEntry 2 entry_y) (cl n1 (lead2 []) n3 None None vs vg [] [])
     = Some (cl n1 (lead2 [entry_y]) n3 None None vs vg [] [])"
proof -
  show "cluster_step hash three (ElectionTimeout 2) (cl n1 (nd0 2 RaftState_kFollower 1 1 0 [] [] []) n3 None None vs vg [] [])
     = Some (cl n1 (nd0 2 RaftState_kCandidate 2 2 0 [] [] []) n3 None (Some (vote2, [peer1, peer3], 1)) (vote2 # vs) vg [] [])"
    by (simp add: three_ids begin_exec other_peers_nd vote2_def) (simp add: nd_def)
  show "cluster_step hash three (DeliverVote 3 vote2) (cl n1 n2 (start 3) None e2 [vote2, vote1] vg [] [])
     = Some (cl n1 n2 (nd0 3 RaftState_kFollower 2 2 0 [] [] []) None e2 [vote2, vote1] (got2 # vg) [] [])"
    by (simp add: three_ids vote_exec vote2_def yes2_def)
qed (simp_all add: three_ids vote_exec vote2_def yes2_def StartElection_reply_def finish_exec propose_exec entry_y_def EntryValid_def
    record_of_entry_def WalRecordValid_def kMaxFieldSize_def, simp_all add: nd_def numeral_2_eq_2)

lemma apply_exec:
  assumes "e_index e = 1"
  shows "ApplyCommittedEntriesLocked hash (nd i st t v ld 1 [e] ShardedKV_init 0 ni mi la) = nd i st t v ld 1 [e] (store_of hash e) 1 ni mi la"
proof -
  have g: "Log_Get (rn_log (nd i st t v ld 1 [e] ShardedKV_init 0 ni mi la)) 1 = Some e" using assms by (simp add: Log_Get_def nd_def)
  have "ApplyCommittedEntriesLocked hash (nd i st t v ld 1 [e] ShardedKV_init 0 ni mi la)
      = ApplyCommittedEntriesLocked hash (nd i st t v ld 1 [e] (store_of hash e) 1 ni mi la)"
    by (subst ApplyCommittedEntriesLocked.simps)
      (use g assms in \<open>simp add: nd_def DurableStorage_ApplyCommitted_def store_of_def record_of_entry_def\<close>)
  then show ?thesis by (simp add: ApplyCommittedEntriesLocked.simps [of _ "nd i st t v ld 1 [e] (store_of hash e) 1 ni mi la"]) (simp add: nd_def)
qed

lemma set_commit_nd: "nd i st t v ld 0 es kv ap ni mi la\<lparr>rn_commit_index := 1\<rparr> = nd i st t v ld 1 es kv ap ni mi la"
  by (simp add: nd_def)

lemma replicate_exec:
  "ReplicateToPeer_begin peer3 (lead2 [entry_y]) = (Some append_y, lead2 [entry_y])"
  "ReplicateToPeer_begin peer3 (lead2_done hash) = (Some commit_y, lead2_done hash)"
  by (simp_all add: ReplicateToPeer_begin_def map_at_def Let_def prev_log_term_at_def Log_Get_def Log_EntriesFrom_def append_y_def commit_y_def
      lead2_done_def nd_def entry_y_def)

lemma handle_append_y: "HandleAppendEntries hash append_y (nd0 3 RaftState_kFollower 2 2 0 [] [] []) = Some (done2, nd0 3 RaftState_kFollower 2 2 2 [entry_y] [] [])"
  by (simp add: HandleAppendEntries_def Let_def append_y_def done2_def nd_exec Log_Get_def append_exec entry_y_def)

lemma handle_commit_y: "HandleAppendEntries hash commit_y (nd0 3 RaftState_kFollower 2 2 2 [entry_y] [] []) = Some (done2, follow3_done hash)"
proof -
  have "HandleAppendEntries hash commit_y (nd0 3 RaftState_kFollower 2 2 2 [entry_y] [] [])
      = Some (done2, ApplyCommittedEntriesLocked hash (nd 3 RaftState_kFollower 2 2 2 1 [entry_y] ShardedKV_init 0 [] [] []))"
    by (simp add: HandleAppendEntries_def Let_def commit_y_def done2_def nd_exec Log_Get_def Log_LastIndex_def entry_y_def)
  then show ?thesis by (simp add: apply_exec entry_y_def follow3_done_def)
qed

lemma finish_y: "ReplicateToPeer_finish hash peer3 append_y done2 (lead2 [entry_y]) = lead2_done hash"
proof -
  define n where "n = nd 2 RaftState_kLeader 2 2 2 0 [entry_y] ShardedKV_init 0 [(1, 1), (3, 2)] [(1, 0), (3, 1)] [(3, 0)]"
  have "ReplicateToPeer_finish hash peer3 append_y done2 (lead2 [entry_y]) = AdvanceCommitIndexLocked hash n"
    by (simp add: ReplicateToPeer_finish_def Let_def append_y_def done2_def steady_clock_now_def entry_y_def nd_def n_def)
  also have "\<dots> = ApplyCommittedEntriesLocked hash (n\<lparr>rn_commit_index := 1\<rparr>)"
  proof -
    have "Suc (Suc (Suc 0)) div 2 = Suc 0" by simp
    then show ?thesis by (simp add: AdvanceCommitIndexLocked_def Let_def n_def nd_def Log_LastIndex_def entry_y_def Log_Get_def)
  qed
  also have "\<dots> = lead2_done hash" by (simp add: n_def set_commit_nd apply_exec lead2_done_def entry_y_def)
  finally show ?thesis .
qed

lemma replication:
  "cluster_step hash three (Replicate 2 peer3) (cl n1 (lead2 [entry_y]) n3 None None vs vg [] [])
     = Some (cl n1 (lead2 [entry_y]) n3 None None vs vg [(3, False, append_y)] [])"
  "cluster_step hash three (DeliverAppend 3 False append_y)
       (cl n1 n2 (nd0 3 RaftState_kFollower 2 2 0 [] [] []) None None vs vg [(3, False, append_y)] [])
     = Some (cl n1 n2 (nd0 3 RaftState_kFollower 2 2 2 [entry_y] [] []) None None vs vg [(3, False, append_y)] [(3, False, append_y, done2)])"
  "cluster_step hash three (AppendReply peer3 append_y done2)
       (cl n1 (lead2 [entry_y]) n3 None None vs vg as [(3, False, append_y, done2)])
     = Some (cl n1 (lead2_done hash) n3 None None vs vg as [(3, False, append_y, done2)])"
  "cluster_step hash three (Replicate 2 peer3) (cl n1 (lead2_done hash) n3 None None vs vg as ag)
     = Some (cl n1 (lead2_done hash) n3 None None vs vg ((3, False, commit_y) # as) ag)"
  "cluster_step hash three (DeliverAppend 3 False commit_y)
       (cl n1 n2 (nd0 3 RaftState_kFollower 2 2 2 [entry_y] [] []) None None vs vg ((3, False, commit_y) # as) ag)
     = Some (cl n1 n2 (follow3_done hash) None None vs vg ((3, False, commit_y) # as) ((3, False, commit_y, done2) # ag))"
proof -
  have l: "ae_leader_id append_y = 2" by (simp add: append_y_def)
  show "cluster_step hash three (AppendReply peer3 append_y done2) (cl n1 (lead2 [entry_y]) n3 None None vs vg as [(3, False, append_y, done2)])
     = Some (cl n1 (lead2_done hash) n3 None None vs vg as [(3, False, append_y, done2)])"
    by (simp add: l finish_y)
qed (simp_all add: three_ids peer_in_three replicate_exec handle_append_y handle_commit_y)

lemma start_init:
  "\<exists>config. cfg_peers config = three \<and> (\<exists>dir os. calm os \<and> (\<exists>os'. calm os' \<and> (\<exists>clock rng.
     start i = RaftNode_new i config (DurableStorage_new hash dir [] os) None os' clock rng)))"
  using nd_init [of i hash] by (metis ClusterConfig.select_convs(3) calm_Nil)

lemma store_of_get:
  assumes "e_op e = WalOp_kSet" "e_key e \<noteq> []"
  shows "ShardedKV_Get hash (store_of hash e) (e_key e) = Inr (e_value e)"
proof -
  have "ShardedKV_inv hash (store_of hash e)" "ShardedKV_abs hash (store_of hash e) (e_key e) = Some (e_value e)"
    unfolding store_of_def using assms
    by (simp_all add: sharded.apply_record_refines sharded.init_inv sharded.init_abs wal_effect_def record_of_entry_def)
  then show ?thesis using assms by (simp add: sharded.get_result)
qed

text \<open>The three stretches of the execution: an election, the proposal of \<open>entry_x\<close>, and how node 2 takes over.\<close>

definition elect1 :: "Action list" where
  "elect1 = [ElectionTimeout 1, DeliverVote 2 vote1, VoteReply 1 yes1, VoteLost 1, ElectionEnd 1]"

definition take_over :: "Action list" where
  "take_over = [ElectionTimeout 2, VoteLost 2, DeliverVote 3 vote2, VoteReply 2 yes2, ElectionEnd 2, ProposeEntry 2 entry_y,
     Replicate 2 peer3, DeliverAppend 3 False append_y, AppendReply peer3 append_y done2, Replicate 2 peer3, DeliverAppend 3 False commit_y]"

abbreviation (input) "init_state \<equiv> cl (start 1) (start 2) (start 3) None None [] [] [] []"
abbreviation (input) "lead1_state es \<equiv> cl (lead1 es) (nd0 2 RaftState_kFollower 1 1 0 [] [] []) (start 3) None None [vote1] [got1] [] []"

lemma elect1_run: "cluster_run hash three elect1 init_state = Some (lead1_state [])"
  by (simp add: elect1_def first_leader del: cluster_step.simps One_nat_def)

lemma propose_run: "cluster_step hash three (ProposeEntry 1 entry_x) (lead1_state []) = Some (lead1_state [entry_x])"
  by (rule first_leader)

lemma take_over_run: "cluster_run hash three take_over (lead1_state [entry_x]) = Some (committed_state hash)"
  by (simp add: take_over_def second_leader replication committed_state_def del: cluster_step.simps One_nat_def)

lemma lead1_reached: "cluster_reach hash three b (lead1_state [])"
proof -
  have "cluster_init hash three init_state"
    by (simp add: cluster_init_def three_ids start_init) (simp add: cl_def fun_eq_iff)
  from cluster_run_reach [OF cluster_reach.start [OF this] elect1_run] show ?thesis by (simp add: elect1_def is_confirm_def)
qed

lemma committed_state_reached: "cluster_reach hash three b (committed_state hash)"
proof (rule cluster_run_reach [OF lead1_reached])
  show "cluster_run hash three (ProposeEntry 1 entry_x # take_over) (lead1_state []) = Some (committed_state hash)"
    by (simp add: propose_run take_over_run del: cluster_step.simps)
qed (simp add: take_over_def is_confirm_def)

end
