(* ===== verification/Raft_Safety.thy ===== *)
theory Raft_Safety
  imports Raft_Refinement Raft_Scenario
begin

text \<open>
  What the refinement gives for the program: properties of every reachable state of a cluster running \<^verbatim>\<open>raft/node.cpp\<close>, stated
  over the nodes' own fields. Election Safety and Log Matching hold for all executions. Agreement on committed entries
  holds for executions without read-confirmation rounds; the theory \<^verbatim>\<open>Raft_Stale_Commit\<close> shows that it fails with them.
\<close>

definition cluster_next :: "(bytes \<Rightarrow> u64) \<Rightarrow> PeerInfo list \<Rightarrow> Cluster \<Rightarrow> Cluster \<Rightarrow> bool" where
  "cluster_next hash P c c' \<longleftrightarrow> (\<exists>a. cluster_step hash P a c = Some c')"

lemma cluster_next_sim:
  assumes "(cluster_next hash P)\<^sup>*\<^sup>* c c'" "sim True P c s" "raft_inv (majority_of P) s" "peers_ok P"
  shows "\<exists>s'. raft_steps (majority_of P) s s' \<and> sim True P c' s'"
  using assms(1)
proof (induction rule: rtranclp_induct)
  case base
  then show ?case using assms(2) by blast
next
  case (step c1 c2)
  then obtain s1 a where s1: "raft_steps (majority_of P) s s1" "sim True P c1 s1" "cluster_step hash P a c1 = Some c2"
    by (auto simp: cluster_next_def)
  obtain s2 where "raft_steps (majority_of P) s1 s2" "sim True P c2 s2"
    using sim_step [OF s1(2) maj.raft_inv_steps [OF s1(1) assms(3)] assms(4) _ s1(3)] by blast
  then show ?case using s1(1) rtranclp_trans by metis
qed

lemma entry_eqI:
  assumes "contiguous A" "contiguous B" "k < length A" "k < length B" "abs_entry (A ! k) = abs_entry (B ! k)"
  shows "A ! k = B ! k"
proof -
  have "unat (e_index (A ! k)) = unat (e_index (B ! k))" using assms(1-4) by (simp add: contiguous_def)
  then have "e_index (A ! k) = e_index (B ! k)" by (simp add: word_unat_eq_iff)
  moreover have "e_term (A ! k) = e_term (B ! k)" using assms(5) by (simp add: abs_entry_def word_unat_eq_iff)
  ultimately show ?thesis using assms(5) by (simp add: abs_entry_def)
qed

text \<open>Equal abstract prefixes mean equal entries.\<close>

lemma Log_Get_prefix:
  assumes "contiguous (log_entries a)" "contiguous (log_entries b)" "take k (abs_log a) = take k (abs_log b)"
    "k \<le> length (log_entries a)" "k \<le> length (log_entries b)" "unat j \<le> k"
  shows "Log_Get a j = Log_Get b j"
proof (cases "unat j = 0")
  case False
  then have j: "unat j - 1 < k" using assms(6) by simp
  then have "abs_log a ! (unat j - 1) = abs_log b ! (unat j - 1)" using assms(3) by (metis nth_take)
  then have "abs_entry (log_entries a ! (unat j - 1)) = abs_entry (log_entries b ! (unat j - 1))"
    using j assms(4,5) by (simp add: abs_log_def)
  then have "log_entries a ! (unat j - 1) = log_entries b ! (unat j - 1)"
    using entry_eqI [OF assms(1,2)] j assms(4,5) by simp
  then show ?thesis using Log_Get_contiguous [OF assms(1), of j] Log_Get_contiguous [OF assms(2), of j] False assms(4-6) by simp
qed (simp add: Log_Get_contiguous [OF assms(1)] Log_Get_contiguous [OF assms(2)])

text \<open>
  The state of every node, as the protocol sees it: role, term, vote, log and commit index. The commit index is left out (\<open>b\<close>) for executions with
  read-confirmation rounds, in which nodes commit entries the protocol does not.
\<close>

definition implements :: "bool \<Rightarrow> PeerInfo list \<Rightarrow> Cluster \<Rightarrow> (u32, cmd) Raft \<Rightarrow> bool" where
  "implements b P c s \<longleftrightarrow>
     (\<forall>i \<in> ids P. role s i = rn_state (cl_node c i) \<and> cterm s i = unat (rn_current_term (cl_node c i))
        \<and> vote s i = (if rn_voted_for (cl_node c i) = 0 then None else Some (rn_voted_for (cl_node c i)))
        \<and> elog s i = abs_log (rn_log (cl_node c i)) \<and> (b \<or> commit s i = unat (rn_commit_index (cl_node c i))))"

lemma sim_implements: "sim b P c s \<Longrightarrow> implements b P c s"
  unfolding implements_def using sim_nodeD(3-7) [OF simD(1)] by simp

lemma run_trace_sim:
  assumes "cluster_run hash P acts c = Some c'" "b \<or> list_all (\<lambda>a. \<not> is_confirm a) acts" "sim b P c s" "raft_inv (majority_of P) s" "peers_ok P"
  shows "\<exists>ss. length ss = Suc (length acts) \<and> ss ! 0 = s \<and> (\<forall>k < length acts. raft_steps (majority_of P) (ss ! k) (ss ! Suc k))
    \<and> (\<forall>k \<le> length acts. \<exists>ck. cluster_run hash P (take k acts) c = Some ck \<and> implements b P ck (ss ! k))"
  using assms
proof (induction acts arbitrary: c s)
  case Nil
  then show ?case by (intro exI [of _ "[s]"]) (simp add: sim_implements)
next
  case (Cons a acts)
  obtain d where d: "cluster_step hash P a c = Some d" "cluster_run hash P acts d = Some c'" using Cons.prems(1) by (auto split: option.splits)
  have a: "b \<or> \<not> is_confirm a" "b \<or> list_all (\<lambda>a. \<not> is_confirm a) acts" using Cons.prems(2) by auto
  obtain t where t: "raft_steps (majority_of P) s t" "sim b P d t" using sim_step [OF Cons.prems(3,4,5) a(1) d(1)] by blast
  obtain ss where ss: "length ss = Suc (length acts)" "ss ! 0 = t" "\<forall>k < length acts. raft_steps (majority_of P) (ss ! k) (ss ! Suc k)"
    "\<forall>k \<le> length acts. \<exists>ck. cluster_run hash P (take k acts) d = Some ck \<and> implements b P ck (ss ! k)"
    using Cons.IH [OF d(2) a(2) t(2) maj.raft_inv_steps [OF t(1) Cons.prems(4)] Cons.prems(5)] by blast
  have "\<exists>ck. cluster_run hash P (take k (a # acts)) c = Some ck \<and> implements b P ck ((s # ss) ! k)" if "k \<le> length (a # acts)" for k
    using that ss(4) d(1) sim_implements [OF Cons.prems(3)] by (cases k) simp_all
  moreover have "raft_steps (majority_of P) ((s # ss) ! k) ((s # ss) ! Suc k)" if "k < length (a # acts)" for k
    using that ss(2,3) t(1) by (cases k) simp_all
  ultimately show ?case using ss(1) by (intro exI [of _ "s # ss"]) simp
qed

text \<open>Facts of the execution of \<^verbatim>\<open>Raft_Scenario\<close>.\<close>

lemma committed_node2 [simp]:
  "rn_state (cl_node (committed_state hash) 2) = RaftState_kLeader" "rn_current_term (cl_node (committed_state hash) 2) = 2"
  "rn_commit_index (cl_node (committed_state hash) 2) = 1" "Log_Get (rn_log (cl_node (committed_state hash) 2)) 1 = Some entry_y"
  by (simp_all add: committed_state_def lead2_done_def) (simp_all add: nd_def Log_Get_def entry_y_def)

lemma committed_node3 [simp]:
  "rn_current_term (cl_node (committed_state hash) 3) = 2" "rn_commit_index (cl_node (committed_state hash) 3) = 1"
  "Log_Get (rn_log (cl_node (committed_state hash) 3)) 1 = Some entry_y"
  by (simp_all add: committed_state_def follow3_done_def) (simp_all add: nd_def Log_Get_def entry_y_def)

lemma three_peers: "distinct (map peer_node_id three)" "0 \<notin> peer_node_id ` set three" "2 \<in> ids three" "3 \<in> ids three"
  by (simp_all add: three_def three_ids [unfolded three_def])

lemmas scenario = committed_state_reached three_peers

lemma init_state_init: "cluster_init hash three init_state"
  by (simp add: cluster_init_def three_ids start_init) (simp add: cl_def fun_eq_iff)

lemma init_state_run: "cluster_run hash three (elect1 @ ProposeEntry 1 entry_x # take_over) init_state = Some (committed_state hash)"
  by (simp add: cluster_run_append elect1_run propose_run take_over_run del: cluster_step.simps)

section \<open>Properties\<close>

text \<open>
  C5. Refinement. Every execution of a cluster running \<^verbatim>\<open>raft/node.cpp\<close>, with restarts and lost, delayed and repeated messages, is an execution of the abstract Raft
  protocol: there is a protocol state for every moment of the execution, the first one initial and each connected to the next by protocol steps, and at every moment each node's
  state, term, vote, log and commit index are those of the protocol state. With read-confirmation rounds (\<open>b\<close>) the same holds without the commit index, for which it
  is false. System calls on the two files do not fail, and a node stops only between two critical sections.
\<close>

theorem raft_refines_protocol:
  assumes "cluster_init hash P c" "cluster_run hash P acts c = Some c'" "b \<or> list_all (\<lambda>a. \<not> is_confirm a) acts"
    and "distinct (map peer_node_id P)" "0 \<notin> peer_node_id ` set P"
  shows "\<exists>ss. length ss = Suc (length acts) \<and> ss ! 0 = raft_init \<and> (\<forall>k < length acts. raft_steps (majority_of P) (ss ! k) (ss ! Suc k))
    \<and> (\<forall>k \<le> length acts. \<exists>ck. cluster_run hash P (take k acts) c = Some ck \<and> implements b P ck (ss ! k))"
proof -
  have "peers_ok P" using assms(4,5) by (simp add: peers_ok_def ids_def)
  then show ?thesis by (rule run_trace_sim [OF assms(2,3) sim_start [OF assms(1)] maj.reach_inv [OF raft_reach.init]])
qed

theorem raft_refines_protocol_witness:
  "\<exists>ss. length ss = 18 \<and> ss ! 0 = raft_init \<and> raft_steps (majority_of three) (ss ! 16) (ss ! 17)
     \<and> implements False three (committed_state (\<lambda>_. 0)) (ss ! 17)"
proof -
  let ?acts = "elect1 @ ProposeEntry 1 entry_x # take_over"
  have l: "length ?acts = 17" by (simp add: elect1_def take_over_def)
  have n: "list_all (\<lambda>a. \<not> is_confirm a) ?acts" by (simp add: elect1_def take_over_def is_confirm_def)
  obtain ss where "length ss = Suc (length ?acts)" "ss ! 0 = raft_init"
    "\<forall>k < length ?acts. raft_steps (majority_of three) (ss ! k) (ss ! Suc k)"
    "\<forall>k \<le> length ?acts. \<exists>ck. cluster_run (\<lambda>_. 0) three (take k ?acts) init_state = Some ck \<and> implements False three ck (ss ! k)"
    using raft_refines_protocol [OF init_state_init init_state_run disjI2 [OF n] three_peers(1,2), of "\<lambda>_. 0"] by blast
  note ss = this(1,2) this(3) [rule_format, of 16] this(4) [rule_format, of 17]
  have t: "take 17 ?acts = ?acts" using l by simp
  show ?thesis
    by (rule exI [of _ ss]) (use ss(1-3) ss(4) [unfolded t init_state_run] l in simp)
qed

text \<open>
  C1. Election Safety. In a cluster whose nodes are configured with the same peers (distinct, non-zero ids), at most one node is ever
  leader in a term: if one node is leader in some state and a node is leader of the same term in that state or any
  later one, however the nodes interleave, crash and restart, it is the same node. Votes survive restarts because they are
  persisted before they are sent.
\<close>

theorem raft_election_safety:
  assumes "cluster_reach hash P True c" "(cluster_next hash P)\<^sup>*\<^sup>* c c'" "distinct (map peer_node_id P)" "0 \<notin> peer_node_id ` set P"
    and "i \<in> ids P" "rn_state (cl_node c i) = RaftState_kLeader"
    and "j \<in> ids P" "rn_state (cl_node c' j) = RaftState_kLeader"
    and "rn_current_term (cl_node c' j) = rn_current_term (cl_node c i)"
  shows "i = j"
proof -
  let ?Q = "majority_of P"
  have P: "peers_ok P" using assms(3,4) by (simp add: peers_ok_def ids_def)
  obtain s where s: "raft_reach ?Q s" "sim True P c s" using cluster_reach_sim [OF assms(1) P] by blast
  note inv = maj.reach_inv [OF s(1)]
  obtain s' where s': "raft_steps ?Q s s'" "sim True P c' s'" using cluster_next_sim [OF assms(2) s(2) inv P] by blast
  note inv' = maj.raft_inv_steps [OF s'(1) inv]
  have lead: "(cterm u x, x) \<in> leaders u" if "raft_inv ?Q u" "role u x = RaftState_kLeader" for u x
    using maj.leader_invD(5) [of P u x] that by (simp add: raft_inv_def)
  have "(unat (rn_current_term (cl_node c i)), i) \<in> leaders s"
    using lead [OF inv, of i] sim_nodeD(3,4) [OF simD(1) [OF s(2) assms(5)]] assms(6) by simp
  then have "(unat (rn_current_term (cl_node c i)), i) \<in> leaders s'" using steps_mono [OF s'(1)] by blast
  moreover have "(unat (rn_current_term (cl_node c i)), j) \<in> leaders s'"
    using lead [OF inv', of j] sim_nodeD(3,4) [OF simD(1) [OF s'(2) assms(7)]] assms(8,9) by simp
  ultimately show ?thesis using maj.election_safety [OF inv'] by blast
qed

theorem raft_election_safety_witness:
  "cluster_reach (\<lambda>_. 0) three True (committed_state (\<lambda>_. 0)) \<and> rn_state (cl_node (committed_state (\<lambda>_. 0)) 2) = RaftState_kLeader
     \<and> (2 :: u32) = 2"
  using raft_election_safety [OF scenario(1) rtranclp.rtrancl_refl scenario(2-4) _ scenario(4), of "\<lambda>_. 0"] by (simp add: scenario)

text \<open>
  C3. Log Matching. If the logs of two nodes hold entries of the same term at the same index, they hold the same entries at that and
  every smaller index, in every reachable state.
\<close>

theorem raft_log_matching:
  assumes "cluster_reach hash P True c" "distinct (map peer_node_id P)" "0 \<notin> peer_node_id ` set P" "i \<in> ids P" "j \<in> ids P"
    and "Log_Get (rn_log (cl_node c i)) k = Some e" "Log_Get (rn_log (cl_node c j)) k = Some e'" "e_term e = e_term e'" "k' \<le> k"
  shows "Log_Get (rn_log (cl_node c i)) k' = Log_Get (rn_log (cl_node c j)) k'"
proof -
  have P: "peers_ok P" using assms(2,3) by (simp add: peers_ok_def ids_def)
  obtain s where s: "raft_reach (majority_of P) s" "sim True P c s" using cluster_reach_sim [OF assms(1) P] by blast
  let ?a = "rn_log (cl_node c i)" and ?b = "rn_log (cl_node c j)"
  note di = sim_nodeD [OF simD(1) [OF s(2) assms(4)]] note dj = sim_nodeD [OF simD(1) [OF s(2) assms(5)]]
  note ci = node_ok_contiguous [OF di(1)] note cj = node_ok_contiguous [OF dj(1)]
  have k: "0 < unat k" "unat k \<le> length (log_entries ?a)" "unat k \<le> length (log_entries ?b)"
    "e = log_entries ?a ! (unat k - 1)" "e' = log_entries ?b ! (unat k - 1)"
    using assms(6,7) Log_Get_contiguous [OF ci, of k] Log_Get_contiguous [OF cj, of k] by (auto split: if_splits)
  then have "take (Suc (unat k - 1)) (elog s i) = take (Suc (unat k - 1)) (elog s j)"
    using assms(8) di(6) dj(6) by (intro maj.log_matching [OF maj.reach_inv [OF s(1)]]) simp_all
  then have "take (unat k) (abs_log ?a) = take (unat k) (abs_log ?b)" using k(1) di(6) dj(6) by simp
  then show ?thesis using Log_Get_prefix [OF ci cj _ k(2,3)] assms(9) by (simp add: word_le_nat_alt)
qed

theorem raft_log_matching_witness:
  "cluster_reach (\<lambda>_. 0) three True (committed_state (\<lambda>_. 0))
     \<and> Log_Get (rn_log (cl_node (committed_state (\<lambda>_. 0)) 2)) 1 = Log_Get (rn_log (cl_node (committed_state (\<lambda>_. 0)) 3)) 1"
  using raft_log_matching [OF scenario, of "\<lambda>_. 0" 1 entry_y entry_y 1] by (simp add: scenario)

text \<open>
  C2. State Machine Safety. As long as no node runs a read-confirmation round, no system call on a node's two files fails and nodes stop and restart only between two
  critical sections, two nodes never disagree on a committed entry: at every index up to both commit indices their logs hold the same entry. In particular what
  \<^verbatim>\<open>ApplyCommittedEntriesLocked\<close> feeds to the stores is the same sequence on every node. The conditions are needed: \<open>Raft_Stale_Commit\<close> has an execution with
  a read-confirmation round in which committed entries differ, and \<open>rewrite_stopped_loses_log\<close> of \<open>Raft_Log\<close> shows that a node that stops (or whose write fails)
  inside \<^verbatim>\<open>RewriteAll\<close> loses its whole log, entries it has acknowledged to a leader included.
\<close>

theorem raft_commit_agreement:
  assumes "cluster_reach hash P False c" "distinct (map peer_node_id P)" "0 \<notin> peer_node_id ` set P" "i \<in> ids P" "j \<in> ids P"
    and "0 < k" "k \<le> rn_commit_index (cl_node c i)" "k \<le> rn_commit_index (cl_node c j)"
  shows "Log_Get (rn_log (cl_node c i)) k \<noteq> None \<and> Log_Get (rn_log (cl_node c i)) k = Log_Get (rn_log (cl_node c j)) k"
proof -
  have P: "peers_ok P" using assms(2,3) by (simp add: peers_ok_def ids_def)
  obtain s where s: "raft_reach (majority_of P) s" "sim False P c s" using cluster_reach_sim [OF assms(1) P] by blast
  let ?a = "rn_log (cl_node c i)" and ?b = "rn_log (cl_node c j)"
  note inv = maj.reach_inv [OF s(1)]
  note di = sim_nodeD [OF simD(1) [OF s(2) assms(4)]] note dj = sim_nodeD [OF simD(1) [OF s(2) assms(5)]]
  note ci = node_ok_contiguous [OF di(1)] note cj = node_ok_contiguous [OF dj(1)]
  have k: "unat k \<le> commit s i" "unat k \<le> commit s j" using assms(7,8) di(7) dj(7) by (simp_all add: word_le_nat_alt)
  note a = maj.committed_prefixes_agree [OF inv k] note b = maj.committed_prefixes_agree(1) [OF inv k(2,1)]
  have len: "unat k \<le> length (log_entries ?a)" "unat k \<le> length (log_entries ?b)" using a(1) b di(6) dj(6) by simp_all
  have "Log_Get ?a k = Log_Get ?b k" using Log_Get_prefix [OF ci cj _ len, of k] a(2) di(6) dj(6) by simp
  moreover have "Log_Get ?a k \<noteq> None" using Log_Get_contiguous [OF ci, of k] len(1) assms(6) by (simp add: unat_gt_0)
  ultimately show ?thesis by simp
qed

theorem raft_commit_agreement_witness:
  "cluster_reach (\<lambda>_. 0) three False (committed_state (\<lambda>_. 0)) \<and> rn_commit_index (cl_node (committed_state (\<lambda>_. 0)) 3) = 1
     \<and> Log_Get (rn_log (cl_node (committed_state (\<lambda>_. 0)) 2)) 1 = Log_Get (rn_log (cl_node (committed_state (\<lambda>_. 0)) 3)) 1"
  using raft_commit_agreement [OF scenario, of 1 "\<lambda>_. 0"] by (simp add: scenario)

text \<open>
  C4. Leader Completeness. Without read-confirmation rounds, failing system calls on a node's two files, and nodes that stop inside a critical section, whatever a node has
  committed is in the log of every leader of the same or a later term, at the same index. (A voter that stops inside \<^verbatim>\<open>RewriteAll\<close> comes back with an empty log and can
  elect a leader that lacks committed entries, hence the condition.)
\<close>

theorem raft_leader_completeness:
  assumes "cluster_reach hash P False c" "distinct (map peer_node_id P)" "0 \<notin> peer_node_id ` set P" "i \<in> ids P" "j \<in> ids P"
    and "rn_state (cl_node c j) = RaftState_kLeader" "rn_current_term (cl_node c i) \<le> rn_current_term (cl_node c j)"
    and "0 < k" "k \<le> rn_commit_index (cl_node c i)"
  shows "Log_Get (rn_log (cl_node c j)) k \<noteq> None \<and> Log_Get (rn_log (cl_node c j)) k = Log_Get (rn_log (cl_node c i)) k"
proof -
  have P: "peers_ok P" using assms(2,3) by (simp add: peers_ok_def ids_def)
  obtain s where s: "raft_reach (majority_of P) s" "sim False P c s" using cluster_reach_sim [OF assms(1) P] by blast
  let ?a = "rn_log (cl_node c i)" and ?b = "rn_log (cl_node c j)"
  note di = sim_nodeD [OF simD(1) [OF s(2) assms(4)]] note dj = sim_nodeD [OF simD(1) [OF s(2) assms(5)]]
  note ci = node_ok_contiguous [OF di(1)] note cj = node_ok_contiguous [OF dj(1)]
  have inv: "vote_inv s" "cand_inv s" "leader_inv (majority_of P) s" "log_inv s" "ack_inv s" "elect_inv s" "commit_inv (majority_of P) s"
    using maj.reach_inv [OF s(1)] by (simp_all add: raft_inv_def)
  have lead: "led s (cterm s j)" "elog s j = lead_log s (cterm s j)"
    using maj.leader_invD(5) [OF inv(3), of j] maj.log_invD(5) [OF inv(4), of j] dj(3) assms(6) by (auto simp: led_def)
  have cov: "covered (majority_of P) s (cterm s i) (commit s i) (elog s i)" using inv(7) by (simp add: commit_inv_def)
  have le: "cterm s i \<le> cterm s j" using assms(7) di(4) dj(4) by (simp add: word_le_nat_alt)
  note a = maj.covered_agrees [OF inv(1-6) cov lead(1) le]
  have k: "unat k \<le> commit s i" using assms(9) di(7) by (simp add: word_le_nat_alt)
  have "take (unat k) (abs_log ?b) = take (unat k) (abs_log ?a)" using take_eq_take [OF a(1) k] lead(2) di(6) dj(6) by simp
  moreover have len: "unat k \<le> length (log_entries ?b)" "unat k \<le> length (log_entries ?a)"
    using a(2) k lead(2) dj(6) maj.covered_length [OF cov] di(6) length_abs_log [of ?a] length_abs_log [of ?b] by simp_all
  ultimately have "Log_Get ?b k = Log_Get ?a k" using Log_Get_prefix [OF cj ci _ len, of k] by simp
  moreover have "Log_Get ?b k \<noteq> None" using Log_Get_contiguous [OF cj, of k] len(1) assms(8) by (simp add: unat_gt_0)
  ultimately show ?thesis by simp
qed

theorem raft_leader_completeness_witness:
  "cluster_reach (\<lambda>_. 0) three False (committed_state (\<lambda>_. 0)) \<and> rn_commit_index (cl_node (committed_state (\<lambda>_. 0)) 3) = 1
     \<and> Log_Get (rn_log (cl_node (committed_state (\<lambda>_. 0)) 2)) 1 = Log_Get (rn_log (cl_node (committed_state (\<lambda>_. 0)) 3)) 1"
  using raft_leader_completeness [OF scenario(1-3,5,4), of "\<lambda>_. 0" 1] by (simp add: scenario)

end
