(* ===== verification/Raft_Stale_Commit.thy ===== *)
theory Raft_Stale_Commit
  imports Raft_Scenario
begin

text \<open>
  The continuation of the execution of \<^verbatim>\<open>Raft_Scenario\<close> with one read-confirmation round. \<^verbatim>\<open>ConfirmLeadershipQuorum\<close> sends the leader's
  commit index along with no entries, and \<^verbatim>\<open>HandleAppendEntries\<close> caps the commit index by the last entry of the receiver's log
  instead of the last entry the request vouches for. A node whose log still ends in an entry of a deposed leader
  then commits and applies that entry.
\<close>

definition stale1 :: "(bytes \<Rightarrow> u64) \<Rightarrow> RaftNode" where
  "stale1 hash = nd 1 RaftState_kFollower 2 0 2 1 [entry_x] (store_of hash entry_x) 1 [(2, 1), (3, 1)] [(2, 0), (3, 0)] []"

definition stale_state :: "(bytes \<Rightarrow> u64) \<Rightarrow> Cluster" where
  "stale_state hash = cl (stale1 hash) (lead2_done hash) (follow3_done hash) None None [vote2, vote1] [got2, got1]
     [(1, True, confirm_1), (3, False, commit_y), (3, False, append_y)]
     [(1, True, confirm_1, done2), (3, False, commit_y, done2), (3, False, append_y, done2)]"

lemma confirm_exec: "Confirm_request 2 peer1 (lead2_done hash) = (Some confirm_1, lead2_done hash)"
  by (simp add: Confirm_request_def map_at_def Let_def prev_log_term_at_def confirm_1_def lead2_done_def nd_def)

lemma handle_confirm: "HandleAppendEntries hash confirm_1 (lead1 [entry_x]) = Some (done2, stale1 hash)"
proof -
  have "HandleAppendEntries hash confirm_1 (lead1 [entry_x])
      = Some (done2, ApplyCommittedEntriesLocked hash (nd 1 RaftState_kFollower 2 0 2 1 [entry_x] ShardedKV_init 0 [(2, 1), (3, 1)] [(2, 0), (3, 0)] []))"
    by (simp add: HandleAppendEntries_def Let_def confirm_1_def done2_def BecomeFollowerLocked_def nd_exec Log_Get_def Log_LastIndex_def entry_x_def)
  then show ?thesis by (simp add: apply_exec entry_x_def stale1_def)
qed

lemma stale_state_reached: "cluster_reach hash three True (stale_state hash)"
proof -
  have "rn_current_term (lead2_done hash) = 2" by (simp add: lead2_done_def nd_def)
  then have s: "cluster_step hash three (Confirm 2 peer1) (committed_state hash) = Some (cl (lead1 [entry_x]) (lead2_done hash) (follow3_done hash)
      None None [vote2, vote1] [got2, got1] [(1, True, confirm_1), (3, False, commit_y), (3, False, append_y)]
      [(3, False, commit_y, done2), (3, False, append_y, done2)])"
    by (simp add: committed_state_def three_ids peer_in_three confirm_exec)
  note cluster_reach.act [OF committed_state_reached _ s, of True]
  then show ?thesis unfolding stale_state_def by (rule cluster_reach.act [of _ _ True _ "DeliverAppend 1 True confirm_1"]) (simp_all add: handle_confirm)
qed

section \<open>Properties\<close>

text \<open>
  C30. A read-confirmation round can break State Machine Safety. In a cluster of three nodes an execution exists in which nodes 1 and 2 have both
  committed index 1 with different entries there, and their stores answer a read of the same key with different values. At that
  point the leader's contact with its followers is no longer recent (500 ms on its clock), so \<^verbatim>\<open>ConfirmLeadershipQuorum\<close> does start the
  round, and the request to node 1 is the one that was delivered.
\<close>

theorem confirm_round_commits_stale_entry:
  "\<exists>c. cluster_reach hash three True c
     \<and> fst (Confirm_begin (cl_node c 2\<lparr>rn_clock := [500]\<rparr>)) = Inr 2 \<and> fst (Confirm_request 2 peer1 (cl_node c 2)) = Some confirm_1
     \<and> rn_commit_index (cl_node c 1) = 1 \<and> Log_Get (rn_log (cl_node c 1)) 1 = Some entry_x
     \<and> rn_commit_index (cl_node c 2) = 1 \<and> Log_Get (rn_log (cl_node c 2)) 1 = Some entry_y
     \<and> DurableStorage_Get hash (rn_storage (cl_node c 1)) [107] = Inr [120]
     \<and> DurableStorage_Get hash (rn_storage (cl_node c 2)) [107] = Inr [121]"
proof (intro exI conjI)
  have x: "ShardedKV_Get hash (store_of hash entry_x) [107] = Inr [120]" using store_of_get [of entry_x hash] by (simp add: entry_x_def)
  have y: "ShardedKV_Get hash (store_of hash entry_y) [107] = Inr [121]" using store_of_get [of entry_y hash] by (simp add: entry_y_def)
  show "DurableStorage_Get hash (rn_storage (cl_node (stale_state hash) 1)) [107] = Inr [120]"
    "DurableStorage_Get hash (rn_storage (cl_node (stale_state hash) 2)) [107] = Inr [121]"
    by (simp_all add: stale_state_def stale1_def lead2_done_def) (simp_all add: nd_def DurableStorage_Get_def x y)
  show "cluster_reach hash three True (stale_state hash)" by (rule stale_state_reached)
  show "fst (Confirm_begin (cl_node (stale_state hash) 2\<lparr>rn_clock := [500]\<rparr>)) = Inr 2"
    by (simp add: stale_state_def Confirm_begin_def HasRecentMajorityContactLocked_def lead2_done_def nd_def steady_clock_now_def
        three_def majority_def kHeartbeatInterval_def)
  show "fst (Confirm_request 2 peer1 (cl_node (stale_state hash) 2)) = Some confirm_1" by (simp add: stale_state_def confirm_exec)
qed (simp_all add: stale_state_def stale1_def lead2_done_def, simp_all add: nd_def Log_Get_def entry_x_def entry_y_def)

end
