(* ===== verification/Raft_Lost_Write.thy ===== *)
theory Raft_Lost_Write
  imports Raft_Scenario
begin

text \<open>
  What \<^verbatim>\<open>Propose\<close> acknowledges. It remembers the index its entry was appended at and reports success once that index is applied,
  without looking at the entry that is there by then. In the execution of \<^verbatim>\<open>Raft_Scenario\<close>, continued by the replication of the new
  leader's entry to the deposed one, the deposed leader acknowledges a write that no node has.
\<close>

definition append_commit_y :: AppendEntriesRequest where
  "append_commit_y = \<lparr>ae_term = 2, ae_leader_id = 2, ae_prev_log_index = 0, ae_prev_log_term = 0, ae_leader_commit = 1, ae_entries = [entry_y]\<rparr>"

definition catch_up :: "Action list" where
  "catch_up = [Replicate 2 peer1, DeliverAppend 1 False append_commit_y]"

definition wal_rewritten :: WalWriter where
  "wal_rewritten = wal_of [entry_y]\<lparr>ww_fsync_count := 3\<rparr>"

definition follow1 :: "u64 \<Rightarrow> ShardedKV \<Rightarrow> u64 \<Rightarrow> RaftNode" where
  "follow1 cm kv ap =
     (let n = nd 1 RaftState_kFollower 2 0 2 cm [entry_y] kv ap [(2, 1), (3, 1)] [(2, 0), (3, 0)] []
      in n\<lparr>rn_storage := (rn_storage n)\<lparr>ds_wal := wal_rewritten\<rparr>\<rparr>)"

lemma replicate1_exec: "ReplicateToPeer_begin peer1 (lead2_done hash) = (Some append_commit_y, lead2_done hash)"
  by (simp add: ReplicateToPeer_begin_def map_at_def Let_def prev_log_term_at_def Log_EntriesFrom_def append_commit_y_def
      lead2_done_def nd_def)

lemma truncate_append_exec:
  "append_loop 0 [entry_y] (\<lparr>log_entries = [entry_x]\<rparr>, wal_of [entry_x]) = Some (\<lparr>log_entries = [entry_y]\<rparr>, wal_rewritten)"
proof -
  have "EncodeWalRecord r [] \<noteq> []" for r by (simp add: EncodeWalRecord_def Let_def WriteU32BE_def)
  then show ?thesis
    by (simp add: Log_Get_def Let_def entry_x_def entry_y_def Log_TruncateFrom_def pop_from_def WalWriter_RewriteAll_def Log_Append_def
        WalWriter_Append_def WalWriter_write_def WriteAll_def write_loop_calm wal_of_def WalWriter_Sync_def Sync_enter_def
        Sync_flush_def Sync_lead_def WalWriter_FsyncNow_def record_of_entry_def WalLog_def wal_rewritten_def)
qed

lemma apply_follow1: "ApplyCommittedEntriesLocked hash (follow1 1 ShardedKV_init 0) = follow1 1 (store_of hash entry_y) 1"
proof -
  have g: "Log_Get (rn_log (follow1 1 ShardedKV_init 0)) 1 = Some entry_y"
    by (simp add: Log_Get_def follow1_def nd_def entry_y_def)
  have "ApplyCommittedEntriesLocked hash (follow1 1 ShardedKV_init 0) = ApplyCommittedEntriesLocked hash (follow1 1 (store_of hash entry_y) 1)"
    by (subst ApplyCommittedEntriesLocked.simps)
      (use g in \<open>simp add: follow1_def nd_def DurableStorage_ApplyCommitted_def store_of_def record_of_entry_def entry_y_def\<close>)
  then show ?thesis
    by (simp add: ApplyCommittedEntriesLocked.simps [of _ "follow1 1 (store_of hash entry_y) 1"]) (simp add: follow1_def nd_def)
qed

lemma handle_catch_up:
  "HandleAppendEntries hash append_commit_y (lead1 [entry_x]) = Some (done2, follow1 1 (store_of hash entry_y) 1)"
proof -
  have "HandleAppendEntries hash append_commit_y (lead1 [entry_x])
      = Some (done2, ApplyCommittedEntriesLocked hash (follow1 1 ShardedKV_init 0))"
    by (simp add: HandleAppendEntries_def Let_def append_commit_y_def done2_def BecomeFollowerLocked_def nd_exec truncate_append_exec
        follow1_def del: append_loop.simps) (simp add: Log_LastIndex_def entry_y_def)
  then show ?thesis by (simp add: apply_follow1)
qed

lemma catch_up_run:
  obtains c where "cluster_run hash three catch_up (committed_state hash) = Some c"
    "cl_node c 1 = follow1 1 (store_of hash entry_y) 1" "cl_node c 2 = lead2_done hash" "cl_node c 3 = follow3_done hash"
  by (simp add: catch_up_def committed_state_def three_ids peer_in_three replicate1_exec handle_catch_up)

section \<open>Properties\<close>

text \<open>
  C31. A write can be acknowledged and lost. In a cluster of three nodes there is an execution, without crashes, failed system calls or
  read-confirmation rounds, in which the leader appends a proposed entry at index 1, is deposed, and its \<^verbatim>\<open>Propose\<close> then reports success,
  although by then every node's log consists of another entry written by the new leader, and a read returns that entry's value.
\<close>

theorem propose_acknowledges_lost_write:
  "\<exists>c0 c1 acts c. cluster_reach hash three False c0
     \<and> cluster_step hash three (ProposeEntry 1 entry_x) c0 = Some c1 \<and> Propose_begin entry_x (cl_node c0 1) = Some (Inr 1, cl_node c1 1)
     \<and> cluster_run hash three acts c1 = Some c \<and> cluster_reach hash three False c
     \<and> Propose_wake 1 (cl_node c 1) \<and> Propose_finish 1 (cl_node c 1) = Status_Ok
     \<and> log_entries (rn_log (cl_node c 1)) = [entry_y] \<and> log_entries (rn_log (cl_node c 2)) = [entry_y]
     \<and> log_entries (rn_log (cl_node c 3)) = [entry_y] \<and> entry_y \<noteq> entry_x
     \<and> DurableStorage_Get hash (rn_storage (cl_node c 1)) (e_key entry_x) = Inr (e_value entry_y)"
proof -
  obtain c where run: "cluster_run hash three catch_up (committed_state hash) = Some c"
    and n1: "cl_node c 1 = follow1 1 (store_of hash entry_y) 1"
    and n23: "cl_node c 2 = lead2_done hash" "cl_node c 3 = follow3_done hash"
    by (rule catch_up_run)
  have reach: "cluster_reach hash three False c"
    by (rule cluster_run_reach [OF committed_state_reached run]) (simp add: catch_up_def is_confirm_def)
  have proposed: "Propose_begin entry_x (lead1 []) = Some (Inr 1, lead1 [entry_x])"
    by (simp add: propose_exec) (simp add: entry_x_def)
  have acts: "cluster_run hash three (take_over @ catch_up) (lead1_state [entry_x]) = Some c"
    by (simp add: cluster_run_append take_over_run run)
  have get: "ShardedKV_Get hash (store_of hash entry_y) [107] = Inr [121]" using store_of_get [of entry_y hash] by (simp add: entry_y_def)
  show ?thesis
    by (rule exI [of _ "lead1_state []"], rule exI [of _ "lead1_state [entry_x]"], rule exI [of _ "take_over @ catch_up"], rule exI [of _ c])
      (use lead1_reached [of hash False] propose_run [of hash] proposed acts reach n1 n23 get in
        \<open>simp del: cluster_step.simps add: follow1_def lead2_done_def follow3_done_def nd_def Propose_wake_def Propose_finish_def
          DurableStorage_Get_def entry_x_def entry_y_def\<close>)
qed

end
