(* ===== verification/Raft_Replicas.thy ===== *)
theory Raft_Replicas
  imports Raft_Safety
begin

text \<open>
  The stores of a cluster. A node's store is fed by \<^verbatim>\<open>ApplyCommittedEntriesLocked\<close> from its log up to its commit index. As long as no node runs a read-confirmation round and none
  restarts, what a store holds is the effect of a committed prefix of the log, and so the stores of all nodes go through the same sequence of maps. The theory \<open>Raft_Restart\<close>
  shows what a restart does to that.
\<close>

section \<open>How an action changes a store\<close>

abbreviation applied :: "RaftNode \<Rightarrow> u64" where
  "applied n \<equiv> ds_last_applied_index (rn_storage n)"

definition store_map :: "(bytes \<Rightarrow> u64) \<Rightarrow> RaftNode \<Rightarrow> bytes \<rightharpoonup> bytes" where
  "store_map hash n = ShardedKV_abs hash (ds_kv (rn_storage n))"

text \<open>The map that the first entries of a log make.\<close>

definition log_map :: "LogEntry list \<Rightarrow> nat \<Rightarrow> bytes \<rightharpoonup> bytes" where
  "log_map es k = fold wal_effect (map record_of_entry (take k es)) Map.empty"

definition same_store :: "RaftNode \<Rightarrow> RaftNode \<Rightarrow> bool" where
  "same_store n n' \<longleftrightarrow> ds_kv (rn_storage n') = ds_kv (rn_storage n) \<and> applied n' = applied n"

text \<open>An action leaves the store and the commit index alone, or raises the commit index or sets it to the last index, and applies entries.\<close>

definition evolves :: "(bytes \<Rightarrow> u64) \<Rightarrow> RaftNode \<Rightarrow> RaftNode \<Rightarrow> bool" where
  "evolves hash n n' \<longleftrightarrow> same_store n n' \<and> rn_commit_index n' = rn_commit_index n
     \<or> (\<exists>m. same_store n m \<and> (rn_commit_index n \<le> rn_commit_index m \<or> rn_commit_index m = Log_LastIndex (rn_log m))
          \<and> n' = ApplyCommittedEntriesLocked hash m)"

lemma evolves_keep: "rn_storage n' = rn_storage n \<Longrightarrow> rn_commit_index n' = rn_commit_index n \<Longrightarrow> evolves hash n n'"
  by (simp add: evolves_def same_store_def)

lemma evolves_refl [simp]: "evolves hash n n"
  by (simp add: evolves_keep)

lemma evolves_apply:
  "rn_storage m = (rn_storage n)\<lparr>ds_wal := wal\<rparr> \<Longrightarrow> rn_commit_index n \<le> rn_commit_index m \<or> rn_commit_index m = Log_LastIndex (rn_log m) \<Longrightarrow> evolves hash n (ApplyCommittedEntriesLocked hash m)"
  unfolding evolves_def same_store_def by (rule disjI2, rule exI [of _ m]) simp

lemma evolves_Advance:
  assumes "rn_storage m = rn_storage n" "rn_commit_index m = rn_commit_index n"
  shows "evolves hash n (AdvanceCommitIndexLocked hash m)"
proof -
  define indices where "indices = sort (Log_LastIndex (rn_log m) # map snd (rn_match_index m))"
  define c where "c = indices ! (length indices - (length indices div 2 + 1))"
  have "evolves hash n (ApplyCommittedEntriesLocked hash (m\<lparr>rn_commit_index := c\<rparr>))" if "\<not> c \<le> rn_commit_index m"
    by (rule evolves_apply [where wal = "ds_wal (rn_storage n)"]) (use assms that in auto)
  then show ?thesis
    unfolding AdvanceCommitIndexLocked_def Let_def indices_def [symmetric] c_def [symmetric]
    using evolves_keep [OF assms] by (simp split: option.split)
qed

lemma StartElection_begin_store:
  "rn_storage (snd (StartElection_begin n)) = rn_storage n \<and> rn_commit_index (snd (StartElection_begin n)) = rn_commit_index n"
  by (simp add: StartElection_begin_def Let_def)

lemma HandleRequestVote_store:
  assumes "HandleRequestVote req n = (resp, n')"
  shows "rn_storage n' = rn_storage n" "rn_commit_index n' = rn_commit_index n"
  using assms by (cases rule: HandleRequestVote_cases; simp)+

lemma HandleAppendEntries_evolves:
  assumes "HandleAppendEntries hash req n = Some (resp, n')"
  shows "evolves hash n n'"
proof -
  define n1 where "n1 = ResetElectionDeadlineLocked ((if ae_term req > rn_current_term n then BecomeFollowerLocked (ae_term req) n
      else if rn_state n = RaftState_kCandidate then n\<lparr>rn_state := RaftState_kFollower\<rparr> else n)\<lparr>rn_leader_id := ae_leader_id req\<rparr>)"
  have s: "rn_storage n1 = rn_storage n" "rn_commit_index n1 = rn_commit_index n" by (simp_all add: n1_def)
  consider "n' = n" | "n' = n1" | log wal where "n' = (let m = n1\<lparr>rn_log := log, rn_storage := (rn_storage n1)\<lparr>ds_wal := wal\<rparr>\<rparr> in
      if ae_leader_commit req > rn_commit_index m
      then ApplyCommittedEntriesLocked hash (m\<lparr>rn_commit_index := min (ae_leader_commit req) (Log_LastIndex (rn_log m))\<rparr>) else m)"
    using assms unfolding HandleAppendEntries_def Let_def n1_def [symmetric] by (auto split: if_splits option.splits)
  then show ?thesis
  proof cases
    case (3 log wal)
    show ?thesis
    proof (cases "ae_leader_commit req > rn_commit_index n")
      case True
      let ?m = "n1\<lparr>rn_log := log, rn_storage := (rn_storage n1)\<lparr>ds_wal := wal\<rparr>, rn_commit_index := min (ae_leader_commit req) (Log_LastIndex log)\<rparr>"
      have "n' = ApplyCommittedEntriesLocked hash ?m" using 3 True s by (simp add: Let_def)
      moreover have "evolves hash n (ApplyCommittedEntriesLocked hash ?m)" by (rule evolves_apply) (use s True in \<open>auto simp: min_def\<close>)
      ultimately show ?thesis by simp
    next
      case False
      then show ?thesis using 3 s by (simp add: Let_def evolves_def same_store_def)
    qed
  qed (use s evolves_keep in simp_all)
qed

lemma ReplicateToPeer_begin_store:
  "ReplicateToPeer_begin peer n = (r, n') \<Longrightarrow> rn_storage n' = rn_storage n \<and> rn_commit_index n' = rn_commit_index n"
  by (auto simp: ReplicateToPeer_begin_def Let_def split: if_splits prod.splits)

lemma Confirm_request_store:
  "Confirm_request t peer n = (r, n') \<Longrightarrow> rn_storage n' = rn_storage n \<and> rn_commit_index n' = rn_commit_index n"
  by (auto simp: Confirm_request_def Let_def split: if_splits prod.splits)

lemma Confirm_reply_store:
  "rn_storage (snd (Confirm_reply t peer resp k n)) = rn_storage n \<and> rn_commit_index (snd (Confirm_reply t peer resp k n)) = rn_commit_index n"
  by (simp add: Confirm_reply_def case_prod_unfold Let_def)

lemma StartElection_reply_store:
  "StartElection_reply t resp votes n = (r, n') \<Longrightarrow> rn_storage n' = rn_storage n \<and> rn_commit_index n' = rn_commit_index n"
  by (auto simp: StartElection_reply_def split: if_splits)

lemma StartElection_finish_store:
  "rn_storage (StartElection_finish t votes n) = rn_storage n \<and> rn_commit_index (StartElection_finish t votes n) = rn_commit_index n"
  by (simp add: StartElection_finish_def BecomeLeaderLocked_def Let_def case_prod_unfold)

lemma Propose_begin_evolves:
  assumes "Propose_begin entry n = Some (r, n')"
  shows "evolves hash n n'"
  using assms by (auto simp: Propose_begin_def Let_def evolves_def same_store_def split: if_splits option.splits)

lemma ReplicateToPeer_finish_evolves: "evolves hash n (ReplicateToPeer_finish hash peer req resp n)"
  unfolding ReplicateToPeer_finish_def Let_def case_prod_unfold by (simp add: evolves_Advance evolves_keep)

definition is_restart :: "Action \<Rightarrow> bool" where
  "is_restart a \<longleftrightarrow> (case a of Restart _ _ _ _ _ \<Rightarrow> True | _ \<Rightarrow> False)"

lemma node_of_set_node [simp]:
  "cl_node (set_node i n c) j = (if j = i then n else cl_node c j)" "cl_node (set_election i e c) = cl_node c"
  by (simp_all add: set_node_def set_election_def)

lemma step_evolves:
  assumes "cluster_step hash P a c = Some c'" "\<not> is_restart a"
  shows "evolves hash (cl_node c i) (cl_node c' i)"
proof (cases a)
  case (ElectionTimeout j)
  then show ?thesis
    using assms(1) StartElection_begin_store [of "cl_node c j"] by (auto simp: evolves_keep split: if_splits prod.splits)
next
  case (DeliverVote j req)
  then show ?thesis using assms(1) HandleRequestVote_store by (fastforce intro: evolves_keep split: if_splits prod.splits)
next
  case (VoteReply j resp)
  then obtain req peer rest votes where e: "cl_election c j = Some (req, peer # rest, votes)"
    using assms(1) by (auto split: option.splits list.splits)
  obtain r n where n: "StartElection_reply (rv_term req) resp votes (cl_node c j) = (r, n)" by fastforce
  then have "evolves hash (cl_node c j) n" using StartElection_reply_store evolves_keep by blast
  then show ?thesis using assms(1) VoteReply e n by (auto split: if_splits option.splits)
next
  case (VoteLost j)
  then show ?thesis using assms(1) by (auto split: option.splits list.splits)
next
  case (ElectionEnd j)
  then show ?thesis using assms(1) StartElection_finish_store by (auto simp: evolves_keep split: option.splits list.splits)
next
  case (ProposeEntry j e)
  then show ?thesis using assms(1) Propose_begin_evolves by (fastforce split: if_splits option.splits prod.splits)
next
  case (Replicate j peer)
  then show ?thesis
    using assms(1) ReplicateToPeer_begin_store by (fastforce intro: evolves_keep split: if_splits option.splits prod.splits)
next
  case (Confirm j peer)
  then show ?thesis using assms(1) Confirm_request_store by (fastforce intro: evolves_keep split: if_splits option.splits prod.splits)
next
  case (DeliverAppend j k req)
  then show ?thesis using assms(1) HandleAppendEntries_evolves by (fastforce split: if_splits option.splits prod.splits)
next
  case (AppendReply peer req resp)
  then show ?thesis using assms(1) ReplicateToPeer_finish_evolves by (auto split: if_splits)
next
  case (ConfirmReply peer req resp)
  then show ?thesis using assms(1) Confirm_reply_store by (auto simp: evolves_keep split: if_splits)
next
  case (Restart j os os' clock rng)
  then show ?thesis using assms(2) by (simp add: is_restart_def)
qed

section \<open>A store is the effect of a committed prefix\<close>

definition store_inv :: "(bytes \<Rightarrow> u64) \<Rightarrow> RaftNode \<Rightarrow> bool" where
  "store_inv hash n \<longleftrightarrow> ShardedKV_inv hash (ds_kv (rn_storage n)) \<and> applied n \<le> rn_commit_index n
     \<and> store_map hash n = log_map (log_entries (rn_log n)) (unat (applied n))"

lemma log_map_Suc: "k < length es \<Longrightarrow> log_map es (Suc k) = wal_effect (record_of_entry (es ! k)) (log_map es k)"
  by (simp add: log_map_def take_Suc_conv_app_nth)

lemma ApplyCommitted_store_inv:
  assumes "store_inv hash n" "contiguous (log_entries (rn_log n))" "unat (rn_commit_index n) \<le> length (log_entries (rn_log n))"
  shows "store_inv hash (ApplyCommittedEntriesLocked hash n)"
  using assms
proof (induction hash n rule: ApplyCommittedEntriesLocked.induct)
  case (1 hash n)
  show ?case
  proof (cases "applied n < rn_commit_index n")
    case True
    let ?L = "log_entries (rn_log n)" and ?k = "unat (applied n)"
    have "?k < unat (rn_commit_index n)" using True by (simp add: word_less_nat_alt)
    moreover have "unat (w :: u64) < 2 ^ 64" for w using unsigned_less [of w] by simp
    ultimately have "?k < unat (rn_commit_index n)" "unat (applied n + 1) = Suc ?k"
      using le_less_trans [of "Suc ?k" "unat (rn_commit_index n)" "2 ^ 64"] by (simp_all add: unat_word_ariths)
    then have k: "unat (applied n + 1) = Suc ?k" "?k < length ?L" "applied n + 1 \<le> rn_commit_index n"
      using "1.prems"(3) by (simp_all add: word_le_nat_alt)
    then have get: "Log_Get (rn_log n) (applied n + 1) = Some (?L ! ?k)" using Log_Get_contiguous [OF "1.prems"(2)] by simp
    have i: "e_index (?L ! ?k) = applied n + 1" using Log_Get_index [OF get] .
    let ?m = "n\<lparr>rn_storage := DurableStorage_ApplyCommitted hash (rn_storage n) (record_of_entry (?L ! ?k))\<rparr>"
    have kv: "ShardedKV_inv hash (ds_kv (rn_storage n))" "store_map hash n = log_map ?L ?k" using "1.prems"(1) by (simp_all add: store_inv_def)
    have "store_inv hash ?m"
      using k i sharded.apply_record_refines [OF kv(1), of "record_of_entry (?L ! ?k)"] kv(2)
      by (simp add: store_inv_def store_map_def DurableStorage_ApplyCommitted_def log_map_Suc record_of_entry_def)
    from "1.IH" [OF True get this] "1.prems"(2,3) show ?thesis using True get by (simp add: ApplyCommittedEntriesLocked.simps [of hash n])
  qed (use "1.prems" in \<open>simp add: ApplyCommittedEntriesLocked.simps [of hash n]\<close>)
qed

lemma log_map_take: "k \<le> c \<Longrightarrow> take c es = take c es' \<Longrightarrow> log_map es k = log_map es' k"
  using take_eq_take [of c es es' k] by (simp add: log_map_def)

text \<open>Equal abstract prefixes of contiguous logs are equal.\<close>

lemma abs_log_prefix:
  assumes "contiguous (log_entries a)" "contiguous (log_entries b)" "take k (abs_log a) = take k (abs_log b)"
    "k \<le> length (log_entries a)" "k \<le> length (log_entries b)"
  shows "take k (log_entries a) = take k (log_entries b)"
proof (rule nth_equalityI)
  fix j
  assume "j < length (take k (log_entries a))"
  then have j: "j < k" "j < length (log_entries a)" "j < length (log_entries b)" using assms(4,5) by auto
  then have "abs_log a ! j = abs_log b ! j" using assms(3) by (metis nth_take)
  then have "log_entries a ! j = log_entries b ! j" using entry_eqI [OF assms(1,2) j(2,3)] j by (simp add: abs_log_def)
  then show "take k (log_entries a) ! j = take k (log_entries b) ! j" using j by simp
qed (use assms(4,5) in simp)

lemma step_store_inv:
  assumes sim: "sim False P c s" "sim False P c' s'" and steps: "raft_steps (majority_of P) s s'" and inv: "raft_inv (majority_of P) s"
    and i: "i \<in> ids P" and ev: "evolves hash (cl_node c i) (cl_node c' i)" and st: "store_inv hash (cl_node c i)"
  shows "store_inv hash (cl_node c' i)"
proof -
  let ?n = "cl_node c i" and ?n' = "cl_node c' i"
  note d = sim_nodeD [OF simD(1) [OF sim(1) i]] and d' = sim_nodeD [OF simD(1) [OF sim(2) i]]
  note cc = node_ok_contiguous [OF d(1)] node_ok_contiguous [OF d'(1)]
  have com: "commit s i = unat (rn_commit_index ?n)" "commit s' i = unat (rn_commit_index ?n')" using d(7) d'(7) by simp_all
  have "raft_inv (majority_of P) s'" using maj.raft_inv_steps [OF steps inv] .
  from maj.committed_prefixes_agree(1) [OF this order_refl [of "commit s' i"] order_refl]
  have len': "unat (rn_commit_index ?n') \<le> length (log_entries (rn_log ?n'))" using com(2) d'(6) by simp
  let ?c = "unat (rn_commit_index ?n)"
  have stays: "?c \<le> length (elog s' i) \<and> take ?c (elog s' i) = take ?c (elog s i)"
    using maj.committed_prefix_stays [OF steps inv] com(1) by simp
  then have lc: "?c \<le> length (log_entries (rn_log ?n'))" using d'(6) by simp
  have "?c \<le> length (log_entries (rn_log ?n))" using maj.committed_prefixes_agree(1) [OF inv, of ?c i i] com(1) d(6) by simp
  from abs_log_prefix [OF cc _ this lc] have pre: "take ?c (log_entries (rn_log ?n)) = take ?c (log_entries (rn_log ?n'))" using stays d(6) d'(6) by simp
  have ap: "unat (applied ?n) \<le> ?c" using st by (simp add: store_inv_def word_le_nat_alt)
  have m: "store_inv hash m" if "same_store ?n m" "rn_log m = rn_log ?n'" "rn_commit_index ?n \<le> rn_commit_index m" for m
    using st that log_map_take [OF ap pre] by (auto simp: store_inv_def same_store_def store_map_def)
  from ev consider (same) "same_store ?n ?n'" "rn_commit_index ?n' = rn_commit_index ?n"
    | (raised) m' where "same_store ?n m'" "rn_commit_index ?n \<le> rn_commit_index m' \<or> rn_commit_index m' = Log_LastIndex (rn_log m')"
      "?n' = ApplyCommittedEntriesLocked hash m'" unfolding evolves_def by blast
  then show ?thesis
  proof cases
    case same
    then show ?thesis using m by simp
  next
    case h: (raised m')
    have f: "rn_log ?n' = rn_log m'" "rn_commit_index ?n' = rn_commit_index m'" unfolding h(3) by simp_all
    have "unat (Log_LastIndex (rn_log m')) = length (log_entries (rn_log m'))" using Log_LastIndex_contiguous cc(2) f(1) by metis
    then have "rn_commit_index ?n \<le> rn_commit_index m'" using h(2) lc f(1) by (auto simp: word_le_nat_alt)
    then have "store_inv hash m'" using m [of m'] h(1) f(1) by simp
    then show ?thesis using ApplyCommitted_store_inv [of hash m'] cc(2) len' f unfolding h(3) by simp
  qed
qed
text \<open>Starting a node copies its storage, and an empty write-ahead log gives the empty map.\<close>

lemma LoadPersistedState_store [simp]: "rn_storage (snd (LoadPersistedState n)) = rn_storage n"
  by (auto simp: LoadPersistedState_def Let_def split: option.splits prod.splits if_splits)

lemma RaftNode_new_store:
  "ds_kv (rn_storage (RaftNode_new i config st file os clock rng)) = ds_kv st"
  "applied (RaftNode_new i config st file os clock rng) = ds_last_applied_index st"
  unfolding RaftNode_new_def Let_def by (simp_all add: case_prod_unfold)

lemma recovered_storage:
  assumes "list_all WalRecordValid rs" "calm os"
  shows "ShardedKV_inv hash (ds_kv (DurableStorage_new hash dir (WalLog rs) os))"
    "ShardedKV_abs hash (ds_kv (DurableStorage_new hash dir (WalLog rs) os)) = fold wal_effect rs Map.empty"
    "ds_last_applied_index (DurableStorage_new hash dir (WalLog rs) os) = last_wal_index 0 rs"
proof -
  obtain st where st: "DurableStorage_Open hash dir (WalLog rs) os = Inr st"
    "ShardedKV_inv hash (ds_kv st)" "ShardedKV_abs hash (ds_kv st) = fold wal_effect rs Map.empty" "ds_last_applied_index st = last_wal_index 0 rs"
    by (rule DurableStorage_Open_log [of rs "[]" "WalLog rs" os hash dir]) (use assms in \<open>simp_all add: list_all_iff\<close>)
  moreover have "st = DurableStorage_new hash dir (WalLog rs) os"
    using st(1) by (simp add: DurableStorage_Open_def Let_def split: if_splits)
  ultimately show "ShardedKV_inv hash (ds_kv (DurableStorage_new hash dir (WalLog rs) os))"
    "ShardedKV_abs hash (ds_kv (DurableStorage_new hash dir (WalLog rs) os)) = fold wal_effect rs Map.empty"
    "ds_last_applied_index (DurableStorage_new hash dir (WalLog rs) os) = last_wal_index 0 rs" by simp_all
qed

lemma start_store_inv:
  assumes "cluster_init hash P c" "i \<in> ids P"
  shows "store_inv hash (cl_node c i)"
proof -
  obtain config dir os os' clock rng where h: "calm os"
    "cl_node c i = RaftNode_new i config (DurableStorage_new hash dir [] os) None os' clock rng"
    using assms unfolding cluster_init_def by blast
  have w: "WalLog [] = []" by (simp add: WalLog_def)
  note st = recovered_storage [of "[]", OF _ h(1), simplified w, simplified]
  show ?thesis
    using st unfolding store_inv_def store_map_def h(2) RaftNode_new_store by (simp add: last_wal_index_def log_map_def)
qed

lemma run_store_inv:
  assumes "cluster_run hash P acts c = Some c'" "list_all (\<lambda>a. \<not> is_confirm a \<and> \<not> is_restart a) acts" "peers_ok P"
    and "sim False P c s" "raft_inv (majority_of P) s" "\<forall>i \<in> ids P. store_inv hash (cl_node c i)"
  shows "\<exists>s'. raft_inv (majority_of P) s' \<and> sim False P c' s' \<and> (\<forall>i \<in> ids P. store_inv hash (cl_node c' i))"
  using assms
proof (induction acts arbitrary: c s)
  case (Cons a acts)
  obtain d where d: "cluster_step hash P a c = Some d" "cluster_run hash P acts d = Some c'" using Cons.prems(1) by (auto split: option.splits)
  have a: "\<not> is_confirm a" "\<not> is_restart a" using Cons.prems(2) by simp_all
  obtain t where t: "raft_steps (majority_of P) s t" "sim False P d t"
    using sim_step [OF Cons.prems(4,5,3) _ d(1)] a(1) by blast
  have st: "\<forall>i \<in> ids P. store_inv hash (cl_node d i)"
  proof
    fix i
    assume i: "i \<in> ids P"
    show "store_inv hash (cl_node d i)"
      by (rule step_store_inv [OF Cons.prems(4) t(2,1) Cons.prems(5) i step_evolves [OF d(1) a(2)]]) (use Cons.prems(6) i in simp)
  qed
  have "list_all (\<lambda>a. \<not> is_confirm a \<and> \<not> is_restart a) acts" using Cons.prems(2) by simp
  then show ?case by (rule Cons.IH [OF d(2) _ Cons.prems(3) t(2) maj.raft_inv_steps [OF t(1) Cons.prems(5)] st])
qed auto

section \<open>Properties\<close>

text \<open>
  C6. The stores of a cluster agree. In a run from the start in which no node restarts and none runs a read-confirmation round, the store of
  every node is the map made by the entries it has applied, in log order, and of two nodes the one that has applied less holds
  exactly the map that the other one held after as many entries: its store is the effect of that prefix of the other's log. In particular two
  nodes that have applied equally many entries hold the same map.
\<close>

theorem replica_stores_agree:
  assumes "cluster_init hash P c0" "cluster_run hash P acts c0 = Some c" "list_all (\<lambda>a. \<not> is_confirm a \<and> \<not> is_restart a) acts"
    and "distinct (map peer_node_id P)" "0 \<notin> peer_node_id ` set P" "i \<in> ids P" "j \<in> ids P" "applied (cl_node c i) \<le> applied (cl_node c j)"
  shows "store_map hash (cl_node c i) = log_map (log_entries (rn_log (cl_node c j))) (unat (applied (cl_node c i)))
     \<and> store_map hash (cl_node c j) = log_map (log_entries (rn_log (cl_node c j))) (unat (applied (cl_node c j)))"
proof -
  have P: "peers_ok P" using assms(4,5) by (simp add: peers_ok_def ids_def)
  have "\<forall>i \<in> ids P. store_inv hash (cl_node c0 i)" using start_store_inv [OF assms(1)] by simp
  from run_store_inv [OF assms(2,3) P sim_start [OF assms(1)] maj.reach_inv [OF raft_reach.init] this]
  obtain s where s: "raft_inv (majority_of P) s" "sim False P c s" "\<forall>i \<in> ids P. store_inv hash (cl_node c i)" by (elim exE conjE)
  have st: "store_inv hash (cl_node c i)" "store_inv hash (cl_node c j)" using s(3) assms(6,7) by simp_all
  let ?k = "unat (applied (cl_node c i))"
  note di = sim_nodeD [OF simD(1) [OF s(2) assms(6)]] and dj = sim_nodeD [OF simD(1) [OF s(2) assms(7)]]
  have k: "?k \<le> commit s i" "?k \<le> commit s j"
    using st assms(8) di(7) dj(7) by (simp_all add: store_inv_def word_le_nat_alt)
  note agree = maj.committed_prefixes_agree [OF s(1) k] maj.committed_prefixes_agree(1) [OF s(1) k(2,1)]
  have pre: "take ?k (log_entries (rn_log (cl_node c i))) = take ?k (log_entries (rn_log (cl_node c j)))"
    by (rule abs_log_prefix [OF node_ok_contiguous [OF di(1)] node_ok_contiguous [OF dj(1)]]) (use agree di(6) dj(6) in simp_all)
  show ?thesis using st log_map_take [OF order_refl pre] unfolding store_inv_def by simp
qed
theorem replica_stores_agree_witness:
  "applied (cl_node (committed_state (\<lambda>_. 0)) 2) = 1
     \<and> store_map (\<lambda>_. 0) (cl_node (committed_state (\<lambda>_. 0)) 3) = log_map [entry_y] 1
     \<and> store_map (\<lambda>_. 0) (cl_node (committed_state (\<lambda>_. 0)) 2) = log_map [entry_y] 1"
proof -
  have acts: "list_all (\<lambda>a. \<not> is_confirm a \<and> \<not> is_restart a) (elect1 @ ProposeEntry 1 entry_x # take_over)"
    by (simp add: elect1_def take_over_def is_confirm_def is_restart_def)
  have "applied (cl_node (committed_state h) 2) = 1" "applied (cl_node (committed_state h) 3) = 1"
    "log_entries (rn_log (cl_node (committed_state h) 2)) = [entry_y]" for h
    by (simp_all add: committed_state_def lead2_done_def follow3_done_def) (simp_all add: nd_def)
  then show ?thesis
    using replica_stores_agree [OF init_state_init init_state_run acts three_peers(1,2,4,3), of "\<lambda>_. 0"] by simp
qed

end
