(* ===== verification/Raft_Restart.thy ===== *)
theory Raft_Restart
  imports Raft_Replicas Raft_Lost_Write
begin

text \<open>
  What a restart does to a store. The write-ahead log that \<^verbatim>\<open>DurableStorage\<close> replays when it is constructed is the Raft log of the
  node, with the entries that are not committed in it. The recovered store has them applied, and the applied index is the last index of the
  log, although the node's commit index starts from zero. When such an entry is replaced later, the entry that replaces it is never applied.
\<close>

section \<open>The store of a restarted node\<close>

lemma last_log_index:
  assumes "contiguous (log_entries log)"
  shows "unat (last_wal_index 0 (map record_of_entry (log_entries log))) = length (log_entries log)"
  using assms by (auto simp: last_wal_index_def last_map record_of_entry_def contiguous_def last_conv_nth)

lemma restart_applies_log:
  assumes ok: "node_ok i P n" and os: "calm os"
    and n': "n' = RaftNode_new i config (DurableStorage_new hash dir (ww_disk (ds_wal (rn_storage n))) os) file os' clock rng"
  shows "ShardedKV_inv hash (ds_kv (rn_storage n'))" "store_map hash n' = log_map (log_entries (rn_log n)) (length (log_entries (rn_log n)))"
    "unat (applied n') = length (log_entries (rn_log n))"
proof -
  let ?rs = "map record_of_entry (log_entries (rn_log n))"
  have l: "contiguous (log_entries (rn_log n))" "list_all WalRecordValid ?rs" "ww_disk (ds_wal (rn_storage n)) = WalLog ?rs"
    using ok by (auto simp: node_ok_def Log_inv_def wal_in_step_def list_all_iff EntryValid_def)
  note st = recovered_storage [OF l(2) os, of hash dir, folded l(3)]
  show "ShardedKV_inv hash (ds_kv (rn_storage n'))" "store_map hash n' = log_map (log_entries (rn_log n)) (length (log_entries (rn_log n)))"
    using st(1,2) unfolding n' store_map_def RaftNode_new_store by (simp_all add: log_map_def)
  show "unat (applied n') = length (log_entries (rn_log n))"
    using st(3) last_log_index [OF l(1)] unfolding n' RaftNode_new_store by simp
qed

section \<open>An execution with a restart\<close>

lemma lead1_x_reached: "cluster_reach hash three False (lead1_state [entry_x])"
  by (rule cluster_reach.act [OF lead1_reached _ propose_run]) (simp add: is_confirm_def)

lemma take_over_any:
  "cluster_run hash three take_over (cl n1 (nd0 2 RaftState_kFollower 1 1 0 [] [] []) (start 3) None None [vote1] [got1] [] [])
     = Some (cl n1 (lead2_done hash) (follow3_done hash) None None [vote2, vote1] [got2, got1]
         [(3, False, commit_y), (3, False, append_y)] [(3, False, commit_y, done2), (3, False, append_y, done2)])"
  by (simp add: take_over_def second_leader replication del: cluster_step.simps One_nat_def)

lemma first_append_accepted:
  "HandleAppendEntries hash req n = Some (resp, n') \<Longrightarrow> ae_prev_log_index req = 0 \<Longrightarrow> rn_current_term n \<le> ae_term req \<Longrightarrow> aer_success resp"
  by (auto simp: HandleAppendEntries_def Let_def split: if_splits option.splits)

lemma replaced_entry_not_applied:
  assumes "node_ok 1 three n" "log_entries (rn_log n) = [entry_x]" "rn_current_term n = 1" "rn_commit_index n = 0" "applied n = 1"
  obtains n' where "HandleAppendEntries hash append_commit_y n = Some (done2, n')" "log_entries (rn_log n') = [entry_y]" "rn_commit_index n' = 1"
    "ds_kv (rn_storage n') = ds_kv (rn_storage n)" "applied n' = 1"
proof -
  have r: "ae_term append_commit_y = 2" "ae_prev_log_index append_commit_y = 0" "ae_entries append_commit_y = [entry_y]"
    "ae_leader_commit append_commit_y = 1" by (simp_all add: append_commit_y_def)
  have v: "list_all EntryValid (ae_entries append_commit_y)"
    by (simp add: r EntryValid_def record_of_entry_def WalRecordValid_def kMaxFieldSize_def entry_y_def)
  have b: "unat (ae_prev_log_index append_commit_y) + length (ae_entries append_commit_y) < 2 ^ 64" by (simp add: r)
  from assms(1) v b show thesis
  proof (cases rule: HandleAppendEntries_cases [where hash = hash])
    case stale
    then show ?thesis using assms(3) r by simp
  next
    case mismatch
    then show ?thesis using first_append_accepted [OF mismatch(2) r(2)] assms(3) r by simp
  next
    case (accepted log wal n')
    have "abs_log log = abs_log \<lparr>log_entries = [entry_y]\<rparr>"
      using accepted(6) assms(2) by (simp add: r abs_log_def abs_entry_def entry_x_def entry_y_def)
    moreover have "contiguous (log_entries log)" "contiguous [entry_y]" using accepted(4) by (simp_all add: Log_inv_def contiguous_def entry_y_def)
    moreover have "length (log_entries log) = 1" using calculation(1) by (metis One_nat_def abs_log_def length_map list.size(3,4) Log.select_convs(1) add_0)
    ultimately have log: "log_entries log = [entry_y]" using abs_log_prefix [of log "\<lparr>log_entries = [entry_y]\<rparr>" 1] by simp
    let ?m = "n'\<lparr>rn_commit_index := 1\<rparr>"
    have m: "ApplyCommittedEntriesLocked hash ?m = ?m"
      by (subst ApplyCommittedEntriesLocked.simps) (use assms(5) accepted(7) in simp)
    have "Log_LastIndex log = 1" using log by (simp add: Log_LastIndex_def entry_y_def)
    then have "HandleAppendEntries hash append_commit_y n = Some (done2, ?m)"
      using accepted(8) assms(4) m by (simp add: r done2_def)
    then show ?thesis by (rule that) (use log assms(5) accepted(7) in simp_all)
  qed
qed

lemma others_done:
  "log_entries (rn_log (lead2_done hash)) = [entry_y]" "rn_commit_index (lead2_done hash) = 1" "applied (lead2_done hash) = 1"
  "ds_kv (rn_storage (lead2_done hash)) = store_of hash entry_y"
  "log_entries (rn_log (follow3_done hash)) = [entry_y]" "rn_commit_index (follow3_done hash) = 1" "applied (follow3_done hash) = 1"
  "ds_kv (rn_storage (follow3_done hash)) = store_of hash entry_y"
  by (simp_all add: lead2_done_def follow3_done_def) (simp_all add: nd_def)

section \<open>Properties\<close>

text \<open>
  C32. A restart can make the stores of a cluster differ for good. In a cluster of three nodes there is an execution, without failed system calls
  or read-confirmation rounds, in which node 1 restarts with an uncommitted entry in its log, and the entry is replaced afterwards by the
  one a new leader committed. At the end all three nodes have the same log, have committed it and count it as applied, and yet a
  read on node 1 returns the value of the entry that was never committed while a read on the other two returns the committed one.
\<close>

theorem restart_applies_uncommitted_entry:
  "\<exists>c0 c1 acts c. cluster_reach hash three False c0 \<and> cluster_step hash three (Restart 1 [] [] [] []) c0 = Some c1
     \<and> cluster_run hash three acts c1 = Some c \<and> list_all (\<lambda>a. \<not> is_confirm a \<and> \<not> is_restart a) acts
     \<and> log_entries (rn_log (cl_node c1 1)) = [entry_x] \<and> rn_commit_index (cl_node c1 1) = 0
     \<and> log_entries (rn_log (cl_node c 1)) = [entry_y] \<and> rn_commit_index (cl_node c 1) = 1 \<and> applied (cl_node c 1) = 1
     \<and> log_entries (rn_log (cl_node c 2)) = [entry_y] \<and> rn_commit_index (cl_node c 2) = 1 \<and> applied (cl_node c 2) = 1
     \<and> log_entries (rn_log (cl_node c 3)) = [entry_y] \<and> rn_commit_index (cl_node c 3) = 1 \<and> applied (cl_node c 3) = 1
     \<and> DurableStorage_Get hash (rn_storage (cl_node c 1)) (e_key entry_y) = Inr (e_value entry_x)
     \<and> DurableStorage_Get hash (rn_storage (cl_node c 2)) (e_key entry_y) = Inr (e_value entry_y)
     \<and> DurableStorage_Get hash (rn_storage (cl_node c 3)) (e_key entry_y) = Inr (e_value entry_y) \<and> e_value entry_x \<noteq> e_value entry_y"
proof -
  have "peers_ok three" using three_peers by (simp add: peers_ok_def ids_def)
  from cluster_reach_sim [OF lead1_x_reached this] obtain s where s: "sim False three (lead1_state [entry_x]) s" by blast
  have ok: "node_ok 1 three (lead1 [entry_x])" using sim_nodeD(1) [OF simD(1) [OF s, of 1]] by (simp add: three_ids)
  define n where "n = RaftNode_new 1 (rn_config (lead1 [entry_x]))
      (DurableStorage_new hash (ds_data_dir (rn_storage (lead1 [entry_x]))) (ww_disk (ds_wal (rn_storage (lead1 [entry_x])))) [])
      (rn_state_disk (lead1 [entry_x])) [] [] []"
  have x: "log_entries (rn_log (lead1 [entry_x])) = [entry_x]" "rn_current_term (lead1 [entry_x]) = 1" "cfg_peers (rn_config (lead1 [entry_x])) = three"
    by (simp_all add: nd_def)
  note r = restart_node [OF ok calm_Nil calm_Nil x(3) n_def] and a = restart_applies_log [OF ok calm_Nil n_def]
  have ap: "applied n = 1" using a(3) x(1) by (simp add: word_unat_eq_iff)
  obtain n' where h: "HandleAppendEntries hash append_commit_y n = Some (done2, n')" "log_entries (rn_log n') = [entry_y]"
    "rn_commit_index n' = 1" "ds_kv (rn_storage n') = ds_kv (rn_storage n)" "applied n' = 1"
    by (rule replaced_entry_not_applied [OF r(1) _ _ r(6) ap]) (use r(2,3) x in simp_all)
  define c1 where "c1 = cl n (nd0 2 RaftState_kFollower 1 1 0 [] [] []) (start 3) None None [vote1] [got1] [] []"
  have restart: "cluster_step hash three (Restart 1 [] [] [] []) (lead1_state [entry_x]) = Some c1"
    by (simp add: three_ids c1_def n_def Let_def)
  obtain c where run: "cluster_run hash three (take_over @ catch_up) c1 = Some c" "cl_node c 1 = n'" "cl_node c 2 = lead2_done hash"
    "cl_node c 3 = follow3_done hash"
    by (simp add: cluster_run_append c1_def take_over_any catch_up_def three_ids peer_in_three replicate1_exec h(1))
  have "ShardedKV_abs hash (ds_kv (rn_storage n')) [107] = Some [120]"
    using a(2) x(1) h(4) by (simp add: store_map_def log_map_def wal_effect_def record_of_entry_def entry_x_def)
  then have g1: "ShardedKV_Get hash (ds_kv (rn_storage n')) [107] = Inr [120]" using a(1) h(4) by (simp add: sharded.get_result)
  have g2: "ShardedKV_Get hash (store_of hash entry_y) [107] = Inr [121]" using store_of_get [of entry_y hash] by (simp add: entry_y_def)
  have acts: "list_all (\<lambda>a. \<not> is_confirm a \<and> \<not> is_restart a) (take_over @ catch_up)"
    by (simp add: take_over_def catch_up_def is_confirm_def is_restart_def)
  have n1: "log_entries (rn_log (cl_node c1 1)) = [entry_x]" "rn_commit_index (cl_node c1 1) = 0" using r(2,6) x(1) by (simp_all add: c1_def)
  have e: "e_key entry_y = [107]" "e_value entry_x = [120]" "e_value entry_y = [121]" by (simp_all add: entry_x_def entry_y_def)
  show ?thesis
    by (rule exI [of _ "lead1_state [entry_x]"], rule exI [of _ c1], rule exI [of _ "take_over @ catch_up"], rule exI [of _ c])
      (use lead1_x_reached restart run acts n1 others_done h(2,3,5) g1 g2 in \<open>simp del: cluster_step.simps add: DurableStorage_Get_def e\<close>)
qed

end
