(* ===== verification/Net_Connection.thy ===== *)
theory Net_Connection
  imports Protocol_Codec
begin

text \<open>
  \<^verbatim>\<open>net/connection.{h,cpp}\<close>: the state machine of a non-blocking connection. The request handler is a parameter: a pair of
  functions on a state of any type, \<open>None\<close> for a call that never returns. The descriptor is a list of the outcomes its next
  reads (or writes) will have; a read or write beyond the list finds the descriptor not ready.
\<close>

section \<open>Handler and descriptor\<close>

record 's Handler =
  hd_handle :: "'s \<Rightarrow> ClientRequest \<Rightarrow> (ClientResponse \<times> 's) option"
  hd_cluster :: "'s \<Rightarrow> ClusterRequest \<Rightarrow> (ClusterResponse \<times> 's) option"

datatype recv =
    RecvBytes bytes    \<comment> \<open>this many bytes; none at the end of the stream\<close>
  | RecvIntr
  | RecvAgain
  | RecvErr string

datatype send =
    SendShort nat      \<comment> \<open>accepts at most \<open>Suc n\<close> bytes\<close>
  | SendIntr
  | SendAgain
  | SendErr string

section \<open>The connection\<close>

record Connection =
  conn_read_buffer :: bytes
  conn_write_buffer :: bytes
  conn_closed :: bool

definition Connection_new :: Connection where
  "Connection_new = \<lparr>conn_read_buffer = [], conn_write_buffer = [], conn_closed = False\<rparr>"

definition MarkClosed :: "Connection \<Rightarrow> Connection" where
  "MarkClosed conn = conn\<lparr>conn_closed := True\<rparr>"

definition write_pending :: "Connection \<Rightarrow> bool" where
  "write_pending conn \<longleftrightarrow> conn_write_buffer conn \<noteq> []"

text \<open>
  The part of \<^verbatim>\<open>ProcessFrames\<close> between a complete frame and its encoded response, which \<^verbatim>\<open>ServeClientSession\<close> has too. No bytes: the
  connection has to be closed.
\<close>

fun answer_frame :: "'s Handler \<Rightarrow> 's \<Rightarrow> Frame \<Rightarrow> (bytes option \<times> 's) option" where
  "answer_frame hnd s (Frame_ClientRequest req) =
     (case hd_handle hnd s req of
        None \<Rightarrow> None
      | Some (resp, s) \<Rightarrow> Some (case EncodeClientResponse resp of Inl _ \<Rightarrow> None | Inr encoded \<Rightarrow> Some encoded, s))"
| "answer_frame hnd s (Frame_ClusterRequest req) =
     (case hd_cluster hnd s req of
        None \<Rightarrow> None
      | Some (resp, s) \<Rightarrow> Some (case EncodeClusterResponse resp of Inl _ \<Rightarrow> None | Inr encoded \<Rightarrow> Some encoded, s))"
| "answer_frame hnd s (Frame_ClientResponse _) = Some (None, s)"
| "answer_frame hnd s (Frame_ClusterResponse _) = Some (None, s)"

lemma TryParseFrame_shrinks:
  assumes "TryParseFrame buffer = (ParseResult_kComplete, rest, f)"
  shows "length rest < length buffer" "f \<noteq> None"
proof -
  show f: "f \<noteq> None" using assms by (cases f) (auto simp: TryParseFrame_def Let_def split: if_splits option.splits)
  then obtain fr where fr: "f = Some fr" by blast
  then obtain out where out: "EncodeFrame fr = Inr out" "buffer = out @ rest" using TryParseFrame_complete assms by blast
  then have "0 < length out" by (auto simp: EncodeFrame_eq)
  then show "length rest < length buffer" using out(2) by simp
qed

function ProcessFrames :: "'s Handler \<Rightarrow> Connection \<Rightarrow> 's \<Rightarrow> (Connection \<times> 's) option" where
  "ProcessFrames hnd conn s =
     (case TryParseFrame (conn_read_buffer conn) of
        (ParseResult_kNeedMore, buffer, _) \<Rightarrow> Some (conn\<lparr>conn_read_buffer := buffer\<rparr>, s)
      | (ParseResult_kError, buffer, _) \<Rightarrow> Some (MarkClosed (conn\<lparr>conn_read_buffer := buffer\<rparr>), s)
      | (ParseResult_kComplete, buffer, frame) \<Rightarrow>
          let conn' = conn\<lparr>conn_read_buffer := buffer\<rparr> in
          (case answer_frame hnd s (the frame) of
             None \<Rightarrow> None
           | Some (None, s) \<Rightarrow> Some (MarkClosed conn', s)
           | Some (Some encoded, s) \<Rightarrow> ProcessFrames hnd (conn'\<lparr>conn_write_buffer := conn_write_buffer conn' @ encoded\<rparr>) s))"
  by pat_completeness auto
termination
  by (relation "measure (\<lambda>(hnd, conn, s). length (conn_read_buffer conn))") (auto dest!: sym [THEN TryParseFrame_shrinks(1)])

declare ProcessFrames.simps [simp del]

fun OnReadable_loop :: "recv list \<Rightarrow> Connection \<Rightarrow> Status \<times> Connection \<times> recv list" where
  "OnReadable_loop [] conn = (Status_Ok, conn, [])"
| "OnReadable_loop (RecvBytes chunk # fd) conn =
     (if chunk \<noteq> [] then OnReadable_loop fd (conn\<lparr>conn_read_buffer := conn_read_buffer conn @ chunk\<rparr>)
      else (Status_Ok, MarkClosed conn, fd))"
| "OnReadable_loop (RecvAgain # fd) conn = (Status_Ok, conn, fd)"
| "OnReadable_loop (RecvIntr # fd) conn = OnReadable_loop fd conn"
| "OnReadable_loop (RecvErr e # fd) conn = (Status_Error ErrorCode_kIOError (''read: '' @ e), MarkClosed conn, fd)"

definition OnReadable :: "'s Handler \<Rightarrow> recv list \<Rightarrow> Connection \<Rightarrow> 's \<Rightarrow> (Status \<times> recv list \<times> Connection \<times> 's) option" where
  "OnReadable hnd fd conn s =
     (case OnReadable_loop fd conn of
        (status, conn, fd) \<Rightarrow>
          if \<not> ok status then Some (status, fd, conn, s)
          else (case ProcessFrames hnd conn s of None \<Rightarrow> None | Some (conn, s) \<Rightarrow> Some (Status_Ok, fd, conn, s)))"

text \<open>\<^verbatim>\<open>OnWritable\<close> also answers the bytes that went out.\<close>

fun OnWritable :: "send list \<Rightarrow> Connection \<Rightarrow> Status \<times> bytes \<times> send list \<times> Connection" where
  "OnWritable fd conn =
     (if conn_write_buffer conn = [] then (Status_Ok, [], fd, conn)
      else case fd of
        [] \<Rightarrow> (Status_Ok, [], [], conn)
      | SendAgain # fd \<Rightarrow> (Status_Ok, [], fd, conn)
      | SendIntr # fd \<Rightarrow> OnWritable fd conn
      | SendErr e # fd \<Rightarrow> (Status_Error ErrorCode_kIOError (''write: '' @ e), [], fd, MarkClosed conn)
      | SendShort n # fd \<Rightarrow>
          (case OnWritable fd (conn\<lparr>conn_write_buffer := drop (Suc n) (conn_write_buffer conn)\<rparr>) of
             (status, sent, fd, conn') \<Rightarrow> (status, take (Suc n) (conn_write_buffer conn) @ sent, fd, conn')))"

declare OnWritable.simps [simp del]

section \<open>The parser on a growing buffer\<close>

text \<open>More bytes at the end of the buffer change nothing about what the parser has decided.\<close>

lemma TryParseFrame_more:
  assumes "TryParseFrame buffer = (r, rest, f)" "r \<noteq> ParseResult_kNeedMore"
  shows "TryParseFrame (buffer @ extra) = (r, if r = ParseResult_kComplete then rest @ extra else [], f)"
proof -
  have "ReadU16BE (buffer @ extra) = ReadU16BE buffer" "(buffer @ extra) ! 2 = buffer ! 2" "(buffer @ extra) ! 3 = buffer ! 3"
    "ReadU32BE (drop 4 (buffer @ extra)) = ReadU32BE (drop 4 buffer)" if "8 \<le> length buffer"
    using that by (auto simp: nth_append ReadU16BE_def ReadU32BE_def)
  then show ?thesis using assms by (auto simp: TryParseFrame_def Let_def kFrameHeaderSize_def split: if_splits option.splits) metis
qed

section \<open>Feeding a connection piece by piece\<close>

definition feed :: "bytes \<Rightarrow> Connection \<Rightarrow> Connection" where
  "feed bs conn = conn\<lparr>conn_read_buffer := conn_read_buffer conn @ bs\<rparr>"

lemma feed_simps [simp]:
  "conn_read_buffer (feed bs conn) = conn_read_buffer conn @ bs" "conn_write_buffer (feed bs conn) = conn_write_buffer conn"
  "conn_closed (feed bs conn) = conn_closed conn" "feed bs (feed as conn) = feed (as @ bs) conn" "feed [] conn = conn"
  by (simp_all add: feed_def)

lemma MarkClosed_simps [simp]:
  "conn_read_buffer (MarkClosed conn) = conn_read_buffer conn" "conn_write_buffer (MarkClosed conn) = conn_write_buffer conn"
  "conn_closed (MarkClosed conn)"
  by (simp_all add: MarkClosed_def)

lemma feed_step: "feed bs (conn\<lparr>conn_read_buffer := r, conn_write_buffer := w\<rparr>) = (feed bs conn)\<lparr>conn_read_buffer := r @ bs, conn_write_buffer := w\<rparr>"
  by (cases conn) (simp add: feed_def)

text \<open>One round of the loop, by what the parser and the handler say.\<close>

lemma ProcessFrames_rounds:
  "TryParseFrame (conn_read_buffer conn) = (ParseResult_kNeedMore, rest, f) \<Longrightarrow> ProcessFrames hnd conn s = Some (conn\<lparr>conn_read_buffer := rest\<rparr>, s)"
  "TryParseFrame (conn_read_buffer conn) = (ParseResult_kError, rest, f) \<Longrightarrow> ProcessFrames hnd conn s = Some (MarkClosed (conn\<lparr>conn_read_buffer := rest\<rparr>), s)"
  "TryParseFrame (conn_read_buffer conn) = (ParseResult_kComplete, rest, f) \<Longrightarrow> answer_frame hnd s (the f) = None \<Longrightarrow> ProcessFrames hnd conn s = None"
  "TryParseFrame (conn_read_buffer conn) = (ParseResult_kComplete, rest, f) \<Longrightarrow> answer_frame hnd s (the f) = Some (None, s') \<Longrightarrow>
     ProcessFrames hnd conn s = Some (MarkClosed (conn\<lparr>conn_read_buffer := rest\<rparr>), s')"
  "TryParseFrame (conn_read_buffer conn) = (ParseResult_kComplete, rest, f) \<Longrightarrow> answer_frame hnd s (the f) = Some (Some b, s') \<Longrightarrow>
     ProcessFrames hnd conn s = ProcessFrames hnd (conn\<lparr>conn_read_buffer := rest, conn_write_buffer := conn_write_buffer conn @ b\<rparr>) s'"
  by (simp_all add: ProcessFrames.simps [of _ conn])

text \<open>Induction over the rounds.\<close>

lemma ProcessFrames_induct [case_names need_more failed stuck closing answered]:
  fixes P :: "Connection \<Rightarrow> 's \<Rightarrow> bool"
  assumes more: "\<And>conn s. TryParseFrame (conn_read_buffer conn) = (ParseResult_kNeedMore, conn_read_buffer conn, None) \<Longrightarrow> P conn s"
    and failed: "\<And>conn s f. TryParseFrame (conn_read_buffer conn) = (ParseResult_kError, [], f) \<Longrightarrow> P conn s"
    and stuck: "\<And>conn s rest f. TryParseFrame (conn_read_buffer conn) = (ParseResult_kComplete, rest, Some f) \<Longrightarrow> answer_frame hnd s f = None \<Longrightarrow> P conn s"
    and closing: "\<And>conn s rest f s'. TryParseFrame (conn_read_buffer conn) = (ParseResult_kComplete, rest, Some f) \<Longrightarrow>
      answer_frame hnd s f = Some (None, s') \<Longrightarrow> P conn s"
    and answered: "\<And>conn s rest f b s'. TryParseFrame (conn_read_buffer conn) = (ParseResult_kComplete, rest, Some f) \<Longrightarrow>
      answer_frame hnd s f = Some (Some b, s') \<Longrightarrow>
      P (conn\<lparr>conn_read_buffer := rest, conn_write_buffer := conn_write_buffer conn @ b\<rparr>) s' \<Longrightarrow> P conn s"
  shows "P conn s"
proof (induction "length (conn_read_buffer conn)" arbitrary: conn s rule: less_induct)
  case (less conn s)
  obtain r rest f where t: "TryParseFrame (conn_read_buffer conn) = (r, rest, f)" by (rule prod_cases3)
  show ?case
  proof (cases r)
    case ParseResult_kNeedMore
    then show ?thesis using t by (intro more) (auto simp: TryParseFrame_def Let_def split: if_splits option.splits)
  next
    case ParseResult_kError
    then show ?thesis using t by (intro failed [of _ f]) (auto simp: TryParseFrame_def Let_def split: if_splits option.splits)
  next
    case ParseResult_kComplete
    then obtain fr where fr: "f = Some fr" using TryParseFrame_shrinks t by blast
    note t = t [unfolded ParseResult_kComplete fr]
    show ?thesis
    proof (cases "answer_frame hnd s fr")
      case None
      then show ?thesis using t stuck by blast
    next
      case (Some a)
      then obtain e s' where a: "answer_frame hnd s fr = Some (e, s')" by (cases a) simp
      show ?thesis
      proof (cases e)
        case None
        then show ?thesis using a t closing by blast
      next
        case (Some b)
        then show ?thesis using a t answered [OF t] less TryParseFrame_shrinks(1) [OF t] by simp
      qed
    qed
  qed
qed

text \<open>
  Processing a buffer and processing it again once more bytes are there is the same as processing the longer buffer once, unless the
  first part closes the connection, and then the second does not matter.
\<close>

lemma ProcessFrames_feed:
  assumes "\<not> conn_closed conn"
  shows "case ProcessFrames hnd conn s of
      None \<Rightarrow> ProcessFrames hnd (feed extra conn) s = None
    | Some (conn', s') \<Rightarrow>
        if conn_closed conn' then \<exists>rest. ProcessFrames hnd (feed extra conn) s = Some (conn'\<lparr>conn_read_buffer := rest\<rparr>, s')
        else ProcessFrames hnd (feed extra conn) s = ProcessFrames hnd (feed extra conn') s'"
  using assms
proof (induction conn s rule: ProcessFrames_induct [where hnd = hnd])
  case (need_more conn s)
  then show ?case by (simp add: ProcessFrames_rounds(1))
next
  case (failed conn s f)
  have "TryParseFrame (conn_read_buffer (feed extra conn)) = (ParseResult_kError, [], f)"
    using TryParseFrame_more [OF failed(1), of extra] by simp
  then show ?case using failed by (simp add: ProcessFrames_rounds(2)) (cases conn, simp add: feed_def MarkClosed_def)
next
  case (stuck conn s rest f)
  have "TryParseFrame (conn_read_buffer (feed extra conn)) = (ParseResult_kComplete, rest @ extra, Some f)"
    using TryParseFrame_more [OF stuck(1), of extra] by simp
  then show ?case using stuck by (simp add: ProcessFrames_rounds(3))
next
  case (closing conn s rest f s')
  have "TryParseFrame (conn_read_buffer (feed extra conn)) = (ParseResult_kComplete, rest @ extra, Some f)"
    using TryParseFrame_more [OF closing(1), of extra] by simp
  then show ?case using closing by (simp add: ProcessFrames_rounds(4)) (cases conn, simp add: feed_def MarkClosed_def)
next
  case (answered conn s rest f b s')
  have "TryParseFrame (conn_read_buffer (feed extra conn)) = (ParseResult_kComplete, rest @ extra, Some f)"
    using TryParseFrame_more [OF answered(1), of extra] by simp
  then have e: "ProcessFrames hnd (feed extra conn) s
      = ProcessFrames hnd (feed extra (conn\<lparr>conn_read_buffer := rest, conn_write_buffer := conn_write_buffer conn @ b\<rparr>)) s'"
    using answered(2) by (simp add: ProcessFrames_rounds(5) feed_step)
  have "ProcessFrames hnd conn s = ProcessFrames hnd (conn\<lparr>conn_read_buffer := rest, conn_write_buffer := conn_write_buffer conn @ b\<rparr>) s'"
    using answered(2) by (simp add: ProcessFrames_rounds(5) [OF answered(1)])
  then show ?case unfolding e using answered(3,4) by simp
qed

section \<open>Readable events\<close>

text \<open>Outcomes of reads that deliver data or are interrupted; the list ends when the descriptor is drained.\<close>

definition drained :: "recv list \<Rightarrow> bool" where
  "drained fd \<longleftrightarrow> list_all (\<lambda>e. case e of RecvBytes chunk \<Rightarrow> chunk \<noteq> [] | RecvIntr \<Rightarrow> True | _ \<Rightarrow> False) fd"

fun recv_bytes :: "recv list \<Rightarrow> bytes" where
  "recv_bytes [] = []"
| "recv_bytes (RecvBytes chunk # fd) = chunk @ recv_bytes fd"
| "recv_bytes (_ # fd) = recv_bytes fd"

text \<open>A sequence of readable events; the event loop drops a connection once it is closed.\<close>

fun readable_events :: "'s Handler \<Rightarrow> recv list list \<Rightarrow> Connection \<Rightarrow> 's \<Rightarrow> (Connection \<times> 's) option" where
  "readable_events hnd [] conn s = Some (conn, s)"
| "readable_events hnd (fd # fds) conn s =
     (if conn_closed conn then Some (conn, s)
      else case OnReadable hnd fd conn s of
        None \<Rightarrow> None
      | Some (_, _, conn, s) \<Rightarrow> readable_events hnd fds conn s)"

lemma OnReadable_loop_drained: "drained fd \<Longrightarrow> OnReadable_loop fd conn = (Status_Ok, feed (recv_bytes fd) conn, [])"
  by (induction fd conn rule: OnReadable_loop.induct) (simp_all add: drained_def feed_def)

lemma OnReadable_drained:
  "drained fd \<Longrightarrow> OnReadable hnd fd conn s = map_option (\<lambda>(conn, s). (Status_Ok, [], conn, s)) (ProcessFrames hnd (feed (recv_bytes fd) conn) s)"
  by (auto simp: OnReadable_def OnReadable_loop_drained split: option.split)

lemma readable_events_closed: "conn_closed conn \<Longrightarrow> readable_events hnd fds conn s = Some (conn, s)"
  by (cases fds) simp_all

text \<open>However the bytes are cut into events, the connection ends up as if it had seen them at once.\<close>

lemma readable_events_feed:
  assumes "list_all drained fds" "\<not> conn_closed conn" "ProcessFrames hnd conn s = Some (conn, s)"
  shows "map_option (\<lambda>(c, s). (conn_write_buffer c, conn_closed c, s)) (readable_events hnd fds conn s)
    = map_option (\<lambda>(c, s). (conn_write_buffer c, conn_closed c, s)) (ProcessFrames hnd (feed (concat (map recv_bytes fds)) conn) s)"
  using assms
proof (induction fds arbitrary: conn s)
  case (Cons fd fds)
  let ?c = "feed (recv_bytes fd) conn" and ?rest = "concat (map recv_bytes fds)"
  have d: "drained fd" "list_all drained fds" using Cons.prems(1) by simp_all
  note one = ProcessFrames_feed [where hnd = hnd and conn = ?c and s = s and extra = ?rest]
  show ?case
  proof (cases "ProcessFrames hnd ?c s")
    case None
    then show ?thesis using one Cons.prems(2) d by (simp add: OnReadable_drained)
  next
    case (Some a)
    obtain c1 s1 where a: "a = (c1, s1)" by fastforce
    show ?thesis
    proof (cases "conn_closed c1")
      case True
      then show ?thesis using one Some a Cons.prems(2) d by (auto simp: OnReadable_drained readable_events_closed)
    next
      case False
      have again: "ProcessFrames hnd c1 s1 = Some (c1, s1)"
        using ProcessFrames_feed [where hnd = hnd and conn = ?c and s = s and extra = "[]"] Some a False Cons.prems(2) by simp
      show ?thesis using one Some a False Cons.prems(2) d Cons.IH [OF d(2) False again] by (simp add: OnReadable_drained)
    qed
  qed
qed simp

lemma readable_events_new:
  assumes "list_all drained fds"
  shows "map_option (\<lambda>(c, s). (conn_write_buffer c, conn_closed c, s)) (readable_events hnd fds Connection_new s)
    = map_option (\<lambda>(c, s). (conn_write_buffer c, conn_closed c, s)) (ProcessFrames hnd (feed (concat (map recv_bytes fds)) Connection_new) s)"
  by (rule readable_events_feed [OF assms])
    (simp_all add: Connection_new_def ProcessFrames.simps TryParseFrame_def kFrameHeaderSize_def)

section \<open>Requests answered in order\<close>

fun answer_all :: "'s Handler \<Rightarrow> 's \<Rightarrow> Frame list \<Rightarrow> (bytes \<times> 's) option" where
  "answer_all hnd s [] = Some ([], s)"
| "answer_all hnd s (f # fs) =
     (case answer_frame hnd s f of
        Some (Some b, s) \<Rightarrow> (case answer_all hnd s fs of None \<Rightarrow> None | Some (bs, s) \<Rightarrow> Some (b @ bs, s))
      | _ \<Rightarrow> None)"

text \<open>The bytes of a sequence of frames, and the beginning of a frame that is not complete yet.\<close>

fun EncodeFrames :: "Frame list \<Rightarrow> bytes option" where
  "EncodeFrames [] = Some []"
| "EncodeFrames (f # fs) =
     (case (EncodeFrame f, EncodeFrames fs) of (Inr b, Some bs) \<Rightarrow> Some (b @ bs) | _ \<Rightarrow> None)"

definition partial_frame :: "bytes \<Rightarrow> bool" where
  "partial_frame bs \<longleftrightarrow> TryParseFrame bs = (ParseResult_kNeedMore, bs, None)"

lemma partial_frame_Nil [simp]: "partial_frame []"
  by (simp add: partial_frame_def TryParseFrame_def kFrameHeaderSize_def)

lemma ProcessFrames_pipeline:
  assumes "EncodeFrames fs = Some bs" "answer_all hnd s fs = Some (out, s')" "partial_frame tail" "conn_read_buffer conn = bs @ tail"
  shows "ProcessFrames hnd conn s = Some (conn\<lparr>conn_read_buffer := tail, conn_write_buffer := conn_write_buffer conn @ out\<rparr>, s')"
  using assms
proof (induction fs arbitrary: bs s out conn)
  case Nil
  then show ?case by (cases conn) (simp add: ProcessFrames_rounds(1) partial_frame_def)
next
  case (Cons f fs)
  obtain b bs' where b: "EncodeFrame f = Inr b" "EncodeFrames fs = Some bs'" "bs = b @ bs'"
    using Cons.prems(1) by (auto split: sum.splits option.splits)
  obtain e out' s1 where a: "answer_frame hnd s f = Some (Some e, s1)" "answer_all hnd s1 fs = Some (out', s')" "out = e @ out'"
    using Cons.prems(2) by (auto split: option.splits)
  have "TryParseFrame (conn_read_buffer conn) = (ParseResult_kComplete, bs' @ tail, Some f)"
    using TryParseFrame_encoded [OF b(1), of "bs' @ tail"] Cons.prems(4) b(3) by simp
  then have "ProcessFrames hnd conn s = ProcessFrames hnd (conn\<lparr>conn_read_buffer := bs' @ tail, conn_write_buffer := conn_write_buffer conn @ e\<rparr>) s1"
    using a(1) by (simp add: ProcessFrames_rounds(5))
  then show ?case using Cons.IH [OF b(2) a(2) Cons.prems(3)] a(3) by (cases conn) simp
qed

section \<open>Writing\<close>

lemma OnWritable_rounds:
  "conn_write_buffer conn = [] \<Longrightarrow> OnWritable fd conn = (Status_Ok, [], fd, conn)"
  "OnWritable [] conn = (Status_Ok, [], [], conn)"
  "conn_write_buffer conn \<noteq> [] \<Longrightarrow> OnWritable (SendAgain # fd) conn = (Status_Ok, [], fd, conn)"
  "conn_write_buffer conn \<noteq> [] \<Longrightarrow> OnWritable (SendIntr # fd) conn = OnWritable fd conn"
  "conn_write_buffer conn \<noteq> [] \<Longrightarrow> OnWritable (SendErr e # fd) conn = (Status_Error ErrorCode_kIOError (''write: '' @ e), [], fd, MarkClosed conn)"
  "conn_write_buffer conn \<noteq> [] \<Longrightarrow> OnWritable (SendShort n # fd) conn =
     (case OnWritable fd (conn\<lparr>conn_write_buffer := drop (Suc n) (conn_write_buffer conn)\<rparr>) of
        (status, sent, fd, conn') \<Rightarrow> (status, take (Suc n) (conn_write_buffer conn) @ sent, fd, conn'))"
  by (subst OnWritable.simps, simp)+

lemma OnWritable_cases:
  "OnWritable fd conn = (status, sent, fd', conn') \<Longrightarrow>
     conn_write_buffer conn = sent @ conn_write_buffer conn' \<and> conn_read_buffer conn' = conn_read_buffer conn
     \<and> (conn_closed conn' \<longleftrightarrow> conn_closed conn \<or> \<not> ok status)"
proof (induction fd arbitrary: conn sent)
  case (Cons e fd)
  show ?case
  proof (cases "conn_write_buffer conn = []")
    case False
    show ?thesis
    proof (cases e)
      case (SendShort n)
      obtain sent1 where "OnWritable fd (conn\<lparr>conn_write_buffer := drop (Suc n) (conn_write_buffer conn)\<rparr>) = (status, sent1, fd', conn')"
        "sent = take (Suc n) (conn_write_buffer conn) @ sent1"
        using Cons.prems False SendShort by (auto simp: OnWritable_rounds split: prod.splits)
      then show ?thesis using Cons.IH [of "conn\<lparr>conn_write_buffer := drop (Suc n) (conn_write_buffer conn)\<rparr>" sent1]
        append_take_drop_id [of "Suc n" "conn_write_buffer conn"] by simp
    next
      case SendIntr
      then show ?thesis using Cons.IH [of conn sent] Cons.prems False by (simp add: OnWritable_rounds)
    qed (use Cons.prems False in \<open>auto simp: OnWritable_rounds\<close>)
  qed (use Cons.prems in \<open>auto simp: OnWritable_rounds\<close>)
qed (simp add: OnWritable_rounds)

section \<open>Properties\<close>

text \<open>
  C29. Pipelined requests are answered in order. Whatever the sizes of the reads and however often they are interrupted, a connection that has
  received the bytes of a sequence of request frames, and possibly the beginning of another, has queued exactly the encoded responses of the
  handler to these requests, one after the other, and is still open.
\<close>

theorem pipelined_requests_in_order:
  assumes "EncodeFrames fs = Some bs" "answer_all hnd s fs = Some (out, s')" "partial_frame tail"
    and "list_all drained fds" "concat (map recv_bytes fds) = bs @ tail"
  shows "\<exists>conn. readable_events hnd fds Connection_new s = Some (conn, s') \<and> conn_write_buffer conn = out \<and> \<not> conn_closed conn"
proof -
  have "ProcessFrames hnd (feed (bs @ tail) Connection_new) s
      = Some ((feed (bs @ tail) Connection_new)\<lparr>conn_read_buffer := tail, conn_write_buffer := [] @ out\<rparr>, s')"
    using ProcessFrames_pipeline [OF assms(1-3), of "feed (bs @ tail) Connection_new"] by (simp add: Connection_new_def)
  then have "map_option (\<lambda>(c, s). (conn_write_buffer c, conn_closed c, s)) (readable_events hnd fds Connection_new s) = Some (out, False, s')"
    using readable_events_new [OF assms(4), of hnd s] assms(5) by (simp add: Connection_new_def)
  then show ?thesis by auto
qed

definition echo_handler :: "nat Handler" where
  "echo_handler = \<lparr>hd_handle = (\<lambda>n req. Some (\<lparr>cresp_request_id = creq_request_id req, cresp_status = ResponseStatus_kOk,
     cresp_value = creq_key req, cresp_leader_hint = 0\<rparr>, Suc n)), hd_cluster = (\<lambda>n req. None)\<rparr>"

definition echo_request :: "u64 \<Rightarrow> Frame" where
  "echo_request i = Frame_ClientRequest \<lparr>creq_request_id = i, creq_opcode = Opcode_kGet, creq_key = [107], creq_value = []\<rparr>"

theorem pipelined_requests_in_order_witness:
  "\<exists>bs1 bs2 out1 out2 conn. EncodeFrame (echo_request 1) = Inr bs1 \<and> EncodeFrame (echo_request 2) = Inr bs2
     \<and> answer_frame echo_handler 0 (echo_request 1) = Some (Some out1, 1) \<and> answer_frame echo_handler 1 (echo_request 2) = Some (Some out2, 2)
     \<and> readable_events echo_handler [[RecvBytes bs1, RecvIntr], [RecvBytes (bs2 @ [1])]] Connection_new 0 = Some (conn, 2)
     \<and> conn_write_buffer conn = out1 @ out2"
proof -
  obtain bs1 bs2 where b: "EncodeFrame (echo_request 1) = Inr bs1" "EncodeFrame (echo_request 2) = Inr bs2"
    by (simp add: EncodeFrame_eq echo_request_def del: EncodeFrame.simps)
  have "0 < length bs1" using b(1) by (auto simp: EncodeFrame_eq)
  then have ne: "bs1 \<noteq> []" by simp
  obtain out1 out2 where a: "answer_frame echo_handler 0 (echo_request 1) = Some (Some out1, 1)"
    "answer_frame echo_handler 1 (echo_request 2) = Some (Some out2, 2)"
    by (simp add: echo_handler_def echo_request_def EncodeClientResponse_def Let_def)
  have "partial_frame [1]" by (simp add: partial_frame_def TryParseFrame_def kFrameHeaderSize_def)
  then show ?thesis
    using pipelined_requests_in_order [of "[echo_request 1, echo_request 2]" "bs1 @ bs2" echo_handler 0 "out1 @ out2" 2 "[1]"
        "[[RecvBytes bs1, RecvIntr], [RecvBytes (bs2 @ [1])]]"] a b ne
    by (simp add: drained_def del: EncodeFrame.simps readable_events.simps One_nat_def) blast
qed

text \<open>
  What goes out on a connection is what was queued: every call of \<^verbatim>\<open>OnWritable\<close>, whatever the socket accepts, sends a prefix of the
  queued bytes and keeps the rest in order, leaves the input alone, and closes the connection exactly when the write failed.
\<close>

lemma OnWritable_sends_queue:
  assumes "OnWritable fd conn = (status, sent, fd', conn')"
  shows "conn_write_buffer conn = sent @ conn_write_buffer conn' \<and> conn_read_buffer conn' = conn_read_buffer conn
     \<and> (conn_closed conn' \<longleftrightarrow> conn_closed conn \<or> \<not> ok status)"
  using OnWritable_cases [OF assms] by blast

lemma OnWritable_sends_queue_example:
  "OnWritable [SendShort 1, SendIntr, SendAgain] \<lparr>conn_read_buffer = [9], conn_write_buffer = [1, 2, 3], conn_closed = False\<rparr>
     = (Status_Ok, [1, 2], [], \<lparr>conn_read_buffer = [9], conn_write_buffer = [3], conn_closed = False\<rparr>) \<and> [1, 2, 3 :: u8] = [1, 2] @ [3]"
  using OnWritable_sends_queue [of "[SendShort 1, SendIntr, SendAgain]" "\<lparr>conn_read_buffer = [9], conn_write_buffer = [1, 2, 3], conn_closed = False\<rparr>"
      Status_Ok "[1, 2]" "[]" "\<lparr>conn_read_buffer = [9], conn_write_buffer = [3], conn_closed = False\<rparr>"]
  by (simp add: OnWritable_rounds)

end
