(* ===== verification/Storage_Calls.thy ===== *)
theory Storage_Calls
  imports Durable_Storage
begin

text \<open>
  The calls of \<^verbatim>\<open>persistence/durable_storage.cpp\<close> by a caller that is alone, on a system whose calls succeed: every call returns,
  answers like a map, and leaves the map in the write-ahead log on disk.
\<close>

section \<open>Storage between two calls\<close>

text \<open>\<open>budget\<close> bounds the number of writes to come, so that the index does not wrap around.\<close>

definition storage_clean :: "(bytes \<Rightarrow> u64) \<Rightarrow> nat \<Rightarrow> WalRecord list \<Rightarrow> DurableStorage \<Rightarrow> bool" where
  "storage_clean hash budget rs st \<longleftrightarrow>
     ww_open_status (ds_wal st) = Status_Ok \<and> calm (ww_os (ds_wal st)) \<and> \<not> ww_flush_in_progress (ds_wal st)
     \<and> ww_last_index (ds_wal st) = last_wal_index 0 rs \<and> ww_synced_index (ds_wal st) = last_wal_index 0 rs
     \<and> ds_last_applied_index st = last_wal_index 0 rs \<and> unat (last_wal_index 0 rs) + budget < 2 ^ 64
     \<and> ww_file (ds_wal st) = WalLog rs \<and> ww_disk (ds_wal st) = WalLog rs \<and> list_all WalRecordValid rs
     \<and> ShardedKV_inv hash (ds_kv st) \<and> ShardedKV_abs hash (ds_kv st) = fold wal_effect rs Map.empty"

lemma storage_cleanD:
  assumes "storage_clean hash budget rs st"
  shows "ww_open_status (ds_wal st) = Status_Ok" "calm (ww_os (ds_wal st))" "\<not> ww_flush_in_progress (ds_wal st)"
    "ww_last_index (ds_wal st) = last_wal_index 0 rs" "ww_synced_index (ds_wal st) = last_wal_index 0 rs"
    "ds_last_applied_index st = last_wal_index 0 rs" "unat (last_wal_index 0 rs) + budget < 2 ^ 64"
    "ww_file (ds_wal st) = WalLog rs" "ww_disk (ds_wal st) = WalLog rs" "list_all WalRecordValid rs"
    "ShardedKV_inv hash (ds_kv st)" "ShardedKV_abs hash (ds_kv st) = fold wal_effect rs Map.empty"
  using assms by (simp_all add: storage_clean_def)

lemma last_wal_index_snoc: "last_wal_index i (rs @ [r]) = w_index r"
  by (simp add: last_wal_index_def)

lemma storage_clean_budget: "storage_clean hash n rs st \<Longrightarrow> m \<le> n \<Longrightarrow> storage_clean hash m rs st"
  by (simp add: storage_clean_def)

lemma Sync_calm:
  assumes "ok (ww_open_status w)" "calm (ww_os w)" "\<not> ww_flush_in_progress w" "ww_synced_index w < i" "ww_last_index w = i"
  obtains os where "WalWriter_Sync w i = Some (Status_Ok, w\<lparr>ww_os := os, ww_disk := ww_file w, ww_fsync_count := ww_fsync_count w + 1,
    ww_synced_index := i, ww_flush_in_progress := False\<rparr>)" "calm os"
proof -
  have "fst (sys_call (ww_os w)) = None" "calm (snd (sys_call (ww_os w)))" using assms(2) by simp_all
  then show thesis using that [of "snd (sys_call (ww_os w))"] assms(5) Sync_alone [OF assms(1,3,4)]
    by (simp add: Sync_flush_def WalWriter_FsyncNow_def Sync_lead_def Let_def)
qed

lemma write_record_index [simp]: "write_record wop = Inr r \<Longrightarrow> w_index r = 0"
  by (cases wop) (auto split: if_splits)

lemma write_apply_effect:
  assumes "write_record wop = Inr r" "ShardedKV_inv hash kv"
  shows "ShardedKV_inv hash (snd (write_apply hash kv wop))"
    "ShardedKV_abs hash (snd (write_apply hash kv wop)) = wal_effect (r\<lparr>w_index := i\<rparr>) (ShardedKV_abs hash kv)"
  using assms sharded.set_inv sharded.set_abs sharded.del_inv sharded.del_abs
  by (cases wop; auto simp: wal_effect_def split: if_splits)+

lemma DurableStorage_write_clean:
  assumes clean: "storage_clean hash (Suc n) rs st" and r: "write_record wop = Inr r" "WalRecordValid r"
  obtains st' where "DurableStorage_write hash st wop = Some (fst (write_apply hash (ds_kv st) wop), st')"
    "storage_clean hash n (rs @ [r\<lparr>w_index := last_wal_index 0 rs + 1\<rparr>]) st'"
proof -
  let ?i = "last_wal_index 0 rs + 1" let ?r = "r\<lparr>w_index := ?i\<rparr>"
  note c = storage_cleanD [OF clean]
  have c1: "ok (ww_open_status (ds_wal st))" by (simp add: c(1))
  have i: "unat ?i = Suc (unat (last_wal_index 0 rs))" using c(7) by (simp add: unat_word_ariths)
  obtain os where a: "WalWriter_Append (ds_wal st) r = (Inr ?i, (ds_wal st)\<lparr>ww_file := ww_file (ds_wal st) @ WalBytes ?r, ww_os := os, ww_last_index := ?i\<rparr>)"
    and os: "calm os" using Append_calm [OF c(2) c1, of r] unfolding c(4) by blast
  define w where "w = (ds_wal st)\<lparr>ww_file := ww_file (ds_wal st) @ WalBytes ?r, ww_os := os, ww_last_index := ?i\<rparr>"
  have "ww_synced_index w < ?i" using i c(5) by (simp add: w_def word_less_nat_alt)
  then obtain os' where s: "WalWriter_Sync w ?i = Some (Status_Ok, w\<lparr>ww_os := os', ww_disk := ww_file w, ww_fsync_count := ww_fsync_count w + 1,
      ww_synced_index := ?i, ww_flush_in_progress := False\<rparr>)" and os': "calm os'"
    using Sync_calm [of w ?i] c1 c(3) os by (auto simp: w_def)
  define st' where "st' = st\<lparr>ds_wal := w\<lparr>ww_os := os', ww_disk := ww_file w, ww_fsync_count := ww_fsync_count w + 1, ww_synced_index := ?i,
      ww_flush_in_progress := False\<rparr>, ds_kv := snd (write_apply hash (ds_kv st) wop), ds_last_applied_index := ?i\<rparr>"
  have "DurableStorage_write hash st wop = Some (fst (write_apply hash (ds_kv st) wop), st')"
    using r(1) a [folded w_def] s c(6) by (simp add: DurableStorage_write_def st'_def apply_ready_def split: prod.split)
  moreover have "storage_clean hash n (rs @ [?r]) st'"
    unfolding storage_clean_def using c r(2) i os' write_apply_effect(1) [OF r(1) c(11)] write_apply_effect(2) [OF r(1) c(11), of ?i]
    by (simp add: st'_def w_def last_wal_index_snoc WalRecordValid_def)
  ultimately show thesis by (rule that)
qed

text \<open>After a crash at any moment between two calls, opening the directory again finds the same map.\<close>

lemma storage_clean_reopen:
  assumes "storage_clean hash n rs st" "calm os"
  obtains st' where "DurableStorage_Open hash data_dir (ww_disk (ds_wal st)) os = Inr st'"
    "storage_clean hash n rs st'" "ShardedKV_abs hash (ds_kv st') = ShardedKV_abs hash (ds_kv st)"
proof -
  have rs: "\<forall>r \<in> set rs. WalRecordValid r" and d: "ww_disk (ds_wal st) = WalLog rs @ []"
    using storage_cleanD(9,10) [OF assms(1)] by (simp_all add: list_all_iff)
  from rs WalTorn_Nil d assms(2) obtain st' where "DurableStorage_Open hash data_dir (ww_disk (ds_wal st)) os = Inr st'"
    "ShardedKV_inv hash (ds_kv st')" "ShardedKV_abs hash (ds_kv st') = fold wal_effect rs Map.empty"
    "ds_last_applied_index st' = last_wal_index 0 rs" "ww_last_index (ds_wal st') = last_wal_index 0 rs"
    "ww_synced_index (ds_wal st') = last_wal_index 0 rs"
    "ww_open_status (ds_wal st') = Status_Ok" "ww_file (ds_wal st') = ww_disk (ds_wal st)" "ww_disk (ds_wal st') = ww_disk (ds_wal st)"
    "\<not> ww_flush_in_progress (ds_wal st')" "calm (ww_os (ds_wal st'))"
    by (rule DurableStorage_Open_log)
  then show thesis using that [of st'] storage_cleanD(7,9,10,12) [OF assms(1)] by (simp add: storage_clean_def)
qed

lemma storage_clean_new:
  assumes "calm os" "n < 2 ^ 64"
  shows "storage_clean hash n [] (DurableStorage_new hash data_dir [] os)"
proof -
  obtain st where st: "DurableStorage_Open hash data_dir [] os = Inr st"
    "ShardedKV_inv hash (ds_kv st)" "ShardedKV_abs hash (ds_kv st) = fold wal_effect [] Map.empty"
    "ds_last_applied_index st = last_wal_index 0 []" "ww_last_index (ds_wal st) = last_wal_index 0 []"
    "ww_synced_index (ds_wal st) = last_wal_index 0 []"
    "ww_open_status (ds_wal st) = Status_Ok" "ww_file (ds_wal st) = []" "ww_disk (ds_wal st) = []"
    "\<not> ww_flush_in_progress (ds_wal st)" "calm (ww_os (ds_wal st))"
    by (rule DurableStorage_Open_log [of "[]" "[]" "[]" os hash data_dir]) (use assms(1) in simp_all)
  have "storage_clean hash n [] st" using st(2-) assms(2) by (simp add: storage_clean_def last_wal_index_def)
  moreover have "st = DurableStorage_new hash data_dir [] os"
    using st(1) by (simp add: DurableStorage_Open_def Let_def split: if_splits)
  ultimately show ?thesis by simp
qed

end
