(* ===== verification/Request_Handler.thy ===== *)
theory Request_Handler
  imports Storage_Calls Raft_Node
begin

text \<open>
  \<^verbatim>\<open>server/handler.{h,cpp}\<close>: what the server does with a decoded request. The handler holds a reference to the storage and, in a cluster,
  a pointer to the Raft node that owns the same storage; the two situations are the constructors of \<open>Backend\<close>.

  What the handler does not control is an argument of its methods: the hash function, the RPC transport and the wait of
  \<^verbatim>\<open>Propose\<close> (as for the node), and what other threads do to the node between two calls of the handler on it. A result \<open>None\<close> means that
  the call never returns.
\<close>

section \<open>The handler\<close>

datatype Backend = Local DurableStorage | Replicated RaftNode

record RequestHandler =
  rh_backend :: Backend
  rh_allow_stale_reads :: bool

record HandlerEnv =
  env_hash :: "bytes \<Rightarrow> u64"
  env_rpc :: rpc
  env_wait :: "(RaftNode \<Rightarrow> bool) \<Rightarrow> RaftNode \<Rightarrow> RaftNode"
  env_others :: "RaftNode \<Rightarrow> RaftNode"

definition RequestHandler_new :: "Backend \<Rightarrow> bool \<Rightarrow> RequestHandler" where
  "RequestHandler_new backend allow_stale_reads = \<lparr>rh_backend = backend, rh_allow_stale_reads = allow_stale_reads\<rparr>"

fun backend_storage :: "Backend \<Rightarrow> DurableStorage" where
  "backend_storage (Local storage) = storage"
| "backend_storage (Replicated node) = rn_storage node"

definition ToResponseStatus :: "ErrorCode \<Rightarrow> ResponseStatus" where
  "ToResponseStatus c =
     (case c of
        ErrorCode_kOk \<Rightarrow> ResponseStatus_kOk
      | ErrorCode_kNotFound \<Rightarrow> ResponseStatus_kNotFound
      | ErrorCode_kInvalidArgument \<Rightarrow> ResponseStatus_kBadRequest
      | ErrorCode_kIOError \<Rightarrow> ResponseStatus_kInternalError
      | ErrorCode_kInternal \<Rightarrow> ResponseStatus_kInternalError)"

definition IsLeader :: "RequestHandler \<Rightarrow> bool" where
  "IsLeader h = (case rh_backend h of Local _ \<Rightarrow> True | Replicated node \<Rightarrow> rn_state node = RaftState_kLeader)"

text \<open>A SET or DELETE through Raft: the proposal, and what its status becomes in the response.\<close>

definition propose_write ::
  "HandlerEnv \<Rightarrow> LogEntry \<Rightarrow> RaftNode \<Rightarrow> ClientResponse \<Rightarrow> (ClientResponse \<times> RaftNode) option" where
  "propose_write env entry node resp =
     (case Propose (env_hash env) (env_rpc env) (env_wait env) entry node of
        None \<Rightarrow> None
      | Some (status, node) \<Rightarrow>
          if ok status then Some (resp\<lparr>cresp_status := ResponseStatus_kOk\<rparr>, node)
          else if code status = ErrorCode_kInvalidArgument then
            let node = env_others env node in
            Some (resp\<lparr>cresp_status := ResponseStatus_kWrongLeader, cresp_leader_hint := rn_leader_id node\<rparr>, node)
          else Some (resp\<lparr>cresp_status := ResponseStatus_kInternalError\<rparr>, node))"

definition answer_get :: "HandlerEnv \<Rightarrow> DurableStorage \<Rightarrow> bytes \<Rightarrow> ClientResponse \<Rightarrow> ClientResponse" where
  "answer_get env storage key resp =
     (case DurableStorage_Get (env_hash env) storage key of
        Inr v \<Rightarrow> resp\<lparr>cresp_status := ResponseStatus_kOk, cresp_value := v\<rparr>
      | Inl status \<Rightarrow> resp\<lparr>cresp_status := ToResponseStatus (code status)\<rparr>)"

definition wrong_leader :: "HandlerEnv \<Rightarrow> RaftNode \<Rightarrow> ClientResponse \<Rightarrow> ClientResponse \<times> RaftNode" where
  "wrong_leader env node resp =
     (let node = env_others env node
      in (resp\<lparr>cresp_status := ResponseStatus_kWrongLeader, cresp_leader_hint := rn_leader_id node\<rparr>, node))"

definition Handle :: "HandlerEnv \<Rightarrow> RequestHandler \<Rightarrow> ClientRequest \<Rightarrow> (ClientResponse \<times> RequestHandler) option" where
  "Handle env h req =
     (let resp = \<lparr>cresp_request_id = creq_request_id req, cresp_status = ResponseStatus_kOk, cresp_value = [], cresp_leader_hint = 0\<rparr>;
          is_write = (creq_opcode req = Opcode_kSet \<or> creq_opcode req = Opcode_kDelete) in
      case rh_backend h of
        Local storage \<Rightarrow>
          (case creq_opcode req of
             Opcode_kSet \<Rightarrow>
               (case DurableStorage_Set (env_hash env) storage (creq_key req) (creq_value req) of
                  None \<Rightarrow> None
                | Some (status, storage) \<Rightarrow>
                    Some (resp\<lparr>cresp_status := ToResponseStatus (code status)\<rparr>, h\<lparr>rh_backend := Local storage\<rparr>))
           | Opcode_kGet \<Rightarrow> Some (answer_get env storage (creq_key req) resp, h)
           | Opcode_kDelete \<Rightarrow>
               (case DurableStorage_Delete (env_hash env) storage (creq_key req) of
                  None \<Rightarrow> None
                | Some (status, storage) \<Rightarrow>
                    Some (resp\<lparr>cresp_status := ToResponseStatus (code status)\<rparr>, h\<lparr>rh_backend := Local storage\<rparr>)))
      | Replicated node \<Rightarrow>
          let finish = (\<lambda>(resp, node). Some (resp, h\<lparr>rh_backend := Replicated node\<rparr>)) in
          if is_write \<and> \<not> IsLeader h then finish (wrong_leader env node resp)
          else
            let node = env_others env node in
            (case creq_opcode req of
               Opcode_kSet \<Rightarrow>
                 (case propose_write env \<lparr>e_term = 0, e_index = 0, e_op = WalOp_kSet, e_key = creq_key req, e_value = creq_value req\<rparr> node resp of
                    None \<Rightarrow> None | Some r \<Rightarrow> finish r)
             | Opcode_kGet \<Rightarrow>
                 if rh_allow_stale_reads h then finish (answer_get env (rn_storage node) (creq_key req) resp, node)
                 else if rn_state node \<noteq> RaftState_kLeader then finish (wrong_leader env node resp)
                 else
                   (case ConfirmLeadershipQuorum (env_rpc env) (env_others env node) of
                      (False, node) \<Rightarrow> finish (wrong_leader env node resp)
                    | (True, node) \<Rightarrow>
                        let node = env_others env node
                        in finish (answer_get env (rn_storage node) (creq_key req) resp, node))
             | Opcode_kDelete \<Rightarrow>
                 (case propose_write env \<lparr>e_term = 0, e_index = 0, e_op = WalOp_kDelete, e_key = creq_key req, e_value = []\<rparr> node resp of
                    None \<Rightarrow> None | Some r \<Rightarrow> finish r)))"

definition HandleCluster :: "HandlerEnv \<Rightarrow> RequestHandler \<Rightarrow> ClusterRequest \<Rightarrow> (ClusterResponse \<times> RequestHandler) option" where
  "HandleCluster env h req =
     (let resp = \<lparr>clresp_request_id = clreq_request_id req, clresp_status = ResponseStatus_kOk, clresp_body = []\<rparr>;
          bad = Some (resp\<lparr>clresp_status := ResponseStatus_kBadRequest\<rparr>, h) in
      case clreq_opcode req of
        ClusterOpcode_kPing \<Rightarrow> Some (resp\<lparr>clresp_status := ResponseStatus_kOk, clresp_body := [112, 111, 110, 103]\<rparr>, h)
      | ClusterOpcode_kRequestVote \<Rightarrow>
          (case rh_backend h of
             Local _ \<Rightarrow> bad
           | Replicated node \<Rightarrow>
               (case DecodeRequestVoteRequest (clreq_body req) of
                  Inl _ \<Rightarrow> bad
                | Inr rv_req \<Rightarrow>
                    (case HandleRequestVote rv_req node of
                       (rv_resp, node) \<Rightarrow>
                         Some (resp\<lparr>clresp_status := ResponseStatus_kOk, clresp_body := EncodeRequestVoteResponse rv_resp\<rparr>,
                               h\<lparr>rh_backend := Replicated node\<rparr>))))
      | ClusterOpcode_kAppendEntries \<Rightarrow>
          (case rh_backend h of
             Local _ \<Rightarrow> bad
           | Replicated node \<Rightarrow>
               (case DecodeAppendEntriesRequest (clreq_body req) of
                  Inl _ \<Rightarrow> bad
                | Inr ae_req \<Rightarrow>
                    (case HandleAppendEntries (env_hash env) ae_req node of
                       None \<Rightarrow> None
                     | Some (ae_resp, node) \<Rightarrow>
                         Some (resp\<lparr>clresp_status := ResponseStatus_kOk, clresp_body := EncodeAppendEntriesResponse ae_resp\<rparr>,
                               h\<lparr>rh_backend := Replicated node\<rparr>))))
      | ClusterOpcode_kPong \<Rightarrow> bad)"

section \<open>A server for a map\<close>

text \<open>What a client sees of a single node: the map and the answer to each request.\<close>

definition map_server :: "(bytes \<rightharpoonup> bytes) \<Rightarrow> ClientRequest \<Rightarrow> ClientResponse \<times> (bytes \<rightharpoonup> bytes)" where
  "map_server m req =
     (let answer = (\<lambda>s v. \<lparr>cresp_request_id = creq_request_id req, cresp_status = s, cresp_value = v, cresp_leader_hint = 0\<rparr>);
          key = creq_key req in
      if key = [] then (answer ResponseStatus_kBadRequest [], m)
      else case creq_opcode req of
        Opcode_kSet \<Rightarrow>
          if creq_value req = [] then (answer ResponseStatus_kBadRequest [], m)
          else (answer ResponseStatus_kOk [], m(key \<mapsto> creq_value req))
      | Opcode_kGet \<Rightarrow>
          (case m key of None \<Rightarrow> (answer ResponseStatus_kNotFound [], m) | Some v \<Rightarrow> (answer ResponseStatus_kOk v, m))
      | Opcode_kDelete \<Rightarrow>
          (if m key = None then answer ResponseStatus_kNotFound [] else answer ResponseStatus_kOk [], m(key := None)))"

fun map_serve_all :: "(bytes \<rightharpoonup> bytes) \<Rightarrow> ClientRequest list \<Rightarrow> ClientResponse list \<times> (bytes \<rightharpoonup> bytes)" where
  "map_serve_all m [] = ([], m)"
| "map_serve_all m (req # reqs) =
     (case map_server m req of (resp, m) \<Rightarrow> case map_serve_all m reqs of (resps, m) \<Rightarrow> (resp # resps, m))"

text \<open>The requests of one client after the other, on any server.\<close>

fun serve_all :: "('s \<Rightarrow> ClientRequest \<Rightarrow> (ClientResponse \<times> 's) option) \<Rightarrow> 's \<Rightarrow> ClientRequest list \<Rightarrow> (ClientResponse list \<times> 's) option" where
  "serve_all serve s [] = Some ([], s)"
| "serve_all serve s (req # reqs) =
     (case serve s req of
        None \<Rightarrow> None
      | Some (resp, s) \<Rightarrow> (case serve_all serve s reqs of None \<Rightarrow> None | Some (resps, s) \<Rightarrow> Some (resp # resps, s)))"

definition RequestFits :: "ClientRequest \<Rightarrow> bool" where
  "RequestFits req \<longleftrightarrow> length (creq_key req) \<le> unat kMaxFieldSize \<and> length (creq_value req) \<le> unat kMaxFieldSize"

text \<open>
  The contract: with room for one more write, a request is answered like on the map. The first argument of the invariant
  is the number of writes there is room for.
\<close>

locale client_service =
  fixes serve :: "'s \<Rightarrow> ClientRequest \<Rightarrow> (ClientResponse \<times> 's) option"
    and inv :: "nat \<Rightarrow> 's \<Rightarrow> bool"
    and abs :: "'s \<Rightarrow> bytes \<rightharpoonup> bytes"
  assumes serves: "inv (Suc n) s \<Longrightarrow> RequestFits req \<Longrightarrow>
    \<exists>s'. serve s req = Some (fst (map_server (abs s) req), s') \<and> inv n s' \<and> abs s' = snd (map_server (abs s) req)"
begin

lemma serve_all_refines:
  assumes "inv (length reqs + n) s" "list_all RequestFits reqs"
  shows "\<exists>s'. serve_all serve s reqs = Some (fst (map_serve_all (abs s) reqs), s') \<and> inv n s' \<and> abs s' = snd (map_serve_all (abs s) reqs)"
  using assms
proof (induction reqs arbitrary: s)
  case (Cons req reqs)
  then obtain s1 where s1: "serve s req = Some (fst (map_server (abs s) req), s1)" "inv (length reqs + n) s1"
    "abs s1 = snd (map_server (abs s) req)"
    using serves [of "length reqs + n" s req] by auto
  obtain s2 where "serve_all serve s1 reqs = Some (fst (map_serve_all (abs s1) reqs), s2)" "inv n s2"
    "abs s2 = snd (map_serve_all (abs s1) reqs)"
    using Cons.IH [OF s1(2)] Cons.prems(2) by auto
  then show ?case using s1 by (simp split: prod.split)
qed simp

end

section \<open>The handler without Raft meets the contract\<close>

definition local_inv :: "HandlerEnv \<Rightarrow> nat \<Rightarrow> RequestHandler \<Rightarrow> bool" where
  "local_inv env n h \<longleftrightarrow> (\<exists>st rs. rh_backend h = Local st \<and> storage_clean (env_hash env) n rs st)"

definition handler_map :: "HandlerEnv \<Rightarrow> RequestHandler \<Rightarrow> bytes \<rightharpoonup> bytes" where
  "handler_map env h = ShardedKV_abs (env_hash env) (ds_kv (backend_storage (rh_backend h)))"

lemma wal_effect_index [simp]: "wal_effect (r\<lparr>w_index := i\<rparr>) = wal_effect r"
  by (rule ext) (simp add: wal_effect_def split: WalOp.split)

lemma storage_write_map:
  assumes clean: "storage_clean hash (Suc n) rs st" and valid: "\<And>r. write_record wop = Inr r \<Longrightarrow> WalRecordValid r"
  obtains st' rs' where
    "DurableStorage_write hash st wop = Some (case write_record wop of Inl e \<Rightarrow> e | Inr _ \<Rightarrow> fst (write_apply hash (ds_kv st) wop), st')"
    "storage_clean hash n rs' st'"
    "ShardedKV_abs hash (ds_kv st') = (case write_record wop of Inl _ \<Rightarrow> ShardedKV_abs hash (ds_kv st)
       | Inr r \<Rightarrow> wal_effect r (ShardedKV_abs hash (ds_kv st)))"
proof (cases "write_record wop")
  case (Inl e)
  then show thesis using that [of st rs] storage_clean_budget [OF clean, of n] by (simp add: DurableStorage_write_def)
next
  case (Inr r)
  obtain st' where st': "DurableStorage_write hash st wop = Some (fst (write_apply hash (ds_kv st) wop), st')"
    "storage_clean hash n (rs @ [r\<lparr>w_index := last_wal_index 0 rs + 1\<rparr>]) st'"
    using DurableStorage_write_clean [OF clean Inr valid [OF Inr]] by blast
  have "ShardedKV_abs hash (ds_kv st') = wal_effect r (ShardedKV_abs hash (ds_kv st))"
    using storage_cleanD(12) [OF st'(2)] storage_cleanD(12) [OF clean] by simp
  then show thesis using that [OF _ st'(2)] st'(1) Inr by simp
qed

lemma Handle_local:
  assumes "local_inv env (Suc n) h" "RequestFits req"
  shows "\<exists>h'. Handle env h req = Some (fst (map_server (handler_map env h) req), h') \<and> local_inv env n h'
    \<and> handler_map env h' = snd (map_server (handler_map env h) req)"
proof -
  let ?hash = "env_hash env"
  obtain st rs where h: "rh_backend h = Local st" "storage_clean ?hash (Suc n) rs st" using assms(1) by (auto simp: local_inv_def)
  note inv = storage_cleanD(11) [OF h(2)]
  let ?wop = "case creq_opcode req of Opcode_kDelete \<Rightarrow> WriteDelete (creq_key req) | _ \<Rightarrow> WriteSet (creq_key req) (creq_value req)"
  have valid: "WalRecordValid r" if "write_record ?wop = Inr r" for r
    using that assms(2) by (auto simp: WalRecordValid_def RequestFits_def split: Opcode.splits if_splits)
  obtain st' rs' where w: "DurableStorage_write ?hash st ?wop
      = Some (case write_record ?wop of Inl e \<Rightarrow> e | Inr _ \<Rightarrow> fst (write_apply ?hash (ds_kv st) ?wop), st')"
    "storage_clean ?hash n rs' st'"
    "ShardedKV_abs ?hash (ds_kv st') = (case write_record ?wop of Inl _ \<Rightarrow> ShardedKV_abs ?hash (ds_kv st)
       | Inr r \<Rightarrow> wal_effect r (ShardedKV_abs ?hash (ds_kv st)))"
    using storage_write_map [OF h(2), of ?wop] valid by blast
  show ?thesis
  proof (cases "creq_opcode req")
    case Opcode_kGet
    have "local_inv env n h" using h storage_clean_budget [OF h(2), of n] by (auto simp: local_inv_def)
    then show ?thesis using Opcode_kGet h(1) sharded.get_result [OF inv, of "creq_key req"]
      by (auto simp: Handle_def answer_get_def DurableStorage_Get_def map_server_def Let_def handler_map_def ToResponseStatus_def
          split: option.split)
  next
    case Opcode_kSet
    then show ?thesis using w h(1) sharded.set_status [of ?hash "ds_kv st"]
      by (auto simp: Handle_def DurableStorage_Set_def map_server_def Let_def handler_map_def local_inv_def ToResponseStatus_def wal_effect_def)
  next
    case Opcode_kDelete
    then show ?thesis using w h(1) sharded.del_status [OF inv]
      by (auto simp: Handle_def DurableStorage_Delete_def map_server_def Let_def handler_map_def local_inv_def ToResponseStatus_def wal_effect_def)
  qed
qed

interpretation local_node: client_service "Handle env" "local_inv env" "handler_map env" for env
  by unfold_locales (rule Handle_local)

text \<open>A node opened on an empty directory, through any requests and up to a crash.\<close>

lemma new_node_inv:
  assumes "calm os" "n < 2 ^ 64"
  shows "local_inv env n (RequestHandler_new (Local (DurableStorage_new (env_hash env) dir [] os)) b)"
    "handler_map env (RequestHandler_new (Local (DurableStorage_new (env_hash env) dir [] os)) b) = Map.empty"
proof -
  have "storage_clean (env_hash env) n [] (DurableStorage_new (env_hash env) dir [] os)"
    using storage_clean_new [OF assms(1), of n] assms(2) by simp
  then show "local_inv env n (RequestHandler_new (Local (DurableStorage_new (env_hash env) dir [] os)) b)"
    "handler_map env (RequestHandler_new (Local (DurableStorage_new (env_hash env) dir [] os)) b) = Map.empty"
    using storage_cleanD(12) by (auto simp: local_inv_def handler_map_def RequestHandler_new_def)
qed

lemma new_node_serves:
  assumes "list_all RequestFits reqs" "length reqs < 2 ^ 64" "calm os"
  obtains h st rs where
    "serve_all (Handle env) (RequestHandler_new (Local (DurableStorage_new (env_hash env) dir [] os)) b) reqs
       = Some (fst (map_serve_all Map.empty reqs), h)"
    "rh_backend h = Local st" "storage_clean (env_hash env) 0 rs st" "handler_map env h = snd (map_serve_all Map.empty reqs)"
proof -
  note new = new_node_inv [OF assms(3,2), of env dir b]
  show thesis using local_node.serve_all_refines [OF _ assms(1), of env 0, simplified, OF new(1)] that by (auto simp: new(2) local_inv_def)
qed

section \<open>Concrete instances\<close>

definition demo_env :: HandlerEnv where
  "demo_env = \<lparr>env_hash = (\<lambda>_. 0), env_rpc = (\<lambda>_ _ n. (Inl (Status_Error ErrorCode_kIOError ''down''), n)), env_wait = (\<lambda>_ n. n), env_others = (\<lambda>n. n)\<rparr>"

definition demo_follower :: RaftNode where
  "demo_follower =
     \<lparr>rn_local_node_id = 1, rn_config = \<lparr>cfg_local_node_id = 1, cfg_leader_node_id = 0,
        cfg_peers = [\<lparr>peer_node_id = 1, peer_host = ''a'', peer_port = 7001\<rparr>, \<lparr>peer_node_id = 2, peer_host = ''b'', peer_port = 7002\<rparr>]\<rparr>,
      rn_storage = DurableStorage_new (\<lambda>_. 0) ''d'' [] [], rn_log = \<lparr>log_entries = []\<rparr>, rn_open_status = Status_Ok,
      rn_state = RaftState_kFollower, rn_current_term = 4, rn_voted_for = 2, rn_leader_id = 2, rn_commit_index = 0,
      rn_election_deadline = 250, rn_next_heartbeat = 0, rn_next_index = [], rn_match_index = [], rn_last_ack_time = [],
      rn_started = True, rn_stop = False, rn_state_file = None, rn_state_disk = None, rn_os = [], rn_clock = [], rn_rng = []\<rparr>"

definition demo_request :: "Opcode \<Rightarrow> u64 \<Rightarrow> bytes \<Rightarrow> ClientRequest" where
  "demo_request c i v = \<lparr>creq_request_id = i, creq_opcode = c, creq_key = [107], creq_value = v\<rparr>"

definition demo_heartbeat :: AppendEntriesRequest where
  "demo_heartbeat = \<lparr>ae_term = 4, ae_leader_id = 2, ae_prev_log_index = 0, ae_prev_log_term = 0, ae_leader_commit = 0, ae_entries = []\<rparr>"

section \<open>Properties\<close>

text \<open>
  C11. A single node is a durable map. On a node without Raft whose storage was opened on an empty directory, and whose system calls succeed,
  any sequence of client requests (with keys and values of at most 64 MiB, which the wire format guarantees) is answered exactly like
  on a map, errors included, and never blocks; and if the process then crashes, opening the directory again yields that map.
\<close>

theorem single_node_is_durable_map:
  assumes "list_all RequestFits reqs" "length reqs < 2 ^ 64" "calm os" "calm os'"
  shows "\<exists>h. serve_all (Handle env) (RequestHandler_new (Local (DurableStorage_new (env_hash env) dir [] os)) b) reqs
        = Some (fst (map_serve_all Map.empty reqs), h)
    \<and> (\<exists>st. DurableStorage_Open (env_hash env) dir (ww_disk (ds_wal (backend_storage (rh_backend h)))) os' = Inr st
        \<and> ShardedKV_abs (env_hash env) (ds_kv st) = snd (map_serve_all Map.empty reqs))"
proof -
  obtain h st rs where h: "serve_all (Handle env) (RequestHandler_new (Local (DurableStorage_new (env_hash env) dir [] os)) b) reqs
       = Some (fst (map_serve_all Map.empty reqs), h)"
    "rh_backend h = Local st" "storage_clean (env_hash env) 0 rs st" "handler_map env h = snd (map_serve_all Map.empty reqs)"
    using new_node_serves [OF assms(1-3)] .
  obtain st' where "DurableStorage_Open (env_hash env) dir (ww_disk (ds_wal st)) os' = Inr st'"
    "ShardedKV_abs (env_hash env) (ds_kv st') = ShardedKV_abs (env_hash env) (ds_kv st)"
    using storage_clean_reopen [OF h(3) assms(4), of dir] by blast
  then show ?thesis using h by (auto simp: handler_map_def)
qed

theorem single_node_is_durable_map_witness:
  "\<exists>h. serve_all (Handle demo_env) (RequestHandler_new (Local (DurableStorage_new (\<lambda>_. 0) ''d'' [] [])) False)
        [demo_request Opcode_kSet 1 [5, 6], demo_request Opcode_kGet 2 [], demo_request Opcode_kSet 3 []]
      = Some ([\<lparr>cresp_request_id = 1, cresp_status = ResponseStatus_kOk, cresp_value = [], cresp_leader_hint = 0\<rparr>,
          \<lparr>cresp_request_id = 2, cresp_status = ResponseStatus_kOk, cresp_value = [5, 6], cresp_leader_hint = 0\<rparr>,
          \<lparr>cresp_request_id = 3, cresp_status = ResponseStatus_kBadRequest, cresp_value = [], cresp_leader_hint = 0\<rparr>], h)
    \<and> (\<exists>st. DurableStorage_Open (\<lambda>_. 0) ''d'' (ww_disk (ds_wal (backend_storage (rh_backend h)))) [SysShort 3] = Inr st
        \<and> ShardedKV_abs (\<lambda>_. 0) (ds_kv st) = [[107] \<mapsto> [5, 6]])"
  using single_node_is_durable_map [of "[demo_request Opcode_kSet 1 [5, 6], demo_request Opcode_kGet 2 [], demo_request Opcode_kSet 3 []]"
      "[]" "[SysShort 3]" demo_env "''d''" False]
  by (simp add: RequestFits_def demo_request_def kMaxFieldSize_def map_server_def Let_def) (simp add: demo_env_def)

text \<open>
  A node that is not the leader never answers from its own state: as long as stale reads are not allowed and the other threads leave the
  node alone, every client request is answered with WRONG_LEADER, the leader the node knows, and no value, and the node does not change.
\<close>

lemma follower_redirects:
  assumes "rh_backend h = Replicated node" "rn_state node \<noteq> RaftState_kLeader" "\<not> rh_allow_stale_reads h" "env_others env = (\<lambda>n. n)"
  shows "Handle env h req = Some (\<lparr>cresp_request_id = creq_request_id req, cresp_status = ResponseStatus_kWrongLeader,
    cresp_value = [], cresp_leader_hint = rn_leader_id node\<rparr>, h)"
  using assms by (cases "creq_opcode req") (simp_all add: Handle_def IsLeader_def Let_def wrong_leader_def)

lemma follower_redirects_example:
  "Handle demo_env (RequestHandler_new (Replicated demo_follower) False) (demo_request Opcode_kGet 7 [])
     = Some (\<lparr>cresp_request_id = 7, cresp_status = ResponseStatus_kWrongLeader, cresp_value = [], cresp_leader_hint = 2\<rparr>,
         RequestHandler_new (Replicated demo_follower) False)"
  using follower_redirects [of "RequestHandler_new (Replicated demo_follower) False" demo_follower demo_env "demo_request Opcode_kGet 7 []"]
  by (simp add: RequestHandler_new_def demo_follower_def demo_env_def demo_request_def)

text \<open>
  C14. The RPCs of the node reach the other node's handlers unchanged: the handler of a cluster request made by \<^verbatim>\<open>StartElection\<close> or
  \<^verbatim>\<open>ReplicateToPeer\<close> answers with a body that the sender decodes to exactly what \<^verbatim>\<open>HandleRequestVote\<close> or \<^verbatim>\<open>HandleAppendEntries\<close> returned, and
  leaves the node those handlers leave. The AppendEntries request must fit the format's 32-bit lengths.
\<close>

theorem cluster_rpc_reaches_node:
  assumes "rh_backend h = Replicated node" "AppendEntriesFits areq" "HandleAppendEntries (env_hash env) areq node = Some (aresp, anode)"
  shows "(\<exists>resp h'. HandleCluster env h (vote_rpc vreq) = Some (resp, h') \<and> clresp_status resp = ResponseStatus_kOk
      \<and> DecodeRequestVoteResponse (clresp_body resp) = Inr (fst (HandleRequestVote vreq node))
      \<and> rh_backend h' = Replicated (snd (HandleRequestVote vreq node)))
    \<and> (\<exists>resp h'. HandleCluster env h (append_rpc areq) = Some (resp, h') \<and> clresp_status resp = ResponseStatus_kOk
      \<and> DecodeAppendEntriesResponse (clresp_body resp) = Inr aresp \<and> rh_backend h' = Replicated anode)"
  using assms vote_request_complete append_request_complete response_complete
  by (auto simp: HandleCluster_def Let_def vote_rpc_def append_rpc_def split: prod.split)

theorem cluster_rpc_reaches_node_witness:
  "\<exists>resp h'. HandleCluster demo_env (RequestHandler_new (Replicated demo_follower) False) (append_rpc demo_heartbeat) = Some (resp, h')
     \<and> clresp_status resp = ResponseStatus_kOk \<and> DecodeAppendEntriesResponse (clresp_body resp) = Inr \<lparr>aer_term = 4, aer_success = True\<rparr>
     \<and> rh_backend h' = Replicated demo_follower"
proof -
  have "HandleAppendEntries (env_hash demo_env) demo_heartbeat demo_follower = Some (\<lparr>aer_term = 4, aer_success = True\<rparr>, demo_follower)"
    by (simp add: HandleAppendEntries_def demo_heartbeat_def demo_follower_def Let_def ResetElectionDeadlineLocked_def steady_clock_now_def
        RandomElectionTimeout_def kElectionTimeoutMin_def)
  moreover have "AppendEntriesFits demo_heartbeat" by (simp add: AppendEntriesFits_def demo_heartbeat_def)
  ultimately show ?thesis
    using cluster_rpc_reaches_node [of "RequestHandler_new (Replicated demo_follower) False" demo_follower demo_heartbeat demo_env]
    by (simp add: RequestHandler_new_def)
qed

end
