(* ===== verification/Server_Session.thy ===== *)
theory Server_Session
  imports Net_Connection Posix_IO Request_Handler
begin

text \<open>
  \<^verbatim>\<open>server/connection_session.cpp\<close>: the session of the blocking and thread-pool servers with one client. The socket is a pair of
  descriptors: what the client will send, and what the server has written to it.
\<close>

section \<open>The session\<close>

lemma sys_read_progress:
  assumes "sys_read fd n = (IoBytes bs, fd')" "bs \<noteq> []"
  shows "length (fd_rest fd') + length (fd_os fd') < length (fd_rest fd) + length (fd_os fd)"
proof -
  have "fd_rest fd = bs @ fd_rest fd'" "length (fd_os fd') \<le> length (fd_os fd)" using sys_read_Bytes [OF assms(1)] by simp_all
  then show ?thesis using assms(2) by (cases bs) simp_all
qed

text \<open>The inner loop answers the complete frames of the buffer; it says whether the session goes on.\<close>

function ServeFrames :: "'s Handler \<Rightarrow> bytes \<Rightarrow> wfd \<Rightarrow> 's \<Rightarrow> (bool \<times> bytes \<times> wfd \<times> 's) option" where
  "ServeFrames hnd read_buffer out s =
     (case TryParseFrame read_buffer of
        (ParseResult_kNeedMore, buffer, _) \<Rightarrow> Some (True, buffer, out, s)
      | (ParseResult_kError, buffer, _) \<Rightarrow> Some (False, buffer, out, s)
      | (ParseResult_kComplete, buffer, frame) \<Rightarrow>
          (case answer_frame hnd s (the frame) of
             None \<Rightarrow> None
           | Some (None, s) \<Rightarrow> Some (False, buffer, out, s)
           | Some (Some encoded, s) \<Rightarrow>
               (case WriteFull out encoded of
                  (status, out) \<Rightarrow> if \<not> ok status then Some (False, buffer, out, s) else ServeFrames hnd buffer out s)))"
  by pat_completeness auto
termination
  by (relation "measure (\<lambda>(hnd, buffer, out, s). length buffer)") (auto dest!: sym [THEN TryParseFrame_shrinks(1)])

declare ServeFrames.simps [simp del]

function Serve_loop :: "'s Handler \<Rightarrow> rfd \<Rightarrow> wfd \<Rightarrow> bytes \<Rightarrow> 's \<Rightarrow> (wfd \<times> 's) option" where
  "Serve_loop hnd fd out read_buffer s =
     (case ServeFrames hnd read_buffer out s of
        None \<Rightarrow> None
      | Some (False, _, out, s) \<Rightarrow> Some (out, s)
      | Some (True, read_buffer, out, s) \<Rightarrow>
          (case sys_read fd 4096 of
             (IoIntr, fd') \<Rightarrow> Serve_loop hnd fd' out read_buffer s
           | (IoErr e, fd') \<Rightarrow> Some (out, s)
           | (IoBytes chunk, fd') \<Rightarrow> if chunk = [] then Some (out, s) else Serve_loop hnd fd' out (read_buffer @ chunk) s))"
  by pat_completeness auto
termination
proof (relation "measure (\<lambda>(hnd, fd, out, buffer, s). length (fd_rest fd) + length (fd_os fd))", goal_cases)
  case (2 hnd fd out buffer s a x y xa ya xb yb xc yc)
  then show ?case using sys_read_Intr [of fd 4096] by auto
next
  case (3 hnd fd out buffer s a x y xa ya xb yb xc yc chunk)
  then show ?case using sys_read_progress [of fd 4096 chunk yc] by simp
qed simp

declare Serve_loop.simps [simp del]

definition ServeClientSession :: "'s Handler \<Rightarrow> rfd \<Rightarrow> wfd \<Rightarrow> 's \<Rightarrow> (wfd \<times> 's) option" where
  "ServeClientSession hnd fd out s = Serve_loop hnd fd out [] s"

section \<open>The session and the connection\<close>

lemma WriteFull_no_fail:
  assumes "no_fail (wf_os out)"
  obtains st out' where "WriteFull out bs = (st, out')" "ok st" "wf_data out' = wf_data out @ bs" "no_fail (wf_os out')"
proof -
  obtain st out' where w: "WriteFull out bs = (st, out')" by fastforce
  then show thesis using that write_loop_prefix [of "''write: ''" out bs 0 st out'] assms by (auto simp: WriteFull_def)
qed

lemma ServeFrames_ProcessFrames:
  assumes "no_fail (wf_os out)" "conn_read_buffer conn = buffer" "conn_write_buffer conn = wf_data out" "\<not> conn_closed conn"
  shows "case ProcessFrames hnd conn s of
      None \<Rightarrow> ServeFrames hnd buffer out s = None
    | Some (conn', s') \<Rightarrow> \<exists>out' rest. ServeFrames hnd buffer out s = Some (\<not> conn_closed conn', rest, out', s')
        \<and> wf_data out' = conn_write_buffer conn' \<and> no_fail (wf_os out') \<and> (\<not> conn_closed conn' \<longrightarrow> rest = conn_read_buffer conn')"
  using assms
proof (induction conn s arbitrary: buffer out rule: ProcessFrames_induct [where hnd = hnd])
  case (need_more conn s)
  then show ?case by (simp add: ProcessFrames_rounds(1) ServeFrames.simps [of _ buffer])
next
  case (failed conn s f)
  then show ?case by (simp add: ProcessFrames_rounds(2) ServeFrames.simps [of _ buffer])
next
  case (stuck conn s rest f)
  then show ?case by (simp add: ProcessFrames_rounds(3) ServeFrames.simps [of _ buffer])
next
  case (closing conn s rest f s')
  then show ?case by (simp add: ProcessFrames_rounds(4) ServeFrames.simps [of _ buffer])
next
  case (answered conn s rest f b s')
  obtain st out' where w: "WriteFull out b = (st, out')" "ok st" "wf_data out' = wf_data out @ b" "no_fail (wf_os out')"
    using WriteFull_no_fail [OF answered(4)] .
  let ?c = "conn\<lparr>conn_read_buffer := rest, conn_write_buffer := conn_write_buffer conn @ b\<rparr>"
  have p: "ProcessFrames hnd conn s = ProcessFrames hnd ?c s'" using answered(1,2) by (simp add: ProcessFrames_rounds(5))
  have f: "ServeFrames hnd buffer out s = ServeFrames hnd rest out' s'"
    using answered(1,2,5) w by (simp add: ServeFrames.simps [of _ buffer])
  show ?case unfolding p f by (rule answered(3)) (use w answered(6,7) in simp_all)
qed

text \<open>The whole session against the reference that gets all the client's bytes at once.\<close>

lemma Serve_loop_stream:
  assumes "no_fail (fd_os fd)" "no_fail (wf_os out)"
    and "conn_read_buffer conn = buffer" "conn_write_buffer conn = wf_data out" "\<not> conn_closed conn"
  shows "map_option (\<lambda>(out, s). (wf_data out, s)) (Serve_loop hnd fd out buffer s)
    = map_option (\<lambda>(conn, s). (conn_write_buffer conn, s)) (ProcessFrames hnd (feed (fd_rest fd) conn) s)"
  using assms
proof (induction "length (fd_rest fd) + length (fd_os fd)" arbitrary: fd out buffer conn s rule: less_induct)
  case less
  note frames = ServeFrames_ProcessFrames [OF less.prems(2-5), of hnd s]
  note one = ProcessFrames_feed [OF less.prems(5), where hnd = hnd and s = s and extra = "fd_rest fd"]
  show ?case
  proof (cases "ProcessFrames hnd conn s")
    case None
    then show ?thesis using frames one by (simp add: Serve_loop.simps [of _ fd])
  next
    case (Some a)
    obtain conn1 s1 where a: "a = (conn1, s1)" by fastforce
    then obtain out1 rest where f: "ServeFrames hnd buffer out s = Some (\<not> conn_closed conn1, rest, out1, s1)"
      "wf_data out1 = conn_write_buffer conn1" "no_fail (wf_os out1)" "\<not> conn_closed conn1 \<longrightarrow> rest = conn_read_buffer conn1"
      using frames Some by auto
    show ?thesis
    proof (cases "conn_closed conn1")
      case True
      then show ?thesis using f one Some a by (auto simp: Serve_loop.simps [of _ fd])
    next
      case False
      then have one: "ProcessFrames hnd (feed (fd_rest fd) conn) s = ProcessFrames hnd (feed (fd_rest fd) conn1) s1"
        using one Some a by simp
      obtain r fd1 where r: "sys_read fd 4096 = (r, fd1)" by fastforce
      show ?thesis
      proof (cases r)
        case IoIntr
        then have "Serve_loop hnd fd out buffer s = Serve_loop hnd fd1 out1 (conn_read_buffer conn1) s1"
          using f False r by (simp add: Serve_loop.simps [of _ fd])
        then show ?thesis using less.hyps [of fd1 out1 conn1] sys_read_Intr [of fd 4096 fd1] r IoIntr less.prems(1) f False one by simp
      next
        case (IoErr e)
        then show ?thesis using sys_read_Err r less.prems(1) by blast
      next
        case (IoBytes chunk)
        note b = sys_read_Bytes [OF r [unfolded IoBytes]]
        show ?thesis
        proof (cases "chunk = []")
          case True
          then have "fd_rest fd = []" using b by auto
          moreover have "ProcessFrames hnd conn1 s1 = Some (conn1, s1)"
            using ProcessFrames_feed [OF less.prems(5), where hnd = hnd and s = s and extra = "[]"] Some a False by simp
          ultimately show ?thesis using True f False r IoBytes one by (simp add: Serve_loop.simps [of _ fd])
        next
          case nonempty: False
          then have "Serve_loop hnd fd out buffer s = Serve_loop hnd fd1 out1 (conn_read_buffer conn1 @ chunk) s1"
            using f False r IoBytes by (simp add: Serve_loop.simps [of _ fd])
          moreover have "length (fd_rest fd1) + length (fd_os fd1) < length (fd_rest fd) + length (fd_os fd)" using sys_read_progress [OF r [unfolded IoBytes] nonempty] .
          ultimately show ?thesis
            using less.hyps [of fd1 out1 "feed chunk conn1"] b less.prems(1) f False one by simp
        qed
      qed
    qed
  qed
qed

lemma ServeClientSession_stream:
  assumes "no_fail ros" "no_fail wos"
  shows "map_option (\<lambda>(out, s). (wf_data out, s)) (ServeClientSession hnd \<lparr>fd_rest = bs, fd_os = ros\<rparr> \<lparr>wf_data = [], wf_os = wos\<rparr> s)
    = map_option (\<lambda>(conn, s). (conn_write_buffer conn, s)) (ProcessFrames hnd (feed bs Connection_new) s)"
  using Serve_loop_stream [where fd = "\<lparr>fd_rest = bs, fd_os = ros\<rparr>" and out = "\<lparr>wf_data = [], wf_os = wos\<rparr>" and conn = Connection_new
      and hnd = hnd and s = s and buffer = "[]"] assms
  by (simp add: ServeClientSession_def Connection_new_def)

section \<open>Client requests over the wire\<close>

text \<open>The handler of the servers: \<^verbatim>\<open>RequestHandler\<close> with its two entry points.\<close>

definition server_handler :: "HandlerEnv \<Rightarrow> RequestHandler Handler" where
  "server_handler env = \<lparr>hd_handle = Handle env, hd_cluster = HandleCluster env\<rparr>"

lemma answer_all_serve_all:
  assumes "serve_all (hd_handle hnd) s reqs = Some (resps, s')" "EncodeFrames (map Frame_ClientResponse resps) = Some out"
  shows "answer_all hnd s (map Frame_ClientRequest reqs) = Some (out, s')"
  using assms
proof (induction reqs arbitrary: s resps out)
  case (Cons req reqs)
  obtain resp s1 resps1 where r: "hd_handle hnd s req = Some (resp, s1)" "serve_all (hd_handle hnd) s1 reqs = Some (resps1, s')" "resps = resp # resps1"
    using Cons.prems(1) by (auto split: option.splits prod.splits)
  obtain b bs where b: "EncodeClientResponse resp = Inr b" "EncodeFrames (map Frame_ClientResponse resps1) = Some bs" "out = b @ bs"
    using Cons.prems(2) r(3) by (auto split: sum.splits option.splits)
  show ?case using Cons.IH [OF r(2) b(2)] r(1) b(1,3) by simp
qed simp

text \<open>
  A response has room for every value a request can carry: the two formats have the same overhead for a key of one byte, and no request has
  an empty key.
\<close>

definition values_fit :: "(bytes \<rightharpoonup> bytes) \<Rightarrow> bool" where
  "values_fit m \<longleftrightarrow> (\<forall>v \<in> ran m. length v + 18 \<le> unat kMaxPayloadSize)"

lemma map_server_fits:
  assumes "FrameValid (Frame_ClientRequest req)" "values_fit m"
  shows "FrameValid (Frame_ClientResponse (fst (map_server m req)))" "values_fit (snd (map_server m req))"
proof -
  have v: "length (creq_value req) + 18 \<le> unat kMaxPayloadSize" using assms(1) by (cases "creq_key req") auto
  have m: "length v + 18 \<le> unat kMaxPayloadSize" if "m k = Some v" for k v using assms(2) that by (auto simp: values_fit_def ran_def)
  show "FrameValid (Frame_ClientResponse (fst (map_server m req)))"
    using m by (auto simp: map_server_def Let_def split: Opcode.split option.split)
  show "values_fit (snd (map_server m req))"
    using assms(2) v by (auto simp: values_fit_def map_server_def Let_def ran_def split: Opcode.split option.split if_splits)
qed

lemma map_serve_all_encodes:
  "EncodeFrames (map Frame_ClientRequest reqs) = Some bs \<Longrightarrow> values_fit m \<Longrightarrow>
     (\<exists>out. EncodeFrames (map Frame_ClientResponse (fst (map_serve_all m reqs))) = Some out) \<and> values_fit (snd (map_serve_all m reqs))"
proof (induction reqs arbitrary: m bs)
  case (Cons req reqs)
  obtain b bs' where b: "EncodeFrame (Frame_ClientRequest req) = Inr b" "EncodeFrames (map Frame_ClientRequest reqs) = Some bs'"
    using Cons.prems(1) by (auto split: sum.splits option.splits)
  then have "FrameValid (Frame_ClientRequest req)" by (simp only: EncodeFrame_eq)
  note fits = map_server_fits [OF this Cons.prems(2)]
  obtain e where "EncodeFrame (Frame_ClientResponse (fst (map_server m req))) = Inr e" using fits(1) EncodeFrame_eq by blast
  then show ?case using Cons.IH [OF b(2) fits(2)] by (auto simp: case_prod_unfold)
qed simp

lemma EncodeFrames_RequestFits:
  "EncodeFrames (map Frame_ClientRequest reqs) = Some bs \<Longrightarrow> list_all RequestFits reqs"
proof (induction reqs arbitrary: bs)
  case (Cons req reqs)
  obtain b bs' where b: "EncodeFrame (Frame_ClientRequest req) = Inr b" "EncodeFrames (map Frame_ClientRequest reqs) = Some bs'"
    using Cons.prems by (auto split: sum.splits option.splits)
  then have "FrameValid (Frame_ClientRequest req)" by (simp only: EncodeFrame_eq)
  then have "RequestFits req" by (simp add: RequestFits_def kMaxFieldSize_def)
  then show ?case using Cons.IH [OF b(2)] by simp
qed simp

text \<open>A whole session of well-formed requests with a node without Raft, in terms of the map behind it.\<close>

lemma session_refines:
  assumes "EncodeFrames (map Frame_ClientRequest reqs) = Some bs" "local_inv env (length reqs + n) h" "values_fit (handler_map env h)"
    and "no_fail ros" "no_fail wos"
  obtains sock h' where
    "ServeClientSession (server_handler env) \<lparr>fd_rest = bs, fd_os = ros\<rparr> \<lparr>wf_data = [], wf_os = wos\<rparr> h = Some (sock, h')"
    "EncodeFrames (map Frame_ClientResponse (fst (map_serve_all (handler_map env h) reqs))) = Some (wf_data sock)"
    "local_inv env n h'" "handler_map env h' = snd (map_serve_all (handler_map env h) reqs)" "values_fit (handler_map env h')"
proof -
  obtain h' where h: "serve_all (Handle env) h reqs = Some (fst (map_serve_all (handler_map env h) reqs), h')"
    "local_inv env n h'" "handler_map env h' = snd (map_serve_all (handler_map env h) reqs)"
    using local_node.serve_all_refines [OF assms(2) EncodeFrames_RequestFits [OF assms(1)]] by blast
  obtain out where out: "EncodeFrames (map Frame_ClientResponse (fst (map_serve_all (handler_map env h) reqs))) = Some out"
    and fit: "values_fit (handler_map env h')"
    using map_serve_all_encodes [OF assms(1,3)] h(3) by auto
  have "answer_all (server_handler env) h (map Frame_ClientRequest reqs) = Some (out, h')"
    using answer_all_serve_all [of "server_handler env", OF _ out] h(1) by (simp add: server_handler_def)
  from ProcessFrames_pipeline [OF assms(1) this partial_frame_Nil, of "feed bs Connection_new"]
  have "ProcessFrames (server_handler env) (feed bs Connection_new) h = Some ((feed bs Connection_new)\<lparr>conn_read_buffer := [], conn_write_buffer := out\<rparr>, h')"
    by (simp add: Connection_new_def)
  then obtain sock where "ServeClientSession (server_handler env) \<lparr>fd_rest = bs, fd_os = ros\<rparr> \<lparr>wf_data = [], wf_os = wos\<rparr> h = Some (sock, h')"
    "wf_data sock = out"
    using ServeClientSession_stream [OF assms(4,5), of "server_handler env" bs h] by auto
  then show thesis using that h(2,3) fit out by blast
qed

section \<open>Properties\<close>

text \<open>
  C12. The two server designs give a client the same answers. For any handler and any bytes the client sends before it ends its stream, well-formed
  or not, what \<^verbatim>\<open>ServeClientSession\<close> writes to the socket is what \<^verbatim>\<open>Connection\<close> queues when the same bytes arrive in any number of readable
  events, and the handler ends in the same state, as long as no read or write fails; the sizes and interruptions of the
  system calls of either side do not matter, and one of them never returns only if the other does not.
\<close>

theorem blocking_and_event_driven_agree:
  assumes "no_fail ros" "no_fail wos" "list_all drained fds" "bs = concat (map recv_bytes fds)"
  shows "map_option (\<lambda>(out, s). (wf_data out, s)) (ServeClientSession hnd \<lparr>fd_rest = bs, fd_os = ros\<rparr> \<lparr>wf_data = [], wf_os = wos\<rparr> s)
    = map_option (\<lambda>(conn, s). (conn_write_buffer conn, s)) (readable_events hnd fds Connection_new s)"
  using ServeClientSession_stream [OF assms(1,2), of hnd bs s]
    arg_cong [OF readable_events_new [OF assms(3), of hnd s], of "map_option (\<lambda>(w, c, s). (w, s))"]
  unfolding assms(4) option.map_comp comp_def case_prod_unfold by simp

theorem blocking_and_event_driven_agree_witness:
  "\<exists>bs. EncodeFrame (echo_request 1) = Inr bs
     \<and> map_option (\<lambda>(out, s). (wf_data out, s)) (ServeClientSession echo_handler \<lparr>fd_rest = bs, fd_os = [SysIntr, SysShort 1]\<rparr> \<lparr>wf_data = [], wf_os = [SysIntr]\<rparr> 5)
         = map_option (\<lambda>(conn, s). (conn_write_buffer conn, s))
             (readable_events echo_handler [[RecvBytes (take 5 bs)], [RecvIntr, RecvBytes (drop 5 bs)]] Connection_new 5)"
proof -
  obtain bs where bs: "EncodeFrame (echo_request 1) = Inr bs" by (simp add: EncodeFrame_eq echo_request_def del: EncodeFrame.simps)
  then have l: "5 < length bs" by (auto simp: EncodeFrame_eq)
  let ?fds = "[[RecvBytes (take 5 bs)], [RecvIntr, RecvBytes (drop 5 bs)]]"
  have "list_all drained ?fds" "bs = concat (map recv_bytes ?fds)" using l by (auto simp: drained_def)
  from blocking_and_event_driven_agree [OF _ _ this, of "[SysIntr, SysShort 1]" "[SysIntr]" echo_handler 5] show ?thesis
    using bs by (intro exI [of _ bs]) (simp del: readable_events.simps EncodeFrame.simps)
qed

text \<open>
  C10. A single node serves a durable map over TCP. On a node without Raft with an empty directory, a client that sends the encodings of any
  requests and ends its stream receives exactly the encodings of the responses of a map to these requests, in order: the session ends, no
  response is too large for its frame, and the sizes and interruptions of the system calls do not matter. Fewer than \<open>2 ^ 64\<close> requests, and
  system calls that do not fail.
\<close>

theorem session_serves_map:
  assumes "EncodeFrames (map Frame_ClientRequest reqs) = Some bs" "length reqs < 2 ^ 64" "calm os" "no_fail ros" "no_fail wos"
  shows "\<exists>sock h. ServeClientSession (server_handler env) \<lparr>fd_rest = bs, fd_os = ros\<rparr> \<lparr>wf_data = [], wf_os = wos\<rparr>
        (RequestHandler_new (Local (DurableStorage_new (env_hash env) dir [] os)) b) = Some (sock, h)
    \<and> EncodeFrames (map Frame_ClientResponse (fst (map_serve_all Map.empty reqs))) = Some (wf_data sock)"
proof -
  note new = new_node_inv [OF assms(3), of "length reqs + 0" env dir b]
  show ?thesis
    using session_refines [OF assms(1) new(1) _ assms(4,5)] assms(2) new(2) by (fastforce simp: values_fit_def)
qed

theorem session_serves_map_witness:
  "\<exists>bs sock h. EncodeFrames [Frame_ClientRequest (demo_request Opcode_kSet 1 [5, 6]), Frame_ClientRequest (demo_request Opcode_kGet 2 [])] = Some bs
     \<and> ServeClientSession (server_handler demo_env) \<lparr>fd_rest = bs, fd_os = [SysShort 3, SysIntr]\<rparr> \<lparr>wf_data = [], wf_os = [SysShort 0]\<rparr>
         (RequestHandler_new (Local (DurableStorage_new (\<lambda>_. 0) ''d'' [] [])) False) = Some (sock, h)
     \<and> EncodeFrames [Frame_ClientResponse \<lparr>cresp_request_id = 1, cresp_status = ResponseStatus_kOk, cresp_value = [], cresp_leader_hint = 0\<rparr>,
         Frame_ClientResponse \<lparr>cresp_request_id = 2, cresp_status = ResponseStatus_kOk, cresp_value = [5, 6], cresp_leader_hint = 0\<rparr>] = Some (wf_data sock)"
proof -
  let ?reqs = "[demo_request Opcode_kSet 1 [5, 6], demo_request Opcode_kGet 2 []]"
  obtain bs where bs: "EncodeFrames (map Frame_ClientRequest ?reqs) = Some bs"
    by (simp add: EncodeClientRequest_def demo_request_def Let_def)
  have m: "fst (map_serve_all Map.empty ?reqs) = [\<lparr>cresp_request_id = 1, cresp_status = ResponseStatus_kOk, cresp_value = [], cresp_leader_hint = 0\<rparr>,
      \<lparr>cresp_request_id = 2, cresp_status = ResponseStatus_kOk, cresp_value = [5, 6], cresp_leader_hint = 0\<rparr>]"
    by (simp add: map_server_def demo_request_def Let_def)
  have hash: "env_hash demo_env = (\<lambda>_. 0)" by (simp add: demo_env_def)
  show ?thesis
    using session_serves_map [OF bs, of "[]" "[SysShort 3, SysIntr]" "[SysShort 0]" demo_env "''d''" False] bs
    unfolding m hash list.map by auto
qed

end
