(* ===== verification/Cluster_Transport.thy ===== *)
theory Cluster_Transport
  imports Socket_Utils Server_Session
begin

text \<open>
  \<^verbatim>\<open>cluster/transport.{h,cpp}\<close>: how a node calls another. What comes back on a fresh connection is an argument: a function from the bytes sent
  to the outcomes of the reads that follow. A read beyond the list blocks, and then the call never returns (\<open>None\<close>).
\<close>

section \<open>The transport\<close>

record ClusterTransport =
  ct_local_node_id :: u32
  ct_peer_fds :: "(u32 \<times> int) list"

definition ClusterTransport_new :: "u32 \<Rightarrow> ClusterTransport" where
  "ClusterTransport_new local_node_id = \<lparr>ct_local_node_id = local_node_id, ct_peer_fds = []\<rparr>"

definition GetOrConnect :: "'a resolver \<Rightarrow> PeerInfo \<Rightarrow> ClusterTransport \<Rightarrow> Kernel \<Rightarrow> int Result \<times> ClusterTransport \<times> Kernel" where
  "GetOrConnect getaddrinfo peer t k =
     (case map_of (ct_peer_fds t) (peer_node_id peer) of
        Some fd \<Rightarrow> (Inr fd, t, k)
      | None \<Rightarrow>
          (case TcpConnect getaddrinfo (peer_host peer) (peer_port peer) k of
             (Inl status, k) \<Rightarrow> (Inl status, t, k)
           | (Inr fd, k) \<Rightarrow> (Inr fd, t\<lparr>ct_peer_fds := (peer_node_id peer, fd) # ct_peer_fds t\<rparr>, k)))"

definition CloseAll :: "ClusterTransport \<Rightarrow> Kernel \<Rightarrow> ClusterTransport \<times> Kernel" where
  "CloseAll t k = (let k = fold (\<lambda>(node_id, fd) k. CloseQuietly fd k) (ct_peer_fds t) k in (t\<lparr>ct_peer_fds := []\<rparr>, k))"

definition ClusterTransport_destroy :: "ClusterTransport \<Rightarrow> Kernel \<Rightarrow> Kernel" where
  "ClusterTransport_destroy t k = snd (CloseAll t k)"

fun SendRpc_loop :: "int \<Rightarrow> recv list \<Rightarrow> bytes \<Rightarrow> Kernel \<Rightarrow> (ClusterResponse Result \<times> Kernel) option" where
  "SendRpc_loop fd reads buffer k =
     (case TryParseFrame buffer of
        (ParseResult_kComplete, buffer, frame) \<Rightarrow>
          let k = CloseQuietly fd k in
          (case frame of
             Some (Frame_ClusterResponse resp) \<Rightarrow> Some (Inr resp, k)
           | _ \<Rightarrow> Some (Inl (Status_Error ErrorCode_kIOError ''peer sent a non-cluster-response frame''), k))
      | (ParseResult_kError, buffer, frame) \<Rightarrow>
          Some (Inl (Status_Error ErrorCode_kIOError ''malformed cluster response from peer''), CloseQuietly fd k)
      | (ParseResult_kNeedMore, buffer, frame) \<Rightarrow>
          let closed = Some (Inl (Status_Error ErrorCode_kIOError ''connection closed while awaiting cluster response''), CloseQuietly fd k) in
          (case reads of
             [] \<Rightarrow> None
           | RecvBytes chunk # reads \<Rightarrow> if chunk = [] then closed else SendRpc_loop fd reads (buffer @ chunk) k
           | _ # reads \<Rightarrow> closed))"

declare SendRpc_loop.simps [simp del]

definition SendRpc :: "'a resolver \<Rightarrow> sys list \<Rightarrow> (bytes \<Rightarrow> recv list) \<Rightarrow> PeerInfo \<Rightarrow> ClusterRequest \<Rightarrow> Kernel \<Rightarrow>
    (ClusterResponse Result \<times> Kernel) option" where
  "SendRpc getaddrinfo wos reads peer req k =
     (case TcpConnect getaddrinfo (peer_host peer) (peer_port peer) k of
        (Inl status, k) \<Rightarrow> Some (Inl status, k)
      | (Inr fd, k) \<Rightarrow>
          (case EncodeClusterRequest req of
             Inl status \<Rightarrow> Some (Inl status, CloseQuietly fd k)
           | Inr encoded \<Rightarrow>
               (case WriteFull \<lparr>wf_data = [], wf_os = wos\<rparr> encoded of
                  (status, sock) \<Rightarrow>
                    if \<not> ok status then Some (Inl status, CloseQuietly fd k)
                    else SendRpc_loop fd (reads (wf_data sock)) [] k)))"

section \<open>Receiving the response\<close>

lemma SendRpc_loop_rounds:
  "TryParseFrame buffer = (ParseResult_kComplete, rest, Some (Frame_ClusterResponse resp)) \<Longrightarrow> SendRpc_loop fd reads buffer k = Some (Inr resp, CloseQuietly fd k)"
  "TryParseFrame buffer = (ParseResult_kNeedMore, buffer, None) \<Longrightarrow> chunk \<noteq> [] \<Longrightarrow>
     SendRpc_loop fd (RecvBytes chunk # reads) buffer k = SendRpc_loop fd reads (buffer @ chunk) k"
  by (subst SendRpc_loop.simps, simp)+

text \<open>A response that arrives in any pieces is returned.\<close>

lemma SendRpc_loop_receives:
  assumes "EncodeFrame (Frame_ClusterResponse resp) = Inr out" "buffer @ concat chunks = out" "[] \<notin> set chunks"
  shows "SendRpc_loop fd (map RecvBytes chunks) buffer k = Some (Inr resp, CloseQuietly fd k)"
  using assms(2,3)
proof (induction chunks arbitrary: buffer)
  case Nil
  then have "TryParseFrame buffer = (ParseResult_kComplete, [], Some (Frame_ClusterResponse resp))"
    using TryParseFrame_encoded [OF assms(1), of "[]"] by simp
  then show ?case by (rule SendRpc_loop_rounds(1))
next
  case (Cons chunk chunks)
  have out: "FrameValid (Frame_ClusterResponse resp)"
    "out = FrameBytes (FrameType (Frame_ClusterResponse resp)) (FramePayload (Frame_ClusterResponse resp))"
    using EncodeFrame_eq [THEN iffD1, OF assms(1)] by blast+
  have len: "length buffer < length out" using Cons.prems by (cases chunk) (auto simp flip: Cons.prems(1))
  have "buffer = take (length buffer) out" unfolding Cons.prems(1) [symmetric] by simp
  then have "TryParseFrame buffer = (ParseResult_kNeedMore, buffer, None)"
    using TryParseFrame_prefix [of "FramePayload (Frame_ClusterResponse resp)" "length buffer" "FrameType (Frame_ClusterResponse resp)"]
      out len by simp
  moreover have "chunk \<noteq> []" using Cons.prems(2) by auto
  ultimately show ?case using Cons by (simp add: SendRpc_loop_rounds(2))
qed

lemma SendRpc_loop_closes: "SendRpc_loop fd reads buffer k = Some (r, k') \<Longrightarrow> k' = CloseQuietly fd k"
proof (induction reads arbitrary: buffer)
  case Nil
  then show ?case by (subst (asm) SendRpc_loop.simps) (auto simp: Let_def split: prod.splits ParseResult.splits option.splits Frame.splits)
next
  case (Cons e reads)
  then show ?case
    by (subst (asm) (2) SendRpc_loop.simps)
      (auto simp: Let_def split: prod.splits ParseResult.splits option.splits Frame.splits recv.splits if_splits)
qed

text \<open>The bodies of cluster responses are small, so a response always fits its frame.\<close>

lemma HandleCluster_encodes:
  assumes "HandleCluster env h req = Some (resp, h')"
  obtains out where "EncodeClusterResponse resp = Inr out"
proof -
  have "length (clresp_body resp) \<le> 9"
    using assms
    by (auto simp: HandleCluster_def Let_def EncodeRequestVoteResponse_def EncodeAppendEntriesResponse_def WriteU8_def
        split: ClusterOpcode.splits Backend.splits sum.splits prod.splits option.splits)
  then show thesis using that by (simp add: EncodeClusterResponse_def Let_def)
qed

lemma append_body_length:
  assumes "e \<in> set (ae_entries req)"
  shows "65 + length (e_key e) + length (e_value e) \<le> length (EncodeAppendEntriesRequest req)"
proof -
  have "length (LogEntryBytes e) \<le> length (concat (map LogEntryBytes (ae_entries req)))"
    using assms by (induction "ae_entries req" arbitrary: req) (auto simp: in_set_conv_decomp)
  then show ?thesis by (simp add: EncodeAppendEntriesRequest_eq LogEntryBytes_eq)
qed

section \<open>Cached connections\<close>

text \<open>The connections of the transport are on top of the descriptors the process had before.\<close>

definition caches :: "Kernel \<Rightarrow> ClusterTransport \<Rightarrow> Kernel \<Rightarrow> bool" where
  "caches k0 t k \<longleftrightarrow> k_open k = map snd (ct_peer_fds t) @ k_open k0 \<and> (\<forall>fd \<in> snd ` set (ct_peer_fds t). 0 \<le> fd)
     \<and> k_addrs k = k_addrs k0 \<and> k_stray k = k_stray k0 \<and> k_flags k = k_flags k0"

definition connect_all :: "'a resolver \<Rightarrow> PeerInfo list \<Rightarrow> ClusterTransport \<Rightarrow> Kernel \<Rightarrow> ClusterTransport \<times> Kernel" where
  "connect_all getaddrinfo peers t k = fold (\<lambda>peer (t, k). snd (GetOrConnect getaddrinfo peer t k)) peers (t, k)"

lemma GetOrConnect_caches:
  assumes "caches k0 t k" "GetOrConnect getaddrinfo peer t k = (r, t', k')"
  shows "caches k0 t' k'"
proof (cases "map_of (ct_peer_fds t) (peer_node_id peer)")
  case (Some fd)
  then show ?thesis using assms by (simp add: GetOrConnect_def)
next
  case None
  obtain r1 k1 where c: "TcpConnect getaddrinfo (peer_host peer) (peer_port peer) k = (r1, k1)" by fastforce
  then show ?thesis
    using assms None by (cases r1) (auto simp: GetOrConnect_def caches_def same_table_def opened_def dest!: dialer.failed dialer.succeeded)
qed

lemma connect_all_caches: "caches k0 t k \<Longrightarrow> caches k0 (fst (connect_all getaddrinfo peers t k)) (snd (connect_all getaddrinfo peers t k))"
proof (induction peers arbitrary: t k)
  case (Cons peer peers)
  obtain r t1 k1 where g: "GetOrConnect getaddrinfo peer t k = (r, t1, k1)" by (rule prod_cases3)
  have "connect_all getaddrinfo (peer # peers) t k = connect_all getaddrinfo peers t1 k1" using g by (simp add: connect_all_def)
  then show ?case using Cons.IH [OF GetOrConnect_caches [OF Cons.prems g]] by simp
qed (simp add: connect_all_def)

lemma CloseAll_caches: "caches k0 t k \<Longrightarrow> same_table k0 (snd (CloseAll t k))"
proof (induction "ct_peer_fds t" arbitrary: t k)
  case Nil
  then show ?case by (simp add: CloseAll_def caches_def same_table_def flip: Nil(1))
next
  case (Cons p ps)
  obtain i fd where p: "p = (i, fd)" by fastforce
  have "caches k0 (t\<lparr>ct_peer_fds := ps\<rparr>) (CloseQuietly fd k)"
    using Cons.prems p by (simp add: caches_def CloseQuietly_def sys_close_def flip: Cons.hyps(2))
  from Cons.hyps(1) [OF _ this] have "same_table k0 (snd (CloseAll (t\<lparr>ct_peer_fds := ps\<rparr>) (CloseQuietly fd k)))" by simp
  then show ?case using p by (simp add: CloseAll_def flip: Cons.hyps(2))
qed

lemma SendRpc_table:
  "case SendRpc getaddrinfo wos reads peer req k of None \<Rightarrow> True | Some (_, k') \<Rightarrow> same_table k k'"
proof (cases "TcpConnect getaddrinfo (peer_host peer) (peer_port peer) k")
  case (Pair r k1)
  show ?thesis
  proof (cases r)
    case (Inl st)
    then have "same_table k k1" using Pair dialer.failed by blast
    then show ?thesis using Pair Inl by (simp add: SendRpc_def)
  next
    case (Inr fd)
    then have "same_table k (CloseQuietly fd k1)" using Pair dialer.closed_again by blast
    then show ?thesis using Pair Inr by (auto simp: SendRpc_def dest!: SendRpc_loop_closes split: sum.split prod.split option.split)
  qed
qed

text \<open>
  The contract of a transport, which the tests override: whatever the outside does in a call (the first argument), the call leaves the descriptor table as it was.
  Then so does any sequence of calls that return.
\<close>

fun send_all :: "('e \<Rightarrow> PeerInfo \<Rightarrow> ClusterRequest \<Rightarrow> Kernel \<Rightarrow> (ClusterResponse Result \<times> Kernel) option) \<Rightarrow> ('e \<times> PeerInfo \<times> ClusterRequest) list \<Rightarrow>
    Kernel \<Rightarrow> (ClusterResponse Result list \<times> Kernel) option" where
  "send_all send [] k = Some ([], k)"
| "send_all send ((e, peer, req) # calls) k =
     (case send e peer req k of
        None \<Rightarrow> None
      | Some (r, k) \<Rightarrow> (case send_all send calls k of None \<Rightarrow> None | Some (rs, k) \<Rightarrow> Some (r # rs, k)))"

locale rpc_transport =
  fixes send :: "'e \<Rightarrow> PeerInfo \<Rightarrow> ClusterRequest \<Rightarrow> Kernel \<Rightarrow> (ClusterResponse Result \<times> Kernel) option"
  assumes keeps_table: "send e peer req k = Some (r, k') \<Longrightarrow> same_table k k'"
begin

lemma send_all_keeps_table: "send_all send calls k = Some (rs, k') \<Longrightarrow> same_table k k'"
proof (induction calls arbitrary: k rs)
  case (Cons call calls)
  obtain e peer req where call: "call = (e, peer, req)" by (rule prod_cases3)
  then obtain r k1 rs' where "send e peer req k = Some (r, k1)" "send_all send calls k1 = Some (rs', k')"
    using Cons.prems by (auto split: option.splits)
  then show ?case using Cons.IH keeps_table same_table_trans by blast
qed simp

end

interpretation tcp_transport: rpc_transport "\<lambda>(wos, reads). SendRpc getaddrinfo wos reads" for getaddrinfo
  using SendRpc_table by unfold_locales (fastforce split: prod.splits option.splits)

section \<open>Properties\<close>

text \<open>
  C13. Calling another node over TCP runs its handler. If the connection is made and no read or write fails, the other node's session answers the bytes
  that \<^verbatim>\<open>SendRpc\<close> sent by running \<^verbatim>\<open>HandleCluster\<close> once on the request, and \<^verbatim>\<open>SendRpc\<close> returns exactly the response of the
  handler, in whatever pieces it arrives, and closes its connection. The request must fit a frame; that the response fits is part of the claim.
\<close>

theorem SendRpc_runs_peer_handler:
  assumes "TcpConnect getaddrinfo (peer_host peer) (peer_port peer) k = (Inr fd, k1)" "EncodeClusterRequest req = Inr bs"
    and "HandleCluster env h req = Some (resp, h')" "no_fail wos" "no_fail ros" "no_fail pos"
  shows "\<exists>sock. ServeClientSession (server_handler env) \<lparr>fd_rest = bs, fd_os = ros\<rparr> \<lparr>wf_data = [], wf_os = pos\<rparr> h = Some (sock, h')
    \<and> (\<forall>reads chunks. reads bs = map RecvBytes chunks \<and> [] \<notin> set chunks \<and> concat chunks = wf_data sock \<longrightarrow>
        SendRpc getaddrinfo wos reads peer req k = Some (Inr resp, CloseQuietly fd k1))"
proof -
  obtain out where out: "EncodeClusterResponse resp = Inr out" using HandleCluster_encodes [OF assms(3)] .
  have "answer_all (server_handler env) h [Frame_ClusterRequest req] = Some (out, h')"
    using assms(3) out by (simp add: server_handler_def)
  from ProcessFrames_pipeline [OF _ this partial_frame_Nil, of bs "feed bs Connection_new"] assms(2)
  have "ProcessFrames (server_handler env) (feed bs Connection_new) h = Some ((feed bs Connection_new)\<lparr>conn_read_buffer := [], conn_write_buffer := out\<rparr>, h')"
    by (simp add: Connection_new_def)
  then obtain sock where sock: "ServeClientSession (server_handler env) \<lparr>fd_rest = bs, fd_os = ros\<rparr> \<lparr>wf_data = [], wf_os = pos\<rparr> h = Some (sock, h')"
    "wf_data sock = out"
    using ServeClientSession_stream [OF assms(5,6), of "server_handler env" bs h] by auto
  obtain st w where w: "WriteFull \<lparr>wf_data = [], wf_os = wos\<rparr> bs = (st, w)" "ok st" "wf_data w = bs"
    by (rule WriteFull_no_fail [of "\<lparr>wf_data = [], wf_os = wos\<rparr>" bs]) (use assms(4) in simp_all)
  have "SendRpc getaddrinfo wos reads peer req k = Some (Inr resp, CloseQuietly fd k1)"
    if "reads bs = map RecvBytes chunks" "[] \<notin> set chunks" "concat chunks = wf_data sock" for reads chunks
    using SendRpc_loop_receives [of resp out "[]" chunks fd k1] that out sock(2) assms(1,2) w by (simp add: SendRpc_def)
  then show ?thesis using sock(1) by blast
qed

definition demo_kernel :: Kernel where
  "demo_kernel = \<lparr>k_open = [0, 1, 2], k_addrs = 0, k_stray = 0, k_flags = (\<lambda>_. 0), k_os = []\<rparr>"

definition demo_peer :: PeerInfo where
  "demo_peer = \<lparr>peer_node_id = 2, peer_host = ''b'', peer_port = 7002\<rparr>"

definition demo_ping :: ClusterRequest where
  "demo_ping = \<lparr>clreq_request_id = 9, clreq_opcode = ClusterOpcode_kPing, clreq_body = []\<rparr>"

lemma demo_connect:
  "TcpConnect (\<lambda>_ _ _. Inr [()]) (peer_host demo_peer) (peer_port demo_peer) demo_kernel = (Inr 3, demo_kernel\<lparr>k_open := [3, 0, 1, 2]\<rparr>)"
  by (simp add: TcpConnect_def demo_kernel_def demo_peer_def Let_def sys_socket_def k_call_def sys_call_def lowest_free_def numeral_eq_Suc
      Fd_defs freeaddrinfo_def)

theorem SendRpc_runs_peer_handler_witness:
  "\<exists>bs sock h'. EncodeClusterRequest demo_ping = Inr bs
     \<and> ServeClientSession (server_handler demo_env) \<lparr>fd_rest = bs, fd_os = []\<rparr> \<lparr>wf_data = [], wf_os = []\<rparr> (RequestHandler_new (Replicated demo_follower) False)
         = Some (sock, h')
     \<and> SendRpc (\<lambda>_ _ _. Inr [()]) [SysShort 2] (\<lambda>b. if b = bs \<and> wf_data sock \<noteq> [] then [RecvBytes (wf_data sock)] else []) demo_peer demo_ping demo_kernel
         = Some (Inr \<lparr>clresp_request_id = 9, clresp_status = ResponseStatus_kOk, clresp_body = [112, 111, 110, 103]\<rparr>,
             CloseQuietly 3 (demo_kernel\<lparr>k_open := [3, 0, 1, 2]\<rparr>))"
proof -
  obtain bs where bs: "EncodeClusterRequest demo_ping = Inr bs" by (simp add: EncodeClusterRequest_def demo_ping_def Let_def)
  let ?h = "RequestHandler_new (Replicated demo_follower) False"
  let ?resp = "\<lparr>clresp_request_id = 9, clresp_status = ResponseStatus_kOk, clresp_body = [112, 111, 110, 103]\<rparr>"
  have h: "HandleCluster demo_env ?h demo_ping = Some (?resp, ?h)" by (simp add: HandleCluster_def demo_ping_def Let_def)
  obtain sock where sock: "ServeClientSession (server_handler demo_env) \<lparr>fd_rest = bs, fd_os = []\<rparr> \<lparr>wf_data = [], wf_os = []\<rparr> ?h = Some (sock, ?h)"
    and rpc: "\<And>reads chunks. reads bs = map RecvBytes chunks \<and> [] \<notin> set chunks \<and> concat chunks = wf_data sock \<Longrightarrow>
        SendRpc (\<lambda>_ _ _. Inr [()]) [SysShort 2] reads demo_peer demo_ping demo_kernel = Some (Inr ?resp, CloseQuietly 3 (demo_kernel\<lparr>k_open := [3, 0, 1, 2]\<rparr>))"
    using SendRpc_runs_peer_handler [OF demo_connect bs h, of "[SysShort 2]" "[]" "[]"] by auto
  show ?thesis
    using bs sock rpc [of "\<lambda>b. if b = bs \<and> wf_data sock \<noteq> [] then [RecvBytes (wf_data sock)] else []"
        "if wf_data sock \<noteq> [] then [wf_data sock] else []"] by auto
qed

text \<open>
  C34. A write that is too large for the cluster stops replication for good. An AppendEntries request that contains an entry whose key and value together
  exceed 16 MiB less 78 bytes is never sent: \<^verbatim>\<open>SendRpc\<close> fails whatever the network does. The limit on a client's SET is 61 bytes
  higher, so a leader accepts such entries; and every later request to a follower without the entry contains it.
\<close>

theorem large_entry_never_sent:
  assumes "e \<in> set (ae_entries req)" "16777216 < 78 + length (e_key e) + length (e_value e)"
  shows "\<exists>st k'. SendRpc getaddrinfo wos reads peer (append_rpc req) k = Some (Inl st, k')"
proof -
  have "EncodeClusterRequest (append_rpc req) = Inl (Status_Error ErrorCode_kInvalidArgument ''payload exceeds max size'')"
    using append_body_length [OF assms(1)] assms(2) by (simp add: EncodeClusterRequest_def append_rpc_def)
  then show ?thesis by (auto simp: SendRpc_def split: prod.split sum.split)
qed

definition large_request :: ClientRequest where
  "large_request = \<lparr>creq_request_id = 1, creq_opcode = Opcode_kSet, creq_key = [107], creq_value = replicate 16777150 0\<rparr>"

definition large_entry :: LogEntry where
  "large_entry = \<lparr>e_term = 1, e_index = 1, e_op = WalOp_kSet, e_key = creq_key large_request, e_value = creq_value large_request\<rparr>"

definition large_append :: AppendEntriesRequest where
  "large_append = \<lparr>ae_term = 1, ae_leader_id = 1, ae_prev_log_index = 0, ae_prev_log_term = 0, ae_leader_commit = 0,
     ae_entries = [large_entry]\<rparr>"

theorem large_entry_never_sent_witness:
  "(\<exists>bs. EncodeClientRequest large_request = Inr bs)
   \<and> (\<exists>st k'. SendRpc (\<lambda>_ _ _. Inr [()]) [] (\<lambda>_. []) demo_peer (append_rpc large_append) demo_kernel = Some (Inl st, k'))"
proof
  show "\<exists>bs. EncodeClientRequest large_request = Inr bs"
    by (simp add: EncodeClientRequest_def large_request_def Let_def)
  show "\<exists>st k'. SendRpc (\<lambda>_ _ _. Inr [()]) [] (\<lambda>_. []) demo_peer (append_rpc large_append) demo_kernel = Some (Inl st, k')"
    by (rule large_entry_never_sent [of large_entry]) (simp_all add: large_append_def large_entry_def large_request_def)
qed

text \<open>
  C36. Calls to other nodes leave no connection behind. Whatever the resolver, the peer and the system calls do, when any sequence of \<^verbatim>\<open>SendRpc\<close> calls returns, with responses or errors, the
  descriptors that are open are those that were open before; and after any sequence of \<^verbatim>\<open>GetOrConnect\<close> calls, destroying the transport closes exactly the
  connections it made. Nothing is closed that is not open.
\<close>

theorem rpc_connections_do_not_leak:
  "(case send_all (\<lambda>(wos, reads). SendRpc getaddrinfo wos reads) calls k of None \<Rightarrow> True | Some (_, k') \<Rightarrow> same_table k k')
   \<and> same_table k (case connect_all getaddrinfo peers (ClusterTransport_new node_id) k of (t, k') \<Rightarrow> ClusterTransport_destroy t k')"
  using CloseAll_caches [OF connect_all_caches [of k "ClusterTransport_new node_id" k getaddrinfo peers]]
  by (auto simp: caches_def ClusterTransport_new_def ClusterTransport_destroy_def case_prod_unfold split: option.split
      dest: tcp_transport.send_all_keeps_table [of getaddrinfo, unfolded case_prod_unfold])

end
