(* ===== verification/Client_Program.thy ===== *)
theory Client_Program
  imports Cluster_Transport
begin

text \<open>
  \<^verbatim>\<open>tools/nkv-client/main.cpp\<close>: the command-line client. The network is an argument: for a host and port, the outcomes of the writes to a fresh connection,
  and for the bytes sent there the outcomes of the reads; the file system is a function from paths to contents. A run ends with an exit code, what it
  wrote to the standard output and to the standard error, or with an uncaught exception; \<open>None\<close> is a run that waits forever.
\<close>

section \<open>Programs\<close>

datatype Exit = EXIT_SUCCESS | EXIT_FAILURE

datatype run = Exits Exit bytes string | Throws

definition text_bytes :: "string \<Rightarrow> bytes" where
  "text_bytes s = map of_char s"

definition newline :: string where "newline = [CHR 0x0A]"

definition text_lines :: "string list \<Rightarrow> string" where
  "text_lines ls = concat (map (\<lambda>l. l @ newline) ls)"

text \<open>\<^verbatim>\<open>std::stoi\<close>: the number at the beginning of the string, or an exception (\<open>None\<close>) if there is none or it exceeds an \<^verbatim>\<open>int\<close>.\<close>

definition stoi :: "string \<Rightarrow> int option" where
  "stoi s = map_option fst (extract_int 32 s)"

record network =
  net_writes :: "string \<Rightarrow> u16 \<Rightarrow> sys list"
  net_reads :: "string \<Rightarrow> u16 \<Rightarrow> bytes \<Rightarrow> recv list"

section \<open>One request\<close>

definition StatusName :: "ResponseStatus \<Rightarrow> string" where
  "StatusName status =
     (case status of
        ResponseStatus_kOk \<Rightarrow> ''OK''
      | ResponseStatus_kNotFound \<Rightarrow> ''NOT_FOUND''
      | ResponseStatus_kBadRequest \<Rightarrow> ''BAD_REQUEST''
      | ResponseStatus_kInternalError \<Rightarrow> ''INTERNAL_ERROR''
      | ResponseStatus_kWrongLeader \<Rightarrow> ''WRONG_LEADER'')"

definition ClientResponse_default :: ClientResponse where
  "ClientResponse_default = \<lparr>cresp_request_id = 0, cresp_status = ResponseStatus_kOk, cresp_value = [], cresp_leader_hint = 0\<rparr>"

text \<open>The parser stores a client response in \<^verbatim>\<open>resp\<close>; any other complete frame leaves it as it was.\<close>

fun SendRequest_loop :: "recv list \<Rightarrow> bytes \<Rightarrow> ClientResponse Result option" where
  "SendRequest_loop reads buffer =
     (case TryParseFrame buffer of
        (ParseResult_kComplete, buffer, frame) \<Rightarrow>
          Some (Inr (case frame of Some (Frame_ClientResponse resp) \<Rightarrow> resp | _ \<Rightarrow> ClientResponse_default))
      | (ParseResult_kError, buffer, frame) \<Rightarrow> Some (Inl (Status_Error ErrorCode_kIOError ''malformed response from server''))
      | (ParseResult_kNeedMore, buffer, frame) \<Rightarrow>
          (case reads of
             [] \<Rightarrow> None
           | RecvBytes chunk # reads \<Rightarrow>
               if chunk = [] then Some (Inl (Status_Error ErrorCode_kIOError ''connection closed before response received''))
               else SendRequest_loop reads (buffer @ chunk)
           | RecvIntr # reads \<Rightarrow> SendRequest_loop reads buffer
           | RecvAgain # reads \<Rightarrow> Some (Inl (Status_Error ErrorCode_kIOError ''read: Resource temporarily unavailable''))
           | RecvErr e # reads \<Rightarrow> Some (Inl (Status_Error ErrorCode_kIOError (''read: '' @ e)))))"

declare SendRequest_loop.simps [simp del]

definition SendRequest :: "sys list \<Rightarrow> (bytes \<Rightarrow> recv list) \<Rightarrow> ClientRequest \<Rightarrow> ClientResponse Result option" where
  "SendRequest wos reads req =
     (case EncodeClientRequest req of
        Inl status \<Rightarrow> Some (Inl status)
      | Inr encoded \<Rightarrow>
          (case WriteFull \<lparr>wf_data = [], wf_os = wos\<rparr> encoded of
             (status, sock) \<Rightarrow> if \<not> ok status then Some (Inl status) else SendRequest_loop (reads (wf_data sock)) []))"

definition ConnectAndSend :: "'a resolver \<Rightarrow> network \<Rightarrow> string \<Rightarrow> u16 \<Rightarrow> ClientRequest \<Rightarrow> Kernel \<Rightarrow> (ClientResponse Result \<times> Kernel) option" where
  "ConnectAndSend getaddrinfo net host port req k =
     (case TcpConnect getaddrinfo host port k of
        (Inl status, k) \<Rightarrow> Some (Inl status, k)
      | (Inr fd, k) \<Rightarrow>
          (case SendRequest (net_writes net host port) (net_reads net host port) req of
             None \<Rightarrow> None
           | Some result \<Rightarrow> Some (result, Fd_destroy (Fd_new fd) k)))"

section \<open>The command line\<close>

record client_options =
  opt_host :: string
  opt_port :: u16
  opt_cluster_config :: string
  opt_positional :: "string list"

definition client_PrintUsage :: string where
  "client_PrintUsage = text_lines
     [''nkv-client - NeuralKV command-line client'', '''', ''Usage:'',
      ''  nkv-client [--host <addr>] [--port <n>] [--cluster-config <path>] set <key> <value>'',
      ''  nkv-client [--host <addr>] [--port <n>] [--cluster-config <path>] get <key>'',
      ''  nkv-client [--host <addr>] [--port <n>] [--cluster-config <path>] delete <key>'',
      ''  nkv-client --help'', '''',
      ''With --cluster-config set, a WRONG_LEADER response is followed once by a'',
      ''retry against the leader node it names.'']"

text \<open>\<^verbatim>\<open>NextArg\<close> with no argument left: the message and the exit.\<close>

definition missing_value :: "string \<Rightarrow> run" where
  "missing_value flag_name = Exits EXIT_FAILURE [] (''missing value for '' @ flag_name @ newline)"

text \<open>The loop over the arguments: the options, or how the run ends.\<close>

fun parse_args :: "string list \<Rightarrow> client_options \<Rightarrow> run + client_options" where
  "parse_args [] opts = Inr opts"
| "parse_args (arg # args) opts =
     (if arg = ''--help'' \<or> arg = ''-h'' then Inl (Exits EXIT_SUCCESS (text_bytes client_PrintUsage) '''')
      else if arg = ''--host'' then
        (case args of [] \<Rightarrow> Inl (missing_value arg) | v # args \<Rightarrow> parse_args args (opts\<lparr>opt_host := v\<rparr>))
      else if arg = ''--port'' then
        (case args of
           [] \<Rightarrow> Inl (missing_value arg)
         | v # args \<Rightarrow> (case stoi v of None \<Rightarrow> Inl Throws | Some n \<Rightarrow> parse_args args (opts\<lparr>opt_port := of_int n\<rparr>)))
      else if arg = ''--cluster-config'' then
        (case args of [] \<Rightarrow> Inl (missing_value arg) | v # args \<Rightarrow> parse_args args (opts\<lparr>opt_cluster_config := v\<rparr>))
      else parse_args args (opts\<lparr>opt_positional := opt_positional opts @ [arg]\<rparr>))"

definition usage_error :: "string \<Rightarrow> run" where
  "usage_error line = Exits EXIT_FAILURE [] (line @ newline)"

definition make_request :: "string list \<Rightarrow> run + ClientRequest" where
  "make_request positional =
     (let req = \<lparr>creq_request_id = 1, creq_opcode = Opcode_kGet, creq_key = [], creq_value = []\<rparr> in
      case positional of
        [] \<Rightarrow> Inl (Exits EXIT_FAILURE (text_bytes client_PrintUsage) (''missing command'' @ newline))
      | command # rest \<Rightarrow>
          if command = ''set'' then
            (case rest of
               [key, val] \<Rightarrow> Inr (req\<lparr>creq_opcode := Opcode_kSet, creq_key := text_bytes key, creq_value := text_bytes val\<rparr>)
             | _ \<Rightarrow> Inl (usage_error ''usage: nkv-client set <key> <value>''))
          else if command = ''get'' then
            (case rest of
               [key] \<Rightarrow> Inr (req\<lparr>creq_opcode := Opcode_kGet, creq_key := text_bytes key\<rparr>)
             | _ \<Rightarrow> Inl (usage_error ''usage: nkv-client get <key>''))
          else if command = ''delete'' then
            (case rest of
               [key] \<Rightarrow> Inr (req\<lparr>creq_opcode := Opcode_kDelete, creq_key := text_bytes key\<rparr>)
             | _ \<Rightarrow> Inl (usage_error ''usage: nkv-client delete <key>''))
          else Inl (Exits EXIT_FAILURE (text_bytes client_PrintUsage) (''unknown command: '' @ command @ newline)))"

text \<open>The end of \<^verbatim>\<open>main\<close>, after the messages of a redirection.\<close>

definition report :: "string \<Rightarrow> string \<Rightarrow> ClientResponse \<Rightarrow> run" where
  "report err command resp =
     (if cresp_status resp = ResponseStatus_kOk then
        Exits EXIT_SUCCESS (if command = ''get'' then cresp_value resp @ text_bytes newline else text_bytes (''OK'' @ newline)) err
      else if cresp_status resp = ResponseStatus_kNotFound then Exits EXIT_FAILURE [] (err @ ''NOT_FOUND'' @ newline)
      else Exits EXIT_FAILURE [] (err @ StatusName (cresp_status resp) @ newline))"

definition redirect ::
  "'a resolver \<Rightarrow> network \<Rightarrow> (string \<Rightarrow> string option) \<Rightarrow> string \<Rightarrow> ClientRequest \<Rightarrow> string \<Rightarrow> u32 \<Rightarrow> Kernel \<Rightarrow> run option" where
  "redirect getaddrinfo net files path req command leader_hint k =
     (case LoadClusterConfig path (files path) of
        None \<Rightarrow> Some Throws
      | Some (Inl status) \<Rightarrow> Some (usage_error (''failed to load cluster config: '' @ message status))
      | Some (Inr config) \<Rightarrow>
          (case ClusterConfig_FindPeer config leader_hint of
             None \<Rightarrow> Some (usage_error (''leader node '' @ to_string (unat leader_hint) @ '' is not in '' @ path))
           | Some leader \<Rightarrow>
               let err = ''redirected to leader node '' @ to_string (unat (peer_node_id leader)) @ '' at '' @ peer_host leader @ '':''
                         @ to_string (unat (peer_port leader)) @ newline in
               (case ConnectAndSend getaddrinfo net (peer_host leader) (peer_port leader) req k of
                  None \<Rightarrow> None
                | Some (Inl status, k) \<Rightarrow> Some (Exits EXIT_FAILURE [] (err @ message status @ newline))
                | Some (Inr resp, k) \<Rightarrow> Some (report err command resp))))"

definition client_main :: "'a resolver \<Rightarrow> network \<Rightarrow> (string \<Rightarrow> string option) \<Rightarrow> string list \<Rightarrow> Kernel \<Rightarrow> run option" where
  "client_main getaddrinfo net files args k =
     (case parse_args args \<lparr>opt_host = ''127.0.0.1'', opt_port = 7400, opt_cluster_config = '''', opt_positional = []\<rparr> of
        Inl run \<Rightarrow> Some run
      | Inr opts \<Rightarrow>
          (case make_request (opt_positional opts) of
             Inl run \<Rightarrow> Some run
           | Inr req \<Rightarrow>
               let command = hd (opt_positional opts) in
               (case ConnectAndSend getaddrinfo net (opt_host opts) (opt_port opts) req k of
                  None \<Rightarrow> None
                | Some (Inl status, k) \<Rightarrow> Some (usage_error (message status))
                | Some (Inr resp, k) \<Rightarrow>
                    if cresp_status resp = ResponseStatus_kWrongLeader \<and> cresp_leader_hint resp \<noteq> 0 then
                      if opt_cluster_config opts = '''' then
                        Some (report (''server reports leader is node '' @ to_string (unat (cresp_leader_hint resp))
                                @ ''; pass --cluster-config to redirect automatically'' @ newline) command resp)
                      else redirect getaddrinfo net files (opt_cluster_config opts) req command (cresp_leader_hint resp) k
                    else Some (report '''' command resp))))"

section \<open>What the client makes of the answer\<close>

fun response_of :: "Frame \<Rightarrow> ClientResponse" where
  "response_of (Frame_ClientResponse resp) = resp"
| "response_of _ = ClientResponse_default"

lemma SendRequest_loop_rounds:
  "TryParseFrame buffer = (ParseResult_kComplete, rest, Some f) \<Longrightarrow> SendRequest_loop reads buffer = Some (Inr (response_of f))"
  "TryParseFrame buffer = (ParseResult_kNeedMore, buffer, None) \<Longrightarrow> chunk \<noteq> [] \<Longrightarrow>
     SendRequest_loop (RecvBytes chunk # reads) buffer = SendRequest_loop reads (buffer @ chunk)"
  "TryParseFrame buffer = (ParseResult_kNeedMore, buffer, None) \<Longrightarrow> SendRequest_loop (RecvIntr # reads) buffer = SendRequest_loop reads buffer"
  by (subst SendRequest_loop.simps, simp split: Frame.split)+

lemma SendRequest_loop_receives:
  assumes "EncodeFrame f = Inr out" "drained reads" "buffer @ recv_bytes reads = out"
  shows "SendRequest_loop reads buffer = Some (Inr (response_of f))"
  using assms(2,3)
proof (induction reads arbitrary: buffer)
  case Nil
  then show ?case using TryParseFrame_encoded [OF assms(1), of "[]"] by (intro SendRequest_loop_rounds(1)) simp
next
  case (Cons e reads)
  show ?case
  proof (cases "buffer = out")
    case True
    then show ?thesis using TryParseFrame_encoded [OF assms(1), of "[]"] by (intro SendRequest_loop_rounds(1)) simp
  next
    case False
    have out: "FrameValid f" "out = FrameBytes (FrameType f) (FramePayload f)" using EncodeFrame_eq [THEN iffD1, OF assms(1)] by blast+
    have "length (FramePayload f) \<le> unat kMaxPayloadSize" using out(1) by (cases f) simp_all
    moreover have "length buffer < length out" using False Cons.prems(2) by (cases "recv_bytes (e # reads)") auto
    moreover have "take (length buffer) out = buffer" using Cons.prems(2) by (simp flip: Cons.prems(2))
    ultimately have more: "TryParseFrame buffer = (ParseResult_kNeedMore, buffer, None)"
      using TryParseFrame_prefix [of "FramePayload f" "length buffer" "FrameType f"] out(2) by metis
    show ?thesis
      using Cons SendRequest_loop_rounds(2,3) [OF more] by (cases e) (auto simp: drained_def)
  qed
qed

text \<open>The server behind a host and port answers these bytes with one frame, in any pieces.\<close>

definition answers_with :: "network \<Rightarrow> string \<Rightarrow> u16 \<Rightarrow> ClientRequest \<Rightarrow> Frame \<Rightarrow> bool" where
  "answers_with net host port req f \<longleftrightarrow> (\<exists>bs out. EncodeClientRequest req = Inr bs \<and> EncodeFrame f = Inr out
     \<and> no_fail (net_writes net host port) \<and> drained (net_reads net host port bs) \<and> recv_bytes (net_reads net host port bs) = out)"

lemma ConnectAndSend_answer:
  assumes "TcpConnect getaddrinfo host port k = (Inr fd, k1)" "answers_with net host port req f"
  shows "ConnectAndSend getaddrinfo net host port req k = Some (Inr (response_of f), CloseQuietly fd k1)"
proof -
  obtain bs out where a: "EncodeClientRequest req = Inr bs" "EncodeFrame f = Inr out" "no_fail (net_writes net host port)"
    "drained (net_reads net host port bs)" "recv_bytes (net_reads net host port bs) = out"
    using assms(2) by (auto simp: answers_with_def)
  obtain st w where w: "WriteFull \<lparr>wf_data = [], wf_os = net_writes net host port\<rparr> bs = (st, w)" "ok st" "wf_data w = bs"
    by (rule WriteFull_no_fail [of "\<lparr>wf_data = [], wf_os = net_writes net host port\<rparr>" bs]) (use a(3) in simp_all)
  show ?thesis using assms(1) a(1) w SendRequest_loop_receives [OF a(2,4), of "[]"] a(5) by (simp add: ConnectAndSend_def SendRequest_def)
qed

abbreviation default_options :: client_options where
  "default_options \<equiv> \<lparr>opt_host = ''127.0.0.1'', opt_port = 7400, opt_cluster_config = '''', opt_positional = []\<rparr>"

text \<open>
  The client and the server's session. When the command line is well formed, the connection is made and no read or write fails, the session answers the
  client's bytes by running the handler once on the request, and if the answer is not a redirection, the client ends by reporting the handler's response.
\<close>

lemma client_reports_handler_answer:
  assumes "parse_args args default_options = Inr opts" "make_request (opt_positional opts) = Inr req" "EncodeClientRequest req = Inr bs"
    and "TcpConnect getaddrinfo (opt_host opts) (opt_port opts) k = (Inr fd, k1)" "no_fail (net_writes net (opt_host opts) (opt_port opts))"
    and "Handle env h req = Some (resp, h')" "EncodeClientResponse resp = Inr out" "no_fail ros" "no_fail wos"
    and "cresp_status resp \<noteq> ResponseStatus_kWrongLeader \<or> cresp_leader_hint resp = 0"
  shows "\<exists>sock. ServeClientSession (server_handler env) \<lparr>fd_rest = bs, fd_os = ros\<rparr> \<lparr>wf_data = [], wf_os = wos\<rparr> h = Some (sock, h')
    \<and> (drained (net_reads net (opt_host opts) (opt_port opts) bs) \<and> recv_bytes (net_reads net (opt_host opts) (opt_port opts) bs) = wf_data sock
        \<longrightarrow> client_main getaddrinfo net files args k = Some (report '''' (hd (opt_positional opts)) resp))"
proof -
  have "answer_all (server_handler env) h [Frame_ClientRequest req] = Some (out, h')"
    using assms(6,7) by (simp add: server_handler_def)
  from ProcessFrames_pipeline [OF _ this partial_frame_Nil, of bs "feed bs Connection_new"] assms(3)
  have "ProcessFrames (server_handler env) (feed bs Connection_new) h = Some ((feed bs Connection_new)\<lparr>conn_read_buffer := [], conn_write_buffer := out\<rparr>, h')"
    by (simp add: Connection_new_def)
  then obtain sock where sock: "ServeClientSession (server_handler env) \<lparr>fd_rest = bs, fd_os = ros\<rparr> \<lparr>wf_data = [], wf_os = wos\<rparr> h = Some (sock, h')"
    "wf_data sock = out"
    using ServeClientSession_stream [OF assms(8,9), of "server_handler env" bs h] by auto
  have "client_main getaddrinfo net files args k = Some (report '''' (hd (opt_positional opts)) resp)"
    if "drained (net_reads net (opt_host opts) (opt_port opts) bs)" "recv_bytes (net_reads net (opt_host opts) (opt_port opts) bs) = out"
  proof -
    have "answers_with net (opt_host opts) (opt_port opts) req (Frame_ClientResponse resp)"
      using that assms(3,5,7) by (auto simp: answers_with_def)
    from ConnectAndSend_answer [OF assms(4) this] show ?thesis using assms(1,2,10) by (auto simp: client_main_def Let_def)
  qed
  then show ?thesis using sock by blast
qed

text \<open>A command of the client, the words that give it on the command line, and what it means on a map: its outcome and its effect.\<close>

datatype command = CmdSet string string | CmdGet string | CmdDelete string

fun cmd_words :: "command \<Rightarrow> string list" where
  "cmd_words (CmdSet key val) = [''set'', key, val]"
| "cmd_words (CmdGet key) = [''get'', key]"
| "cmd_words (CmdDelete key) = [''delete'', key]"

fun cmd_request :: "command \<Rightarrow> ClientRequest" where
  "cmd_request (CmdSet key val) = \<lparr>creq_request_id = 1, creq_opcode = Opcode_kSet, creq_key = text_bytes key, creq_value = text_bytes val\<rparr>"
| "cmd_request (CmdGet key) = \<lparr>creq_request_id = 1, creq_opcode = Opcode_kGet, creq_key = text_bytes key, creq_value = []\<rparr>"
| "cmd_request (CmdDelete key) = \<lparr>creq_request_id = 1, creq_opcode = Opcode_kDelete, creq_key = text_bytes key, creq_value = []\<rparr>"

abbreviation cmd_ok :: run where
  "cmd_ok \<equiv> Exits EXIT_SUCCESS (text_bytes ''OK'' @ [10]) ''''"

abbreviation cmd_not_found :: run where
  "cmd_not_found \<equiv> Exits EXIT_FAILURE [] (''NOT_FOUND'' @ [CHR 0x0A])"

fun cmd_outcome :: "command \<Rightarrow> (bytes \<rightharpoonup> bytes) \<Rightarrow> run" where
  "cmd_outcome (CmdSet key val) m = cmd_ok"
| "cmd_outcome (CmdGet key) m =
     (case m (text_bytes key) of Some v \<Rightarrow> Exits EXIT_SUCCESS (v @ [10]) '''' | None \<Rightarrow> cmd_not_found)"
| "cmd_outcome (CmdDelete key) m = (if m (text_bytes key) = None then cmd_not_found else cmd_ok)"

fun cmd_effect :: "command \<Rightarrow> (bytes \<rightharpoonup> bytes) \<Rightarrow> bytes \<rightharpoonup> bytes" where
  "cmd_effect (CmdSet key val) m = m(text_bytes key \<mapsto> text_bytes val)"
| "cmd_effect (CmdGet key) m = m"
| "cmd_effect (CmdDelete key) m = m(text_bytes key := None)"

text \<open>A word the client does not take for an option.\<close>

definition plain_word :: "string \<Rightarrow> bool" where
  "plain_word w \<longleftrightarrow> w \<notin> {''--help'', ''-h'', ''--host'', ''--port'', ''--cluster-config''}"

lemma make_request_words: "make_request (cmd_words cmd) = Inr (cmd_request cmd)"
  by (cases cmd) (simp_all add: make_request_def)

lemma parse_words: "list_all plain_word ws \<Longrightarrow> parse_args ws opts = Inr (opts\<lparr>opt_positional := opt_positional opts @ ws\<rparr>)"
  by (induction ws arbitrary: opts) (simp_all add: plain_word_def)

lemma cmd_words_plain: "list_all plain_word (tl (cmd_words cmd)) \<Longrightarrow> list_all plain_word (cmd_words cmd)"
  by (cases cmd) (simp_all add: plain_word_def)

lemma parse_command:
  assumes "list_all plain_word (tl (cmd_words cmd))" "stoi p = Some port"
  shows "parse_args ([''--host'', host, ''--port'', p] @ cmd_words cmd) default_options
    = Inr \<lparr>opt_host = host, opt_port = of_int port, opt_cluster_config = '''', opt_positional = cmd_words cmd\<rparr>"
  using parse_words [OF cmd_words_plain [OF assms(1)]] assms(2) by simp

text \<open>What is printed for the answer of a map is the outcome of the command.\<close>

lemma report_map_answer:
  assumes "EncodeClientRequest (cmd_request cmd) = Inr bs"
  shows "report '''' (hd (cmd_words cmd)) (fst (map_server m (cmd_request cmd))) = cmd_outcome cmd m"
    "snd (map_server m (cmd_request cmd)) = cmd_effect cmd m"
    "cresp_leader_hint (fst (map_server m (cmd_request cmd))) = 0"
proof -
  have "creq_key (cmd_request cmd) \<noteq> []" "creq_opcode (cmd_request cmd) \<noteq> Opcode_kSet \<or> creq_value (cmd_request cmd) \<noteq> []"
    using assms by (auto simp: EncodeClientRequest_def split: if_splits)
  then show "report '''' (hd (cmd_words cmd)) (fst (map_server m (cmd_request cmd))) = cmd_outcome cmd m"
    "snd (map_server m (cmd_request cmd)) = cmd_effect cmd m" "cresp_leader_hint (fst (map_server m (cmd_request cmd))) = 0"
    by (cases cmd; auto simp: map_server_def Let_def report_def text_bytes_def newline_def split: option.split)+
qed

section \<open>Properties\<close>

text \<open>
  C15. The command-line client on a single node is a map. Run \<^verbatim>\<open>nkv-client\<close> with a host, a port and one of the commands set, get and delete against a node without Raft whose stored
  values fit a response. If the request fits a frame (its key and the value of a SET are then not empty), the connection is made and no read or write fails, the
  node's session answers the bytes of that request by running it on its map, and a client that receives this answer to these bytes ends as the map says: \<^verbatim>\<open>OK\<close> and success for a
  SET, the value and success for a GET of a present key, \<^verbatim>\<open>OK\<close> and success for a DELETE of a present key, and \<^verbatim>\<open>NOT_FOUND\<close> on the standard error and
  failure for a GET or DELETE of an absent one. The map of the node has changed as the command says.
\<close>

theorem client_command_on_node:
  assumes "list_all plain_word (tl (cmd_words cmd))" "stoi p = Some port" "EncodeClientRequest (cmd_request cmd) = Inr bs"
    and "TcpConnect getaddrinfo host (of_int port) k = (Inr fd, k1)" "no_fail (net_writes net host (of_int port))"
    and "local_inv env (Suc n) h" "values_fit (handler_map env h)" "no_fail ros" "no_fail wos"
  shows "\<exists>sock h'. ServeClientSession (server_handler env) \<lparr>fd_rest = bs, fd_os = ros\<rparr> \<lparr>wf_data = [], wf_os = wos\<rparr> h = Some (sock, h')
    \<and> handler_map env h' = cmd_effect cmd (handler_map env h)
    \<and> (drained (net_reads net host (of_int port) bs) \<and> recv_bytes (net_reads net host (of_int port) bs) = wf_data sock
        \<longrightarrow> client_main getaddrinfo net files ([''--host'', host, ''--port'', p] @ cmd_words cmd) k = Some (cmd_outcome cmd (handler_map env h)))"
proof -
  let ?m = "handler_map env h" and ?req = "cmd_request cmd"
  let ?opts = "\<lparr>opt_host = host, opt_port = of_int port, opt_cluster_config = '''', opt_positional = cmd_words cmd\<rparr>"
  note map = report_map_answer [OF assms(3), of ?m]
  have v: "FrameValid (Frame_ClientRequest ?req)" using assms(3) EncodeFrame_eq [of "Frame_ClientRequest ?req" bs] by simp
  obtain out where out: "EncodeClientResponse (fst (map_server ?m ?req)) = Inr out"
    using map_server_fits(1) [OF v assms(7)] EncodeFrame_eq [of "Frame_ClientResponse (fst (map_server ?m ?req))"] by auto
  obtain h' where h': "Handle env h ?req = Some (fst (map_server ?m ?req), h')" "handler_map env h' = cmd_effect cmd ?m"
    using Handle_local [OF assms(6), of ?req] v map(2) by (auto simp: RequestFits_def kMaxFieldSize_def)
  show ?thesis
    using client_reports_handler_answer [OF parse_command [OF assms(1,2), of host] _ assms(3), of getaddrinfo k fd k1 net env h _ h' out ros wos files]
      make_request_words [of cmd] assms(4,5,8,9) h' out map(1,3) by auto
qed

theorem client_command_on_node_witness:
  "\<exists>bs sock h'. EncodeClientRequest (cmd_request (CmdGet ''k'')) = Inr bs
     \<and> ServeClientSession (server_handler demo_env) \<lparr>fd_rest = bs, fd_os = []\<rparr> \<lparr>wf_data = [], wf_os = []\<rparr>
         (RequestHandler_new (Local (DurableStorage_new (\<lambda>_. 0) ''d'' [] [])) False) = Some (sock, h')
     \<and> client_main (\<lambda>_ _ _. Inr [()]) \<lparr>net_writes = (\<lambda>_ _. [SysIntr]),
           net_reads = (\<lambda>_ _ _. if wf_data sock = [] then [] else [RecvIntr, RecvBytes (wf_data sock)])\<rparr> (\<lambda>_. None)
           [''--host'', ''h'', ''--port'', ''7001'', ''get'', ''k''] demo_kernel
         = Some (Exits EXIT_FAILURE [] (''NOT_FOUND'' @ [CHR 0x0A]))"
proof -
  let ?cmd = "CmdGet ''k''"
  let ?h = "RequestHandler_new (Local (DurableStorage_new (env_hash demo_env) ''d'' [] [])) False"
  have hash: "env_hash demo_env = (\<lambda>_. 0)" by (simp add: demo_env_def)
  obtain bs where bs: "EncodeClientRequest (cmd_request ?cmd) = Inr bs" by (simp add: EncodeClientRequest_def Let_def text_bytes_def)
  have conn: "TcpConnect (\<lambda>_ _ _. Inr [()]) ''h'' (of_int 7001) demo_kernel = (Inr 3, demo_kernel\<lparr>k_open := [3, 0, 1, 2]\<rparr>)"
    by (simp add: TcpConnect_def demo_kernel_def Let_def sys_socket_def k_call_def sys_call_def lowest_free_def numeral_eq_Suc Fd_defs freeaddrinfo_def)
  have p: "stoi ''7001'' = Some 7001" by code_simp
  have w: "list_all plain_word (tl (cmd_words ?cmd))" by (simp add: plain_word_def)
  note new = new_node_inv [OF calm_Nil, of "Suc 0" demo_env "''d''" False, simplified]
  let ?serve = "ServeClientSession (server_handler demo_env) \<lparr>fd_rest = bs, fd_os = []\<rparr> \<lparr>wf_data = [], wf_os = []\<rparr> ?h"
  let ?main = "\<lambda>net. client_main (\<lambda>_ _ _. Inr [()]) net (\<lambda>_. None) ([''--host'', ''h'', ''--port'', ''7001''] @ cmd_words ?cmd) demo_kernel"
  have all: "\<exists>sock h'. ?serve = Some (sock, h') \<and> handler_map demo_env h' = cmd_effect ?cmd (handler_map demo_env ?h)
      \<and> (drained (net_reads net ''h'' (of_int 7001) bs) \<and> recv_bytes (net_reads net ''h'' (of_int 7001) bs) = wf_data sock
          \<longrightarrow> ?main net = Some (cmd_outcome ?cmd (handler_map demo_env ?h)))" if "no_fail (net_writes net ''h'' (of_int 7001))" for net
    by (rule client_command_on_node [OF w p bs conn that new(1)]) (simp_all add: new(2) values_fit_def)
  obtain sock h' where s: "?serve = Some (sock, h')" using all [of "\<lparr>net_writes = (\<lambda>_ _. []), net_reads = (\<lambda>_ _ _. [])\<rparr>"] by auto
  let ?net = "\<lparr>net_writes = (\<lambda>_ _. [SysIntr]), net_reads = (\<lambda>_ _ _. if wf_data sock = [] then [] else [RecvIntr, RecvBytes (wf_data sock)])\<rparr>"
  have "?main ?net = Some (cmd_outcome ?cmd (handler_map demo_env ?h))" using all [of ?net] s by (auto simp: drained_def)
  then show ?thesis using bs s new(2) unfolding hash by (intro exI [of _ bs] exI [of _ sock] exI [of _ h']) simp
qed

text \<open>
  A redirection is followed once. When the first server answers WRONG_LEADER with a leader that the cluster configuration names, the outcome of the client is
  decided by the answer of that node alone; a second WRONG_LEADER is reported as an error and not followed.
\<close>

lemma client_follows_redirect_once:
  assumes "parse_args args default_options = Inr opts" "make_request (opt_positional opts) = Inr req" "opt_cluster_config opts \<noteq> ''''"
    and "TcpConnect getaddrinfo (opt_host opts) (opt_port opts) k = (Inr fd, k1)"
    and "answers_with net (opt_host opts) (opt_port opts) req (Frame_ClientResponse resp)"
    and "cresp_status resp = ResponseStatus_kWrongLeader" "cresp_leader_hint resp \<noteq> 0"
    and "LoadClusterConfig (opt_cluster_config opts) (files (opt_cluster_config opts)) = Some (Inr config)"
    and "ClusterConfig_FindPeer config (cresp_leader_hint resp) = Some leader"
    and "TcpConnect getaddrinfo (peer_host leader) (peer_port leader) (CloseQuietly fd k1) = (Inr fd', k')"
    and "answers_with net (peer_host leader) (peer_port leader) req (Frame_ClientResponse resp')"
  shows "\<exists>msg. client_main getaddrinfo net files args k = Some (report msg (hd (opt_positional opts)) resp')"
  using ConnectAndSend_answer [OF assms(4,5)] ConnectAndSend_answer [OF assms(10,11)] assms(1-3,6-9)
  by (auto simp: client_main_def redirect_def Let_def)

definition demo_net :: "Frame \<Rightarrow> Frame \<Rightarrow> network" where
  "demo_net f1 f2 = \<lparr>net_writes = (\<lambda>_ _. []), net_reads = (\<lambda>host port bs. case EncodeFrame (if port = 7400 then f1 else f2) of Inr out \<Rightarrow> [RecvBytes out] | Inl _ \<Rightarrow> [])\<rparr>"

lemma demo_net_answers:
  assumes "EncodeClientRequest req = Inr bs" "FrameValid (if port = 7400 then f1 else f2)"
  shows "answers_with (demo_net f1 f2) host port req (if port = 7400 then f1 else f2)"
proof -
  let ?f = "if port = 7400 then f1 else f2"
  obtain out where out: "EncodeFrame ?f = Inr out" using assms(2) EncodeFrame_eq by blast
  then have "0 < length out" by (auto simp: EncodeFrame_eq)
  then have "out \<noteq> []" by simp
  then show ?thesis using out assms(1) by (simp add: answers_with_def demo_net_def drained_def del: EncodeFrame.simps split del: if_split)
qed

definition demo_redirect :: Frame where
  "demo_redirect = Frame_ClientResponse \<lparr>cresp_request_id = 1, cresp_status = ResponseStatus_kWrongLeader, cresp_value = [], cresp_leader_hint = 1\<rparr>"

definition demo_ok :: Frame where
  "demo_ok = Frame_ClientResponse \<lparr>cresp_request_id = 1, cresp_status = ResponseStatus_kOk, cresp_value = [], cresp_leader_hint = 0\<rparr>"

lemma demo_connects:
  "TcpConnect (\<lambda>_ _ _. Inr [()]) host port demo_kernel = (Inr 3, demo_kernel\<lparr>k_open := [3, 0, 1, 2]\<rparr>)"
  "CloseQuietly 3 (demo_kernel\<lparr>k_open := [3, 0, 1, 2]\<rparr>) = demo_kernel"
  by (simp_all add: TcpConnect_def demo_kernel_def Let_def sys_socket_def k_call_def sys_call_def lowest_free_def numeral_eq_Suc Fd_defs freeaddrinfo_def
      CloseQuietly_def sys_close_def)

abbreviation demo_args :: "string list" where
  "demo_args \<equiv> [''--cluster-config'', ''f'', ''set'', ''k'', ''v'']"

abbreviation demo_set :: ClientRequest where
  "demo_set \<equiv> \<lparr>creq_request_id = 1, creq_opcode = Opcode_kSet, creq_key = text_bytes ''k'', creq_value = text_bytes ''v''\<rparr>"

lemma demo_set_encodes: "\<exists>bs. EncodeClientRequest demo_set = Inr bs"
  by (simp add: EncodeClientRequest_def Let_def text_bytes_def)

lemma client_follows_redirect_once_example:
  "\<exists>msg. client_main (\<lambda>_ _ _. Inr [()]) (demo_net demo_redirect demo_ok) (\<lambda>_. Some config_example) demo_args demo_kernel
     = Some (Exits EXIT_SUCCESS (text_bytes (''OK'' @ newline)) msg)"
proof -
  let ?opts = "default_options\<lparr>opt_cluster_config := ''f'', opt_positional := [''set'', ''k'', ''v'']\<rparr>"
  let ?ok = "\<lparr>cresp_request_id = 1, cresp_status = ResponseStatus_kOk, cresp_value = [], cresp_leader_hint = 0\<rparr>"
  have p: "parse_args demo_args default_options = Inr ?opts" by simp
  have m: "make_request (opt_positional ?opts) = Inr demo_set" by (simp add: make_request_def Let_def)
  obtain bs where bs: "EncodeClientRequest demo_set = Inr bs" using demo_set_encodes by blast
  have a1: "answers_with (demo_net demo_redirect demo_ok) ''127.0.0.1'' 7400 demo_set demo_redirect"
    using demo_net_answers [OF bs, of 7400 demo_redirect demo_ok] by (simp add: demo_redirect_def)
  have a2: "answers_with (demo_net demo_redirect demo_ok) ''a'' 7001 demo_set demo_ok"
    using demo_net_answers [OF bs, of 7001 demo_redirect demo_ok] by (simp add: demo_ok_def)
  have l: "LoadClusterConfig (opt_cluster_config ?opts) ((\<lambda>_. Some config_example) (opt_cluster_config ?opts)) = Some (Inr \<lparr>cfg_local_node_id = 2, cfg_leader_node_id = 0,
     cfg_peers = [\<lparr>peer_node_id = 1, peer_host = ''a'', peer_port = 7001\<rparr>, \<lparr>peer_node_id = 2, peer_host = ''b'', peer_port = 7002\<rparr>,
       \<lparr>peer_node_id = 3, peer_host = ''c'', peer_port = 7003\<rparr>]\<rparr>)"
    using config_example_loads by simp
  let ?wrong = "\<lparr>cresp_request_id = 1, cresp_status = ResponseStatus_kWrongLeader, cresp_value = [], cresp_leader_hint = 1\<rparr>"
  have c: "TcpConnect (\<lambda>_ _ _. Inr [()]) (opt_host ?opts) (opt_port ?opts) demo_kernel = (Inr 3, demo_kernel\<lparr>k_open := [3, 0, 1, 2]\<rparr>)"
    by (rule demo_connects)
  have a: "answers_with (demo_net demo_redirect demo_ok) (opt_host ?opts) (opt_port ?opts) demo_set (Frame_ClientResponse ?wrong)"
    using a1 by (simp add: demo_redirect_def)
  show ?thesis
    using client_follows_redirect_once [OF p m _ c a _ _ l, where leader = "\<lparr>peer_node_id = 1, peer_host = ''a'', peer_port = 7001\<rparr>" and resp' = ?ok]
      a2 demo_connects
    by (simp add: ClusterConfig_FindPeer_def report_def demo_ok_def)
qed

text \<open>
  The client takes any well-formed frame for success. \<^verbatim>\<open>SendRequest\<close> does not look at the type of the frame it received and the default status of a response is
  OK, so a peer that answers with any valid frame that is not a client response (a cluster response, or the request itself) makes
  the client report success: OK for a write, and an empty value for a read.
\<close>

lemma client_accepts_any_frame:
  assumes "parse_args args default_options = Inr opts" "make_request (opt_positional opts) = Inr req"
    and "TcpConnect getaddrinfo (opt_host opts) (opt_port opts) k = (Inr fd, k1)"
    and "answers_with net (opt_host opts) (opt_port opts) req f" "\<forall>resp. f \<noteq> Frame_ClientResponse resp"
  shows "client_main getaddrinfo net files args k
    = Some (Exits EXIT_SUCCESS (text_bytes (if hd (opt_positional opts) = ''get'' then newline else ''OK'' @ newline)) '''')"
proof -
  have "response_of f = ClientResponse_default" using assms(5) by (cases f) simp_all
  then show ?thesis
    using ConnectAndSend_answer [OF assms(3,4)] assms(1,2) by (simp add: client_main_def Let_def report_def ClientResponse_default_def)
qed

lemma client_accepts_any_frame_example:
  "client_main (\<lambda>_ _ _. Inr [()]) (demo_net (Frame_ClientRequest demo_set) demo_ok) (\<lambda>_. None) demo_args demo_kernel
     = Some (Exits EXIT_SUCCESS (text_bytes (''OK'' @ newline)) '''')"
proof -
  let ?opts = "default_options\<lparr>opt_cluster_config := ''f'', opt_positional := [''set'', ''k'', ''v'']\<rparr>"
  have p: "parse_args demo_args default_options = Inr ?opts" by simp
  have m: "make_request (opt_positional ?opts) = Inr demo_set" by (simp add: make_request_def Let_def)
  obtain bs where bs: "EncodeClientRequest demo_set = Inr bs" using demo_set_encodes by blast
  have a: "answers_with (demo_net (Frame_ClientRequest demo_set) demo_ok) ''127.0.0.1'' 7400 demo_set (Frame_ClientRequest demo_set)"
    using demo_net_answers [OF bs, of 7400 "Frame_ClientRequest demo_set" demo_ok] by (simp add: text_bytes_def)
  have c: "TcpConnect (\<lambda>_ _ _. Inr [()]) (opt_host ?opts) (opt_port ?opts) demo_kernel = (Inr 3, demo_kernel\<lparr>k_open := [3, 0, 1, 2]\<rparr>)"
    by (rule demo_connects)
  show ?thesis using client_accepts_any_frame [OF p m c, where f = "Frame_ClientRequest demo_set"] a by simp
qed

end
