(* ===== verification/Thread_Pool.thy ===== *)
theory Thread_Pool
  imports NKV_Prelude "HOL-Library.Multiset"
begin

text \<open>
  \<^verbatim>\<open>concurrency/thread_pool.{h,cpp}\<close>: the worker threads and their queue, as a step relation. A step is a critical section of \<^verbatim>\<open>mutex_\<close>, a
  notification (which happens after the mutex is released), or the end of a task. A worker inside \<^verbatim>\<open>cv_.wait\<close> is \<open>Blocked\<close>; it
  leaves it by a notification or spuriously, and then looks at the predicate again under the mutex.

  The tasks are values of any type; what a task does is not the pool's concern, except that it ends. The lists of accepted, started and
  finished tasks are history that the program does not keep.
\<close>

section \<open>The pool\<close>

datatype 'a Worker =
    Checking      \<comment> \<open>about to lock the mutex and evaluate the predicate\<close>
  | Blocked       \<comment> \<open>waiting on the condition variable\<close>
  | Busy 'a       \<comment> \<open>running a task\<close>
  | Exited

record 'a ThreadPool =
  tp_workers :: "'a Worker list"
  tp_tasks :: "'a list"
  tp_stop :: bool
  tp_notify_one :: nat        \<comment> \<open>calls of \<^verbatim>\<open>notify_one\<close> that are still to come\<close>
  tp_notify_all :: bool       \<comment> \<open>the call of \<^verbatim>\<open>notify_all\<close> is still to come\<close>
  tp_accepted :: "'a list"
  tp_started :: "'a list"
  tp_finished :: "'a list"

definition ThreadPool_new :: "nat \<Rightarrow> 'a ThreadPool" where
  "ThreadPool_new num_workers =
     \<lparr>tp_workers = replicate num_workers Checking, tp_tasks = [], tp_stop = False, tp_notify_one = 0, tp_notify_all = False,
      tp_accepted = [], tp_started = [], tp_finished = []\<rparr>"

text \<open>\<^verbatim>\<open>Submit\<close> up to the release of the mutex, and its notification.\<close>

definition Submit :: "'a \<Rightarrow> 'a ThreadPool \<Rightarrow> 'a ThreadPool" where
  "Submit task p =
     (if tp_stop p then p
      else p\<lparr>tp_tasks := tp_tasks p @ [task], tp_accepted := tp_accepted p @ [task], tp_notify_one := Suc (tp_notify_one p)\<rparr>)"

text \<open>The destructor up to the joins: \<^verbatim>\<open>stop_\<close> is set, and \<^verbatim>\<open>notify_all\<close> follows.\<close>

definition Shutdown :: "'a ThreadPool \<Rightarrow> 'a ThreadPool" where
  "Shutdown p = p\<lparr>tp_stop := True, tp_notify_all := True\<rparr>"

text \<open>One pass of a worker through the critical section of \<^verbatim>\<open>WorkerLoop\<close>.\<close>

definition wait_over :: "'a ThreadPool \<Rightarrow> bool" where
  "wait_over p \<longleftrightarrow> tp_stop p \<or> tp_tasks p \<noteq> []"

definition WorkerLoop_locked :: "nat \<Rightarrow> 'a ThreadPool \<Rightarrow> 'a ThreadPool" where
  "WorkerLoop_locked i p =
     (if \<not> wait_over p then p\<lparr>tp_workers := (tp_workers p)[i := Blocked]\<rparr>
      else case tp_tasks p of
        [] \<Rightarrow> p\<lparr>tp_workers := (tp_workers p)[i := Exited]\<rparr>
      | task # tasks \<Rightarrow>
          p\<lparr>tp_workers := (tp_workers p)[i := Busy task], tp_tasks := tasks, tp_started := tp_started p @ [task]\<rparr>)"

definition WorkerLoop_ran :: "nat \<Rightarrow> 'a \<Rightarrow> 'a ThreadPool \<Rightarrow> 'a ThreadPool" where
  "WorkerLoop_ran i task p = p\<lparr>tp_workers := (tp_workers p)[i := Checking], tp_finished := tp_finished p @ [task]\<rparr>"

definition wake :: "'a Worker \<Rightarrow> 'a Worker" where
  "wake w = (case w of Blocked \<Rightarrow> Checking | _ \<Rightarrow> w)"

text \<open>What the threads do. \<open>caller\<close> steps are those of \<^verbatim>\<open>Submit\<close> and the destructor; the others belong to the workers and the notifications.\<close>

inductive caller_step :: "'a ThreadPool \<Rightarrow> 'a ThreadPool \<Rightarrow> bool" where
  submit: "caller_step p (Submit task p)"
| shutdown: "\<not> tp_stop p \<Longrightarrow> caller_step p (Shutdown p)"

inductive pool_step :: "'a ThreadPool \<Rightarrow> 'a ThreadPool \<Rightarrow> bool" where
  locked: "i < length (tp_workers p) \<Longrightarrow> tp_workers p ! i = Checking \<Longrightarrow> pool_step p (WorkerLoop_locked i p)"
| ran: "i < length (tp_workers p) \<Longrightarrow> tp_workers p ! i = Busy task \<Longrightarrow> pool_step p (WorkerLoop_ran i task p)"
| notify_one: "tp_notify_one p = Suc n \<Longrightarrow> i < length (tp_workers p) \<Longrightarrow> tp_workers p ! i = Blocked \<Longrightarrow>
    pool_step p (p\<lparr>tp_workers := (tp_workers p)[i := Checking], tp_notify_one := n\<rparr>)"
| notify_none: "tp_notify_one p = Suc n \<Longrightarrow> Blocked \<notin> set (tp_workers p) \<Longrightarrow> pool_step p (p\<lparr>tp_notify_one := n\<rparr>)"
| notify_all: "tp_notify_all p \<Longrightarrow> pool_step p (p\<lparr>tp_workers := map wake (tp_workers p), tp_notify_all := False\<rparr>)"

inductive spurious_wakeup :: "'a ThreadPool \<Rightarrow> 'a ThreadPool \<Rightarrow> bool" where
  spurious: "i < length (tp_workers p) \<Longrightarrow> tp_workers p ! i = Blocked \<Longrightarrow> spurious_wakeup p (p\<lparr>tp_workers := (tp_workers p)[i := Checking]\<rparr>)"

definition tp_step :: "'a ThreadPool \<Rightarrow> 'a ThreadPool \<Rightarrow> bool" where
  "tp_step p p' \<longleftrightarrow> caller_step p p' \<or> pool_step p p' \<or> spurious_wakeup p p'"

definition tp_reachable :: "nat \<Rightarrow> 'a ThreadPool \<Rightarrow> bool" where
  "tp_reachable num_workers p \<longleftrightarrow> tp_step\<^sup>*\<^sup>* (ThreadPool_new num_workers) p"

section \<open>The invariant\<close>

text \<open>A worker's contribution to a count over the workers.\<close>

primrec running1 :: "'a Worker \<Rightarrow> 'a multiset" where
  "running1 Checking = {#}" | "running1 Blocked = {#}" | "running1 (Busy task) = {#task#}" | "running1 Exited = {#}"

primrec awake1 :: "'a Worker \<Rightarrow> nat" where
  "awake1 Checking = 1" | "awake1 Blocked = 0" | "awake1 (Busy task) = 0" | "awake1 Exited = 0"

primrec weight :: "'a Worker \<Rightarrow> nat" where
  "weight Checking = 1" | "weight Blocked = 0" | "weight (Busy task) = 2" | "weight Exited = 0"

definition running :: "'a Worker list \<Rightarrow> 'a multiset" where
  "running ws = (\<Sum>w \<leftarrow> ws. running1 w)"

definition awake :: "'a Worker list \<Rightarrow> nat" where
  "awake ws = (\<Sum>w \<leftarrow> ws. awake1 w)"

lemma sum_list_update_nth:
  fixes f :: "'a \<Rightarrow> 'b :: comm_monoid_add"
  assumes "i < length ws"
  shows "sum_list (map f (ws[i := w])) + f (ws ! i) = sum_list (map f ws) + f w"
proof -
  have "sum_list (map f ws) = sum_list (map f (take i ws)) + (f (ws ! i) + sum_list (map f (drop (Suc i) ws)))"
    by (subst id_take_nth_drop [OF assms]) simp
  moreover have "sum_list (map f (ws[i := w])) = sum_list (map f (take i ws)) + (f w + sum_list (map f (drop (Suc i) ws)))"
    by (subst upd_conv_take_nth_drop [OF assms]) simp
  ultimately show ?thesis by (simp add: ac_simps)
qed

lemma running_update:
  "i < length ws \<Longrightarrow> ws ! i = Checking \<or> ws ! i = Blocked \<Longrightarrow> running (ws[i := w]) = running ws + running1 w"
  "i < length ws \<Longrightarrow> ws ! i = Busy task \<Longrightarrow> add_mset task (running (ws[i := Checking])) = running ws"
  using sum_list_update_nth [of i ws running1 w] sum_list_update_nth [of i ws running1 Checking] by (auto simp: running_def)

lemma awake_update:
  "i < length ws \<Longrightarrow> ws ! i = Checking \<Longrightarrow> Suc (awake (ws[i := w])) = awake ws + awake1 w"
  "i < length ws \<Longrightarrow> ws ! i \<noteq> Checking \<Longrightarrow> awake (ws[i := Checking]) = Suc (awake ws)"
  using sum_list_update_nth [of i ws awake1 w] sum_list_update_nth [of i ws awake1 Checking]
  by (cases "ws ! i"; simp add: awake_def)+

lemma set_update_other: "x \<in> set (ws[i := w]) \<Longrightarrow> x \<noteq> w \<Longrightarrow> x \<in> set ws"
  using set_update_subset_insert [of ws i w] by auto

lemma running_none: "\<forall>w \<in> set ws. running1 w = {#} \<Longrightarrow> running ws = {#}"
  by (induction ws) (simp_all add: running_def)

lemma running_wake [simp]: "running (map wake ws) = running ws"
  by (induction ws) (auto simp: running_def wake_def split: Worker.split)

lemma wake_eq [simp]: "wake w = Exited \<longleftrightarrow> w = Exited" "Exited = wake w \<longleftrightarrow> w = Exited" "wake w \<noteq> Blocked" "Blocked \<noteq> wake w"
  by (auto simp: wake_def split: Worker.split)

lemma wake_set: "Blocked \<notin> set (map wake ws)" "Exited \<in> set (map wake ws) \<longleftrightarrow> Exited \<in> set ws"
  by (induction ws) auto

text \<open>
  Every accepted task was started or is queued, in order, and every started one is finished or running. A worker blocks only while somebody who is awake,
  or a notification to come, accounts for every queued task; and a pool that stops has no blocked worker once \<^verbatim>\<open>notify_all\<close> is done.
\<close>

definition tp_inv :: "nat \<Rightarrow> 'a ThreadPool \<Rightarrow> bool" where
  "tp_inv n p \<longleftrightarrow> length (tp_workers p) = n \<and> tp_accepted p = tp_started p @ tp_tasks p
     \<and> mset (tp_started p) = mset (tp_finished p) + running (tp_workers p)
     \<and> (Blocked \<in> set (tp_workers p) \<longrightarrow> length (tp_tasks p) \<le> awake (tp_workers p) + tp_notify_one p)
     \<and> (tp_stop p \<longrightarrow> Blocked \<in> set (tp_workers p) \<longrightarrow> tp_notify_all p)
     \<and> (Exited \<in> set (tp_workers p) \<longrightarrow> tp_stop p \<and> tp_tasks p = [])"

lemma tp_inv_new: "tp_inv n (ThreadPool_new n)"
  by (induction n) (simp_all add: tp_inv_def ThreadPool_new_def running_def)

lemma tp_inv_caller: "caller_step p p' \<Longrightarrow> tp_inv n p \<Longrightarrow> tp_inv n p'"
  by (induction rule: caller_step.induct) (auto simp: tp_inv_def Submit_def Shutdown_def)

lemma tp_inv_locked:
  assumes "tp_inv n p" "i < length (tp_workers p)" "tp_workers p ! i = Checking"
  shows "tp_inv n (WorkerLoop_locked i p)"
proof (cases "tp_tasks p")
  case Nil
  then show ?thesis
    using assms running_update(1) [of i "tp_workers p"] awake_update(1) [OF assms(2,3)]
    by (auto simp: tp_inv_def WorkerLoop_locked_def wait_over_def dest: set_update_other)
next
  case (Cons task tasks)
  have "Blocked \<in> set (tp_workers p) \<Longrightarrow> length tasks \<le> awake ((tp_workers p)[i := Busy task]) + tp_notify_one p"
    using assms(1) Cons awake_update(1) [OF assms(2,3), of "Busy task"] by (simp add: tp_inv_def)
  then show ?thesis
    using assms Cons running_update(1) [of i "tp_workers p" "Busy task"]
    by (auto simp: tp_inv_def WorkerLoop_locked_def wait_over_def dest: set_update_other)
qed

lemma tp_inv_unblock:
  assumes "tp_inv n p" "i < length (tp_workers p)" "tp_workers p ! i = Blocked" "m + 1 \<ge> tp_notify_one p"
  shows "tp_inv n (p\<lparr>tp_workers := (tp_workers p)[i := Checking], tp_notify_one := m\<rparr>)"
proof -
  have "Blocked \<in> set (tp_workers p)" using assms(2,3) nth_mem by metis
  then show ?thesis
    using assms running_update(1) [of i "tp_workers p" Checking] awake_update(2) [OF assms(2)]
    by (auto simp: tp_inv_def dest: set_update_other)
qed

lemma tp_inv_pool: "pool_step p p' \<Longrightarrow> tp_inv n p \<Longrightarrow> tp_inv n p'"
proof (induction rule: pool_step.induct)
  case (locked i p)
  then show ?case by (intro tp_inv_locked)
next
  case (ran i p task)
  then show ?case
    using running_update(2) [OF ran(1,2)] awake_update(2) [OF ran(1)]
    by (auto simp: tp_inv_def WorkerLoop_ran_def dest: set_update_other)
next
  case (notify_one p m i)
  then show ?case by (intro tp_inv_unblock) simp_all
next
  case (notify_none p m)
  then show ?case by (simp add: tp_inv_def)
next
  case (notify_all p)
  then show ?case using wake_set [of "tp_workers p"] by (simp add: tp_inv_def)
qed

lemma tp_inv_reachable: "tp_reachable n p \<Longrightarrow> tp_inv n p"
  unfolding tp_reachable_def
proof (induction rule: rtranclp_induct)
  case (step p p')
  have "tp_inv n p'" if "spurious_wakeup p p'"
    using that
  proof cases
    case (spurious i)
    then show ?thesis using tp_inv_unblock [OF step.IH spurious(2,3), of "tp_notify_one p"] by simp
  qed
  then show ?case using step tp_inv_caller tp_inv_pool by (auto simp: tp_step_def)
qed (rule tp_inv_new)

section \<open>Progress\<close>

text \<open>A bound on the steps the pool makes on its own.\<close>

definition tp_measure :: "'a ThreadPool \<Rightarrow> nat" where
  "tp_measure p = 2 * length (tp_tasks p) + 2 * tp_notify_one p
     + (if tp_notify_all p then Suc (length (tp_workers p)) else 0) + (\<Sum>w \<leftarrow> tp_workers p. weight w)"

lemma weight_wake: "(\<Sum>w \<leftarrow> map wake ws. weight w) \<le> length ws + (\<Sum>w \<leftarrow> ws. weight w)"
  by (induction ws) (auto simp: wake_def split: Worker.split)

lemma pool_step_measure: "pool_step p p' \<Longrightarrow> tp_measure p' < tp_measure p"
proof (induction rule: pool_step.induct)
  case (locked i p)
  note sum_list_update_nth [of i "tp_workers p" weight, OF locked(1)]
  from this [of Blocked] this [of Exited] this [of "Busy (hd (tp_tasks p))"] show ?case using locked
    by (cases "tp_tasks p") (simp_all add: tp_measure_def WorkerLoop_locked_def wait_over_def)
next
  case (ran i p task)
  then show ?case using sum_list_update_nth [of i "tp_workers p" weight Checking] by (simp add: tp_measure_def WorkerLoop_ran_def)
next
  case (notify_one p n i)
  then show ?case using sum_list_update_nth [of i "tp_workers p" weight Checking] by (simp add: tp_measure_def)
next
  case (notify_none p n)
  then show ?case by (simp add: tp_measure_def)
next
  case (notify_all p)
  then show ?case using weight_wake [of "tp_workers p"] by (simp add: tp_measure_def)
qed

lemma pool_progress:
  assumes "tp_inv n p" "0 < n" "tp_tasks p \<noteq> [] \<or> tp_stop p" "\<exists>w \<in> set (tp_workers p). w \<noteq> Exited"
  shows "\<exists>p'. pool_step p p'"
proof (cases "\<exists>i < length (tp_workers p). tp_workers p ! i = Checking \<or> (\<exists>task. tp_workers p ! i = Busy task)")
  case True
  then obtain i where "i < length (tp_workers p)" "tp_workers p ! i = Checking \<or> (\<exists>task. tp_workers p ! i = Busy task)" by blast
  then show ?thesis using locked [of i p] ran [of i p] by auto
next
  case False
  then have all: "w = Blocked \<or> w = Exited" if "w \<in> set (tp_workers p)" for w using that by (cases w) (auto simp: in_set_conv_nth)
  then have b: "Blocked \<in> set (tp_workers p)" using assms(4) by auto
  then obtain i where i: "i < length (tp_workers p)" "tp_workers p ! i = Blocked" by (auto simp: in_set_conv_nth)
  have "awake1 w = 0" if "w \<in> set (tp_workers p)" for w using all [OF that] by auto
  then have "awake (tp_workers p) = 0" by (simp add: awake_def)
  then have n: "tp_notify_one p \<noteq> 0 \<or> tp_notify_all p" using assms(1,3) b by (cases "tp_tasks p") (auto simp: tp_inv_def)
  show ?thesis
  proof (cases "tp_notify_one p")
    case 0
    then show ?thesis using n notify_all [of p] by auto
  next
    case (Suc m)
    then show ?thesis using notify_one [OF _ i] by blast
  qed
qed

section \<open>Properties\<close>

text \<open>
  C25. The pool runs what it accepts exactly once and in order. In every reachable state, over all interleavings of submitters, workers, notifications and spurious
  wake-ups, the tasks started so far are the first ones accepted, in the order of \<^verbatim>\<open>Submit\<close>, the rest is queued, and every started task is finished or
  running on one worker; and when all of at least one worker have exited, every accepted task has finished.
\<close>

theorem tasks_run_once_in_order:
  assumes "tp_reachable n p"
  shows "tp_accepted p = tp_started p @ tp_tasks p \<and> mset (tp_started p) = mset (tp_finished p) + running (tp_workers p)
    \<and> (set (tp_workers p) = {Exited} \<longrightarrow> mset (tp_finished p) = mset (tp_accepted p))"
  using tp_inv_reachable [OF assms] running_none [of "tp_workers p"] by (auto simp: tp_inv_def)

definition demo_pool :: "nat ThreadPool" where
  "demo_pool = WorkerLoop_locked 0 (Submit 8 (Submit 7 (ThreadPool_new 1)))"

lemma demo_pool_reachable: "tp_reachable 1 demo_pool"
proof -
  let ?p = "Submit 8 (Submit 7 (ThreadPool_new 1)) :: nat ThreadPool"
  have a: "tp_step (ThreadPool_new 1) (Submit 7 (ThreadPool_new 1))" "tp_step (Submit 7 (ThreadPool_new 1)) ?p"
    by (simp_all add: tp_step_def caller_step.submit)
  have b: "tp_step ?p demo_pool"
    using pool_step.locked [of 0 ?p] by (simp add: tp_step_def demo_pool_def Submit_def ThreadPool_new_def)
  show ?thesis unfolding tp_reachable_def by (intro converse_rtranclp_into_rtranclp [of tp_step, OF a(1)] converse_rtranclp_into_rtranclp [of tp_step, OF a(2)] r_into_rtranclp [of tp_step] b)
qed

theorem tasks_run_once_in_order_witness:
  "tp_accepted demo_pool = [7, 8] \<and> tp_started demo_pool = [7] \<and> tp_tasks demo_pool = [8]
     \<and> mset (tp_started demo_pool) = mset (tp_finished demo_pool) + running (tp_workers demo_pool)"
  using tasks_run_once_in_order [OF demo_pool_reachable]
  by (simp add: demo_pool_def Submit_def ThreadPool_new_def WorkerLoop_locked_def wait_over_def)

text \<open>
  C24. No wake-up is lost. From every reachable state of a pool with at least one worker, whatever the order in which the workers and the notifications make their
  steps, when none of them can make another one, every accepted task has finished, and if the pool is being destroyed, all workers
  have exited, so the destructor's joins return. Spurious wake-ups are not needed for this, and tasks are assumed to end.
\<close>

theorem pool_runs_every_task:
  assumes "tp_reachable n p" "0 < n" "pool_step\<^sup>*\<^sup>* p p'" "\<not> (\<exists>p''. pool_step p' p'')"
  shows "tp_tasks p' = [] \<and> mset (tp_finished p') = mset (tp_accepted p') \<and> (tp_stop p' \<longrightarrow> (\<forall>w \<in> set (tp_workers p'). w = Exited))"
proof -
  have inv: "tp_inv n p'" using assms(3) by induction (use tp_inv_reachable [OF assms(1)] tp_inv_pool in auto)
  note stuck = pool_progress [OF inv assms(2)]
  have ne: "tp_workers p' \<noteq> []" using inv assms(2) by (auto simp: tp_inv_def)
  have tasks: "tp_tasks p' = []"
  proof (rule ccontr)
    assume "tp_tasks p' \<noteq> []"
    then have "Exited \<notin> set (tp_workers p')" using inv by (auto simp: tp_inv_def)
    then show False using stuck assms(4) \<open>tp_tasks p' \<noteq> []\<close> ne by (cases "tp_workers p'") auto
  qed
  have "running1 w = {#}" if "w \<in> set (tp_workers p')" for w
  proof -
    obtain i where "i < length (tp_workers p')" "tp_workers p' ! i = w" using \<open>w \<in> set (tp_workers p')\<close> by (auto simp: in_set_conv_nth)
    then show ?thesis using assms(4) pool_step.ran [of i p'] by (cases w) auto
  qed
  then have "running (tp_workers p') = {#}" by (intro running_none) simp
  then show ?thesis using inv tasks stuck assms(4) by (auto simp: tp_inv_def)
qed

definition rest_pool :: "nat ThreadPool" where
  "rest_pool = WorkerLoop_locked 0 (Shutdown (ThreadPool_new 1))\<lparr>tp_notify_all := False\<rparr>"

theorem pool_runs_every_task_witness:
  "tp_reachable 1 (Shutdown (ThreadPool_new 1) :: nat ThreadPool) \<and> pool_step\<^sup>*\<^sup>* (Shutdown (ThreadPool_new 1)) rest_pool
     \<and> mset (tp_finished rest_pool) = mset (tp_accepted rest_pool) \<and> tp_workers rest_pool = [Exited]"
proof -
  let ?p = "Shutdown (ThreadPool_new 1) :: nat ThreadPool" and ?q = "WorkerLoop_locked 0 (Shutdown (ThreadPool_new 1)) :: nat ThreadPool"
  have w: "tp_workers rest_pool = [Exited]" "tp_notify_one rest_pool = 0" "\<not> tp_notify_all rest_pool"
    by (simp_all add: rest_pool_def Shutdown_def ThreadPool_new_def WorkerLoop_locked_def wait_over_def)
  have r: "tp_reachable 1 ?p" unfolding tp_reachable_def
    by (rule r_into_rtranclp) (auto simp: tp_step_def ThreadPool_new_def intro: caller_step.shutdown)
  have a: "pool_step ?p ?q" using pool_step.locked [of 0 ?p] by (simp add: Shutdown_def ThreadPool_new_def)
  have b: "pool_step ?q rest_pool"
    using pool_step.notify_all [of ?q] by (simp add: rest_pool_def Shutdown_def ThreadPool_new_def WorkerLoop_locked_def wait_over_def wake_def)
  have run: "pool_step\<^sup>*\<^sup>* ?p rest_pool" by (intro converse_rtranclp_into_rtranclp [of pool_step, OF a] r_into_rtranclp [of pool_step] b)
  have stuck: "\<not> (\<exists>p''. pool_step rest_pool p'')" using w by (auto elim!: pool_step.cases)
  show ?thesis using pool_runs_every_task [OF r _ run stuck] r run w by simp
qed

text \<open>
  C26. Between two calls of its users the pool comes to rest: workers and notifications together make at most the number of steps given by \<open>tp_measure\<close>
  (two for each queued task and each notification, one for each awake worker, two for each busy one, and one more than the number of workers for \<^verbatim>\<open>notify_all\<close>).
\<close>

theorem pool_steps_bounded:
  assumes "(pool_step ^^ m) p p'"
  shows "m + tp_measure p' \<le> tp_measure p"
  using assms
proof (induction m arbitrary: p')
  case (Suc m)
  then obtain q where "(pool_step ^^ m) p q" "pool_step q p'" by auto
  then show ?case using Suc.IH [of q] pool_step_measure [of q p'] by simp
qed simp

theorem pool_steps_bounded_witness:
  "(pool_step ^^ 1) demo_pool (WorkerLoop_ran 0 7 demo_pool) \<and> 1 + tp_measure (WorkerLoop_ran 0 7 demo_pool) \<le> tp_measure demo_pool"
proof -
  have "pool_step demo_pool (WorkerLoop_ran 0 7 demo_pool)"
    using pool_step.ran [of 0 demo_pool 7] by (simp add: demo_pool_def Submit_def ThreadPool_new_def WorkerLoop_locked_def wait_over_def)
  then have "(pool_step ^^ 1) demo_pool (WorkerLoop_ran 0 7 demo_pool)" by (simp only: relpowp_1)
  then show ?thesis using pool_steps_bounded [of 1 demo_pool] by blast
qed

end
