(* ===== verification/Tcp_Servers.thy ===== *)
theory Tcp_Servers
  imports Cluster_Transport Thread_Pool
begin

text \<open>
  \<^verbatim>\<open>server/blocking_server.{h,cpp}\<close> and \<^verbatim>\<open>server/thread_pool_server.{h,cpp}\<close>: the accept loops. A client is what it will send and what the writes to it
  will do. The outcomes of \<^verbatim>\<open>accept\<close> are an argument, together with what \<^verbatim>\<open>stop_.load()\<close> answers before and after each; beyond the list \<^verbatim>\<open>accept\<close> blocks
  and \<^verbatim>\<open>Run\<close> does not return (\<open>None\<close>).
\<close>

section \<open>Accepting\<close>

record Client =
  client_sends :: rfd
  client_gets :: wfd

datatype accepted = AcceptedIntr | AcceptedErr string | AcceptedClient Client

record accept_round =
  stop_before :: bool
  outcome :: accepted
  stop_after :: bool

definition sys_accept :: "Kernel \<Rightarrow> int \<times> Kernel" where
  "sys_accept k = (let fd = lowest_free (k_open k) in (fd, k\<lparr>k_open := fd # k_open k\<rparr>))"

section \<open>BlockingServer\<close>

record 's BlockingServer =
  bs_host :: string
  bs_port :: u16
  bs_handler :: 's
  bs_stop :: bool
  bs_listen_fd :: Fd
  bs_bind_status :: Status
  bs_kernel :: Kernel

definition BlockingServer_new :: "'a resolver \<Rightarrow> (int \<Rightarrow> sockaddr option) \<Rightarrow> string \<Rightarrow> u16 \<Rightarrow> 's \<Rightarrow> Kernel \<Rightarrow> 's BlockingServer" where
  "BlockingServer_new getaddrinfo getsockname host port handler k =
     (let s = \<lparr>bs_host = host, bs_port = port, bs_handler = handler, bs_stop = False, bs_listen_fd = Fd_default, bs_bind_status = Status_Ok, bs_kernel = k\<rparr> in
      case TcpListen getaddrinfo host port k of
        (Inl status, k) \<Rightarrow> s\<lparr>bs_bind_status := status, bs_kernel := k\<rparr>
      | (Inr fd, k) \<Rightarrow>
          (case Fd_assign (bs_listen_fd s) (Fd_new fd) k of
             (listen_fd, _, k) \<Rightarrow> s\<lparr>bs_listen_fd := listen_fd, bs_port := GetBoundPort getsockname (Fd_get listen_fd) port, bs_kernel := k\<rparr>))"

definition BlockingServer_Stop :: "'a resolver \<Rightarrow> 's BlockingServer \<Rightarrow> 's BlockingServer" where
  "BlockingServer_Stop getaddrinfo s =
     (let s = s\<lparr>bs_stop := True\<rparr>;
          k = (case TcpConnect getaddrinfo (bs_host s) (bs_port s) (bs_kernel s) of
                 (Inl _, k) \<Rightarrow> k
               | (Inr wake_conn, k) \<Rightarrow> CloseQuietly wake_conn k) in
      case Fd_reset (bs_listen_fd s) k of (listen_fd, k) \<Rightarrow> s\<lparr>bs_listen_fd := listen_fd, bs_kernel := k\<rparr>)"

text \<open>The loop also answers what each client that was served got, in the order of the connections.\<close>

fun BlockingServer_loop :: "'s Handler \<Rightarrow> accept_round list \<Rightarrow> 's BlockingServer \<Rightarrow> (Status \<times> wfd list \<times> 's BlockingServer) option" where
  "BlockingServer_loop hnd [] s = (if bs_stop s then Some (Status_Ok, [], s) else None)"
| "BlockingServer_loop hnd (r # rs) s =
     (let s = s\<lparr>bs_stop := bs_stop s \<or> stop_before r\<rparr> in
      if bs_stop s then Some (Status_Ok, [], s)
      else
        let s = s\<lparr>bs_stop := stop_after r\<rparr> in
        (case outcome r of
           AcceptedIntr \<Rightarrow> BlockingServer_loop hnd rs s
         | AcceptedErr e \<Rightarrow>
             if bs_stop s then Some (Status_Ok, [], s)
             else Some (Status_Error ErrorCode_kIOError (''accept: '' @ e), [], s)
         | AcceptedClient client \<Rightarrow>
             (case sys_accept (bs_kernel s) of
                (client_fd, k) \<Rightarrow>
                  if bs_stop s then Some (Status_Ok, [], s\<lparr>bs_kernel := CloseQuietly client_fd k\<rparr>)
                  else
                    (case ServeClientSession hnd (client_sends client) (client_gets client) (bs_handler s) of
                       None \<Rightarrow> None
                     | Some (out, h) \<Rightarrow>
                         (case BlockingServer_loop hnd rs (s\<lparr>bs_handler := h, bs_kernel := CloseQuietly client_fd k\<rparr>) of
                            None \<Rightarrow> None
                          | Some (status, outs, s) \<Rightarrow> Some (status, out # outs, s))))))"

definition BlockingServer_Run :: "'s Handler \<Rightarrow> accept_round list \<Rightarrow> 's BlockingServer \<Rightarrow> (Status \<times> wfd list \<times> 's BlockingServer) option" where
  "BlockingServer_Run hnd rs s = (if \<not> ok (bs_bind_status s) then Some (bs_bind_status s, [], s) else BlockingServer_loop hnd rs s)"

section \<open>ThreadPoolServer\<close>

text \<open>
  The tasks are the clients, with their descriptors: running one is \<^verbatim>\<open>ServeClientSession\<close> and closing the descriptor. What the pool's threads do while the
  accept thread waits is given with each round.
\<close>

record 's ThreadPoolServer =
  ts_host :: string
  ts_port :: u16
  ts_handler :: 's
  ts_pool :: "(int \<times> Client) ThreadPool"
  ts_stop :: bool
  ts_listen_fd :: Fd
  ts_bind_status :: Status
  ts_kernel :: Kernel

definition ThreadPoolServer_new ::
  "'a resolver \<Rightarrow> (int \<Rightarrow> sockaddr option) \<Rightarrow> string \<Rightarrow> u16 \<Rightarrow> 's \<Rightarrow> nat \<Rightarrow> Kernel \<Rightarrow> 's ThreadPoolServer" where
  "ThreadPoolServer_new getaddrinfo getsockname host port handler num_workers k =
     (let s = \<lparr>ts_host = host, ts_port = port, ts_handler = handler, ts_pool = ThreadPool_new num_workers, ts_stop = False, ts_listen_fd = Fd_default,
               ts_bind_status = Status_Ok, ts_kernel = k\<rparr> in
      case TcpListen getaddrinfo host port k of
        (Inl status, k) \<Rightarrow> s\<lparr>ts_bind_status := status, ts_kernel := k\<rparr>
      | (Inr fd, k) \<Rightarrow>
          (case Fd_assign (ts_listen_fd s) (Fd_new fd) k of
             (listen_fd, _, k) \<Rightarrow> s\<lparr>ts_listen_fd := listen_fd, ts_port := GetBoundPort getsockname (Fd_get listen_fd) port, ts_kernel := k\<rparr>))"

definition ThreadPoolServer_Stop :: "'a resolver \<Rightarrow> 's ThreadPoolServer \<Rightarrow> 's ThreadPoolServer" where
  "ThreadPoolServer_Stop getaddrinfo s =
     (let s = s\<lparr>ts_stop := True\<rparr>;
          k = (case TcpConnect getaddrinfo (ts_host s) (ts_port s) (ts_kernel s) of
                 (Inl _, k) \<Rightarrow> k
               | (Inr wake_conn, k) \<Rightarrow> CloseQuietly wake_conn k) in
      case Fd_reset (ts_listen_fd s) k of (listen_fd, k) \<Rightarrow> s\<lparr>ts_listen_fd := listen_fd, ts_kernel := k\<rparr>)"

fun ThreadPoolServer_loop ::
  "(accept_round \<times> ('s ThreadPoolServer \<Rightarrow> 's ThreadPoolServer)) list \<Rightarrow> 's ThreadPoolServer \<Rightarrow> (Status \<times> 's ThreadPoolServer) option" where
  "ThreadPoolServer_loop [] s = (if ts_stop s then Some (Status_Ok, s) else None)"
| "ThreadPoolServer_loop ((r, others) # rs) s =
     (let s = s\<lparr>ts_stop := ts_stop s \<or> stop_before r\<rparr> in
      if ts_stop s then Some (Status_Ok, s)
      else
        let s = (others s)\<lparr>ts_stop := stop_after r\<rparr> in
        (case outcome r of
           AcceptedIntr \<Rightarrow> ThreadPoolServer_loop rs s
         | AcceptedErr e \<Rightarrow>
             if ts_stop s then Some (Status_Ok, s)
             else Some (Status_Error ErrorCode_kIOError (''accept: '' @ e), s)
         | AcceptedClient client \<Rightarrow>
             (case sys_accept (ts_kernel s) of
                (client_fd, k) \<Rightarrow>
                  if ts_stop s then Some (Status_Ok, s\<lparr>ts_kernel := CloseQuietly client_fd k\<rparr>)
                  else ThreadPoolServer_loop rs (s\<lparr>ts_kernel := k, ts_pool := Submit (client_fd, client) (ts_pool s)\<rparr>))))"

definition ThreadPoolServer_Run ::
  "(accept_round \<times> ('s ThreadPoolServer \<Rightarrow> 's ThreadPoolServer)) list \<Rightarrow> 's ThreadPoolServer \<Rightarrow> (Status \<times> 's ThreadPoolServer) option" where
  "ThreadPoolServer_Run rs s = (if \<not> ok (ts_bind_status s) then Some (ts_bind_status s, s) else ThreadPoolServer_loop rs s)"

section \<open>Clients one after the other\<close>

lemma accept_close: "CloseQuietly (fst (sys_accept k)) (snd (sys_accept k)) = k"
  using lowest_free [of "k_open k"] by (simp add: sys_accept_def Let_def CloseQuietly_def sys_close_def)

text \<open>The rounds of clients that are served, and a last one in which the server finds it has been stopped.\<close>

definition served :: "Client \<Rightarrow> accept_round" where
  "served client = \<lparr>stop_before = False, outcome = AcceptedClient client, stop_after = False\<rparr>"

fun sessions :: "'s Handler \<Rightarrow> Client list \<Rightarrow> 's \<Rightarrow> (wfd list \<times> 's) option" where
  "sessions hnd [] h = Some ([], h)"
| "sessions hnd (client # clients) h =
     (case ServeClientSession hnd (client_sends client) (client_gets client) h of
        None \<Rightarrow> None
      | Some (out, h) \<Rightarrow> (case sessions hnd clients h of None \<Rightarrow> None | Some (outs, h) \<Rightarrow> Some (out # outs, h)))"

lemma BlockingServer_loop_served:
  assumes "\<not> bs_stop s" "ServeClientSession hnd (client_sends client) (client_gets client) (bs_handler s) = Some (out, h)"
  shows "BlockingServer_loop hnd (served client # rs) s
    = map_option (\<lambda>(status, outs, s'). (status, out # outs, s')) (BlockingServer_loop hnd rs (s\<lparr>bs_handler := h\<rparr>))"
proof -
  obtain fd k where a: "sys_accept (bs_kernel s) = (fd, k)" by fastforce
  then have k: "CloseQuietly fd k = bs_kernel s" using accept_close [of "bs_kernel s"] by simp
  show ?thesis
    using assms a k by (cases s) (auto simp: served_def split: option.split)
qed

lemma BlockingServer_loop_sessions:
  assumes "sessions hnd clients (bs_handler s) = Some (outs, h)" "\<not> bs_stop s"
  shows "BlockingServer_loop hnd (map served clients @ rs) s
    = map_option (\<lambda>(status, outs', s'). (status, outs @ outs', s')) (BlockingServer_loop hnd rs (s\<lparr>bs_handler := h\<rparr>))"
  using assms
proof (induction clients arbitrary: s outs)
  case Nil
  then show ?case by (cases s) (auto simp: option.map_ident case_prod_unfold)
next
  case (Cons client clients)
  obtain out h1 outs1 where s1: "ServeClientSession hnd (client_sends client) (client_gets client) (bs_handler s) = Some (out, h1)"
    "sessions hnd clients h1 = Some (outs1, h)" "outs = out # outs1"
    using Cons.prems(1) by (auto split: option.splits)
  show ?case
    using Cons.IH [of "s\<lparr>bs_handler := h1\<rparr>" outs1] s1(2,3) Cons.prems(2) BlockingServer_loop_served [OF Cons.prems(2) s1(1), of "map served clients @ rs"]
    by (simp add: case_prod_unfold option.map_comp comp_def)
qed

text \<open>The session of a client that sends well-formed requests to a node without Raft.\<close>

definition sends_requests :: "Client \<Rightarrow> ClientRequest list \<Rightarrow> bool" where
  "sends_requests client reqs \<longleftrightarrow> EncodeFrames (map Frame_ClientRequest reqs) = Some (fd_rest (client_sends client))
     \<and> no_fail (fd_os (client_sends client)) \<and> wf_data (client_gets client) = [] \<and> no_fail (wf_os (client_gets client))"

fun answers :: "(bytes \<rightharpoonup> bytes) \<Rightarrow> ClientRequest list list \<Rightarrow> ClientResponse list list" where
  "answers m [] = []"
| "answers m (reqs # reqss) = (case map_serve_all m reqs of (resps, m) \<Rightarrow> resps # answers m reqss)"

lemma sessions_refine:
  assumes "list_all2 sends_requests clients reqss" "local_inv env (length (concat reqss) + n) h" "values_fit (handler_map env h)"
  shows "\<exists>outs h'. sessions (server_handler env) clients h = Some (outs, h')
    \<and> list_all2 (\<lambda>out resps. EncodeFrames (map Frame_ClientResponse resps) = Some (wf_data out)) outs (answers (handler_map env h) reqss)"
  using assms
proof (induction clients reqss arbitrary: h rule: list_all2_induct)
  case (Cons client clients reqs reqss)
  have c: "EncodeFrames (map Frame_ClientRequest reqs) = Some (fd_rest (client_sends client))" "no_fail (fd_os (client_sends client))"
    "no_fail (wf_os (client_gets client))" "client_sends client = \<lparr>fd_rest = fd_rest (client_sends client), fd_os = fd_os (client_sends client)\<rparr>"
    "client_gets client = \<lparr>wf_data = [], wf_os = wf_os (client_gets client)\<rparr>"
    using Cons.hyps(1) by (auto simp: sends_requests_def)
  have inv: "local_inv env (length reqs + (length (concat reqss) + n)) h" using Cons.prems(1) by (simp add: add.assoc)
  obtain out h1 where s: "ServeClientSession (server_handler env) (client_sends client) (client_gets client) h = Some (out, h1)"
    "EncodeFrames (map Frame_ClientResponse (fst (map_serve_all (handler_map env h) reqs))) = Some (wf_data out)"
    "local_inv env (length (concat reqss) + n) h1" "handler_map env h1 = snd (map_serve_all (handler_map env h) reqs)" "values_fit (handler_map env h1)"
    using session_refines [OF c(1) inv Cons.prems(2) c(2,3)] c(4,5) by metis
  show ?case using Cons.IH [OF s(3,5)] s(1,2,4) by (auto simp: case_prod_unfold)
qed simp

section \<open>Clients handed to the pool\<close>

text \<open>
  The thread-pool server hands every connection it accepts to the pool, in order, until it is stopped: whatever the pool's threads do in the
  meantime, as long as they neither submit nor shut down, the tasks accepted by the pool grow by exactly the clients of the rounds, each with its own descriptor.
\<close>

lemma thread_pool_server_submits_clients:
  assumes "\<forall>s. tp_accepted (ts_pool (others s)) = tp_accepted (ts_pool s) \<and> tp_stop (ts_pool (others s)) = tp_stop (ts_pool s) \<and> ts_stop (others s) = ts_stop s"
    and "\<not> tp_stop (ts_pool s)" "ok (ts_bind_status s)" "\<not> ts_stop s" "stop_before r"
  shows "\<exists>fds s'. ThreadPoolServer_Run (map (\<lambda>c. (served c, others)) clients @ [(r, others)]) s = Some (Status_Ok, s')
    \<and> tp_accepted (ts_pool s') = tp_accepted (ts_pool s) @ zip fds clients \<and> length fds = length clients"
proof -
  have "\<exists>fds s'. ThreadPoolServer_loop (map (\<lambda>c. (served c, others)) clients @ [(r, others)]) s = Some (Status_Ok, s')
    \<and> tp_accepted (ts_pool s') = tp_accepted (ts_pool s) @ zip fds clients \<and> length fds = length clients"
    using assms(2,4)
  proof (induction clients arbitrary: s)
    case Nil
    then show ?case using assms(5) by (simp add: Let_def)
  next
    case (Cons client clients)
    let ?s0 = "(others (s\<lparr>ts_stop := False\<rparr>))\<lparr>ts_stop := False\<rparr>"
    obtain fd k where a: "sys_accept (ts_kernel ?s0) = (fd, k)" by fastforce
    let ?s = "?s0\<lparr>ts_kernel := k, ts_pool := Submit (fd, client) (ts_pool ?s0)\<rparr>"
    have p: "tp_accepted (ts_pool ?s) = tp_accepted (ts_pool s) @ [(fd, client)]" "\<not> tp_stop (ts_pool ?s)" "\<not> ts_stop ?s"
      using assms(1) Cons.prems by (simp_all add: Submit_def)
    obtain fds s' where f: "ThreadPoolServer_loop (map (\<lambda>c. (served c, others)) clients @ [(r, others)]) ?s = Some (Status_Ok, s')"
      "tp_accepted (ts_pool s') = tp_accepted (ts_pool ?s) @ zip fds clients" "length fds = length clients"
      using Cons.IH [OF p(2,3)] by blast
    have "ThreadPoolServer_loop (map (\<lambda>c. (served c, others)) (client # clients) @ [(r, others)]) s = Some (Status_Ok, s')"
      using f(1) a Cons.prems(2) by (simp add: served_def Let_def)
    then show ?case using f(2,3) p(1) by (intro exI [of _ "fd # fds"] exI [of _ s']) simp
  qed
  then show ?thesis using assms(3) by (simp add: ThreadPoolServer_Run_def)
qed

section \<open>Properties\<close>

text \<open>
  C9. The blocking server is one durable map for all its clients. On a node without Raft with an empty directory, clients that connect one after the other, each sending
  the encodings of any requests and ending its stream, receive the encodings of the answers of one map to all the requests in the order of the connections;
  every connection is closed when it has been served, and a server that is stopped then returns without an error. Fewer than \<open>2 ^ 64\<close>
  requests, and system calls that do not fail.
\<close>

theorem blocking_server_is_one_map:
  assumes "list_all2 sends_requests clients reqss" "length (concat reqss) < 2 ^ 64" "calm os" "ok (bs_bind_status s)" "\<not> bs_stop s"
    and "bs_handler s = RequestHandler_new (Local (DurableStorage_new (env_hash env) dir [] os)) b" "stop_before r"
  shows "\<exists>outs s'. BlockingServer_Run (server_handler env) (map served clients @ [r]) s = Some (Status_Ok, outs, s') \<and> bs_kernel s' = bs_kernel s
    \<and> list_all2 (\<lambda>out resps. EncodeFrames (map Frame_ClientResponse resps) = Some (wf_data out)) outs (answers Map.empty reqss)"
proof -
  note new = new_node_inv [OF assms(3,2), of env dir b]
  obtain outs h where s: "sessions (server_handler env) clients (bs_handler s) = Some (outs, h)"
    "list_all2 (\<lambda>out resps. EncodeFrames (map Frame_ClientResponse resps) = Some (wf_data out)) outs (answers Map.empty reqss)"
    using sessions_refine [OF assms(1), where n = 0 and env = env and h = "bs_handler s"] assms(6) new by (auto simp: values_fit_def)
  have "BlockingServer_loop (server_handler env) [r] (s\<lparr>bs_handler := h\<rparr>) = Some (Status_Ok, [], s\<lparr>bs_handler := h, bs_stop := True\<rparr>)"
    using assms(7) by (simp add: Let_def)
  then show ?thesis using BlockingServer_loop_sessions [OF s(1) assms(5), of "[r]"] s(2) assms(4) by (simp add: BlockingServer_Run_def)
qed

definition demo_client :: "bytes \<Rightarrow> Client" where
  "demo_client bs = \<lparr>client_sends = \<lparr>fd_rest = bs, fd_os = [SysIntr]\<rparr>, client_gets = \<lparr>wf_data = [], wf_os = [SysShort 4]\<rparr>\<rparr>"

definition demo_blocking :: "RequestHandler BlockingServer" where
  "demo_blocking = BlockingServer_new (\<lambda>_ _ _. Inr [()]) (\<lambda>_. None) ''h'' 7000
     (RequestHandler_new (Local (DurableStorage_new (env_hash demo_env) ''d'' [] [])) False) demo_kernel"

theorem blocking_server_is_one_map_witness:
  "\<exists>bs1 bs2 outs s'. EncodeFrames [Frame_ClientRequest (demo_request Opcode_kSet 1 [5, 6])] = Some bs1
     \<and> EncodeFrames [Frame_ClientRequest (demo_request Opcode_kGet 2 [])] = Some bs2
     \<and> BlockingServer_Run (server_handler demo_env) [served (demo_client bs1), served (demo_client bs2), (served (demo_client bs1))\<lparr>stop_before := True\<rparr>] demo_blocking
         = Some (Status_Ok, outs, s')
     \<and> list_all2 (\<lambda>out resps. EncodeFrames (map Frame_ClientResponse resps) = Some (wf_data out)) outs
         [[\<lparr>cresp_request_id = 1, cresp_status = ResponseStatus_kOk, cresp_value = [], cresp_leader_hint = 0\<rparr>],
          [\<lparr>cresp_request_id = 2, cresp_status = ResponseStatus_kOk, cresp_value = [5, 6], cresp_leader_hint = 0\<rparr>]]"
proof -
  obtain bs1 bs2 where b: "EncodeFrames [Frame_ClientRequest (demo_request Opcode_kSet 1 [5, 6])] = Some bs1"
    "EncodeFrames [Frame_ClientRequest (demo_request Opcode_kGet 2 [])] = Some bs2"
    by (simp add: EncodeClientRequest_def demo_request_def Let_def)
  let ?reqss = "[[demo_request Opcode_kSet 1 [5, 6]], [demo_request Opcode_kGet 2 []]]"
  have s: "ok (bs_bind_status demo_blocking)" "\<not> bs_stop demo_blocking"
    "bs_handler demo_blocking = RequestHandler_new (Local (DurableStorage_new (env_hash demo_env) ''d'' [] [])) False"
    by (simp_all add: demo_blocking_def BlockingServer_new_def TcpListen_def demo_kernel_def Let_def sys_socket_def k_call_def sys_call_def
        lowest_free_def numeral_eq_Suc Fd_defs freeaddrinfo_def)
  have c: "list_all2 sends_requests [demo_client bs1, demo_client bs2] ?reqss"
    using b by (simp add: sends_requests_def demo_client_def del: EncodeFrames.simps)
  have a: "answers Map.empty ?reqss = [[\<lparr>cresp_request_id = 1, cresp_status = ResponseStatus_kOk, cresp_value = [], cresp_leader_hint = 0\<rparr>],
          [\<lparr>cresp_request_id = 2, cresp_status = ResponseStatus_kOk, cresp_value = [5, 6], cresp_leader_hint = 0\<rparr>]]"
    by (simp add: map_server_def demo_request_def Let_def)
  show ?thesis
    using blocking_server_is_one_map [OF c _ calm_Nil s(1,2,3), of "(served (demo_client bs1))\<lparr>stop_before := True\<rparr>"] b
    unfolding a by (auto simp del: EncodeFrames.simps)
qed

end
