(* ===== verification/Epoll_Server.thy ===== *)
theory Epoll_Server
  imports Net_Connection Socket_Utils
begin

text \<open>
  \<^verbatim>\<open>net/epoll_server.{h,cpp}\<close>: the event loop. The server's record holds its members, the state behind its handler (of any type), the kernel, and
  the interest list that the kernel keeps for \<^verbatim>\<open>epoll_fd_\<close>. What \<^verbatim>\<open>epoll_wait\<close>, \<^verbatim>\<open>accept\<close>, \<^verbatim>\<open>read\<close> and \<^verbatim>\<open>write\<close> will return are arguments.
\<close>

section \<open>Events\<close>

definition EPOLLIN :: u32 where "EPOLLIN = 0x001"
definition EPOLLOUT :: u32 where "EPOLLOUT = 0x004"
definition EPOLLERR :: u32 where "EPOLLERR = 0x008"
definition EPOLLHUP :: u32 where "EPOLLHUP = 0x010"
definition EPOLLRDHUP :: u32 where "EPOLLRDHUP = 0x2000"
definition EPOLLET :: u32 where "EPOLLET = 0x80000000"

lemmas EPOLL_defs = EPOLLIN_def EPOLLOUT_def EPOLLERR_def EPOLLHUP_def EPOLLRDHUP_def EPOLLET_def

definition kMaxEvents :: nat where "kMaxEvents = 64"

definition kBackpressureThreshold :: nat where "kBackpressureThreshold = 1024 * 1024"

definition WantedEvents :: "Connection \<Rightarrow> u32" where
  "WantedEvents conn =
     (let events = EPOLLET OR EPOLLRDHUP;
          events = (if length (conn_write_buffer conn) < kBackpressureThreshold then events OR EPOLLIN else events);
          events = (if write_pending conn then events OR EPOLLOUT else events)
      in events)"

text \<open>An event, with the outcomes of the system calls made while it is handled.\<close>

datatype accept = AcceptOk | AcceptAgain | AcceptIntr | AcceptErr

record epoll_event =
  ev_fd :: int
  ev_events :: u32
  ev_accepts :: "accept list"
  ev_reads :: "recv list"
  ev_writes :: "send list"

datatype epoll_wait = WaitIntr | WaitErr string | WaitEvents "epoll_event list"

section \<open>The server\<close>

record 's EpollServer =
  es_host :: string
  es_port :: u16
  es_handler :: 's
  es_stop :: bool
  es_listen_fd :: Fd
  es_epoll_fd :: Fd
  es_wake_fd :: Fd
  es_bind_status :: Status
  es_connections :: "(int \<times> Connection) list"
  es_interest :: "(int \<times> u32) list"
  es_kernel :: Kernel

text \<open>\<^verbatim>\<open>epoll_ctl\<close> for adding or changing an entry, and for removing one; a failing call changes nothing. Closing a descriptor removes it too.\<close>

definition epoll_set :: "int \<Rightarrow> u32 \<Rightarrow> 's EpollServer \<Rightarrow> string option \<times> 's EpollServer" where
  "epoll_set fd events s =
     (case k_call (es_kernel s) of
        (Some e, k) \<Rightarrow> (Some e, s\<lparr>es_kernel := k\<rparr>)
      | (None, k) \<Rightarrow> (None, s\<lparr>es_kernel := k, es_interest := AList.update fd events (es_interest s)\<rparr>))"

definition epoll_del :: "int \<Rightarrow> 's EpollServer \<Rightarrow> 's EpollServer" where
  "epoll_del fd s =
     (case k_call (es_kernel s) of
        (Some e, k) \<Rightarrow> s\<lparr>es_kernel := k\<rparr>
      | (None, k) \<Rightarrow> s\<lparr>es_kernel := k, es_interest := AList.delete fd (es_interest s)\<rparr>)"

definition close_fd :: "int \<Rightarrow> 's EpollServer \<Rightarrow> 's EpollServer" where
  "close_fd fd s = s\<lparr>es_kernel := CloseQuietly fd (es_kernel s), es_interest := AList.delete fd (es_interest s)\<rparr>"

definition EpollServer_new :: "'a resolver \<Rightarrow> (int \<Rightarrow> sockaddr option) \<Rightarrow> string \<Rightarrow> u16 \<Rightarrow> 's \<Rightarrow> Kernel \<Rightarrow> 's EpollServer" where
  "EpollServer_new getaddrinfo getsockname host port handler k =
     (let s = \<lparr>es_host = host, es_port = port, es_handler = handler, es_stop = False, es_listen_fd = Fd_default, es_epoll_fd = Fd_default,
               es_wake_fd = Fd_default, es_bind_status = Status_Ok, es_connections = [], es_interest = [], es_kernel = k\<rparr> in
      case TcpListen getaddrinfo host port k of
        (Inl status, k) \<Rightarrow> s\<lparr>es_bind_status := status, es_kernel := k\<rparr>
      | (Inr listen_fd, k) \<Rightarrow>
          let s = s\<lparr>es_listen_fd := Fd_new listen_fd, es_port := GetBoundPort getsockname listen_fd port,
                    es_kernel := snd (SetNonBlocking listen_fd True k)\<rparr> in
          (case sys_socket (es_kernel s) of
             (Some e, _, k) \<Rightarrow> s\<lparr>es_bind_status := Status_Error ErrorCode_kIOError (''epoll_create1: '' @ e), es_kernel := k\<rparr>
           | (None, epoll_raw, k) \<Rightarrow>
               let s = s\<lparr>es_epoll_fd := Fd_new epoll_raw, es_kernel := k\<rparr> in
               (case sys_socket (es_kernel s) of
                  (Some e, _, k) \<Rightarrow> s\<lparr>es_bind_status := Status_Error ErrorCode_kIOError (''eventfd: '' @ e), es_kernel := k\<rparr>
                | (None, wake_raw, k) \<Rightarrow>
                    let s = s\<lparr>es_wake_fd := Fd_new wake_raw, es_kernel := k\<rparr> in
                    (case epoll_set (Fd_get (es_listen_fd s)) EPOLLIN s of
                       (Some e, s) \<Rightarrow> s\<lparr>es_bind_status := Status_Error ErrorCode_kIOError (''epoll_ctl(listen): '' @ e)\<rparr>
                     | (None, s) \<Rightarrow>
                         (case epoll_set (Fd_get (es_wake_fd s)) EPOLLIN s of
                            (Some e, s) \<Rightarrow> s\<lparr>es_bind_status := Status_Error ErrorCode_kIOError (''epoll_ctl(wake): '' @ e)\<rparr>
                          | (None, s) \<Rightarrow> s)))))"

definition EpollServer_Stop :: "'s EpollServer \<Rightarrow> 's EpollServer" where
  "EpollServer_Stop s = s\<lparr>es_stop := True, es_kernel := snd (k_call (es_kernel s))\<rparr>"

definition RemoveConnection :: "int \<Rightarrow> 's EpollServer \<Rightarrow> 's EpollServer" where
  "RemoveConnection fd s =
     (let s = epoll_del fd s;
          s = close_fd fd s
      in s\<lparr>es_connections := AList.delete fd (es_connections s)\<rparr>)"

text \<open>What \<^verbatim>\<open>AcceptNewConnections\<close> does once \<^verbatim>\<open>accept\<close> has returned a descriptor.\<close>

definition accept_one :: "'s EpollServer \<Rightarrow> 's EpollServer" where
  "accept_one s =
     (let client_fd = lowest_free (k_open (es_kernel s));
          k = (es_kernel s)\<lparr>k_open := client_fd # k_open (es_kernel s)\<rparr>;
          conn = Connection_new;
          s = s\<lparr>es_kernel := snd (SetNonBlocking client_fd True k)\<rparr> in
      case epoll_set client_fd (WantedEvents conn) s of
        (Some e, s) \<Rightarrow> close_fd client_fd s
      | (None, s) \<Rightarrow>
          if map_of (es_connections s) client_fd = None then s\<lparr>es_connections := (client_fd, conn) # es_connections s\<rparr> else s)"

fun AcceptNewConnections :: "accept list \<Rightarrow> 's EpollServer \<Rightarrow> 's EpollServer" where
  "AcceptNewConnections [] s = s"
| "AcceptNewConnections (AcceptAgain # accepts) s = s"
| "AcceptNewConnections (AcceptIntr # accepts) s = AcceptNewConnections accepts s"
| "AcceptNewConnections (AcceptErr # accepts) s = s"
| "AcceptNewConnections (AcceptOk # accepts) s = AcceptNewConnections accepts (accept_one s)"

text \<open>\<open>HandleEvent\<close> also answers the bytes that were sent to the client.\<close>

definition HandleEvent :: "'s Handler \<Rightarrow> epoll_event \<Rightarrow> 's EpollServer \<Rightarrow> (bytes \<times> 's EpollServer) option" where
  "HandleEvent hnd ev s =
     (let fd = ev_fd ev in
      case map_of (es_connections s) fd of
        None \<Rightarrow> Some ([], s)
      | Some conn \<Rightarrow>
          if ev_events ev AND (EPOLLHUP OR EPOLLERR) \<noteq> 0 then Some ([], RemoveConnection fd s)
          else
            (case (if ev_events ev AND EPOLLIN \<noteq> 0 then OnReadable hnd (ev_reads ev) conn (es_handler s)
                   else Some (Status_Ok, ev_reads ev, conn, es_handler s)) of
               None \<Rightarrow> None
             | Some (_, _, conn, h) \<Rightarrow>
                 let s = s\<lparr>es_handler := h\<rparr>;
                     (_, sent, _, conn) =
                       (if \<not> conn_closed conn \<and> ev_events ev AND EPOLLOUT \<noteq> 0 then OnWritable (ev_writes ev) conn
                        else (Status_Ok, [], ev_writes ev, conn)) in
                 if conn_closed conn then Some (sent, RemoveConnection fd s)
                 else
                   Some (sent, snd (epoll_set fd (WantedEvents conn) (s\<lparr>es_connections := AList.update fd conn (es_connections s)\<rparr>)))))"

text \<open>The batch of one \<^verbatim>\<open>epoll_wait\<close>, and the loop; \<open>stop\<close> is what \<^verbatim>\<open>stop_.load()\<close> answers at the top of each round.\<close>

fun handle_batch :: "'s Handler \<Rightarrow> epoll_event list \<Rightarrow> 's EpollServer \<Rightarrow> 's EpollServer option" where
  "handle_batch hnd [] s = Some s"
| "handle_batch hnd (ev # evs) s =
     (if ev_fd ev = Fd_get (es_wake_fd s) then handle_batch hnd evs (s\<lparr>es_kernel := snd (k_call (es_kernel s))\<rparr>)
      else if ev_fd ev = Fd_get (es_listen_fd s) then handle_batch hnd evs (AcceptNewConnections (ev_accepts ev) s)
      else (case HandleEvent hnd ev s of None \<Rightarrow> None | Some (_, s) \<Rightarrow> handle_batch hnd evs s))"

fun Run_loop :: "'s Handler \<Rightarrow> (bool \<times> epoll_wait) list \<Rightarrow> 's EpollServer \<Rightarrow> (Status \<times> 's EpollServer) option" where
  "Run_loop hnd [] s = (if es_stop s then Some (Status_Ok, s) else None)"
| "Run_loop hnd ((stop, w) # ws) s =
     (let s = s\<lparr>es_stop := es_stop s \<or> stop\<rparr> in
      if es_stop s then Some (Status_Ok, s)
      else case w of
        WaitIntr \<Rightarrow> Run_loop hnd ws s
      | WaitErr e \<Rightarrow> Some (Status_Error ErrorCode_kIOError (''epoll_wait: '' @ e), s)
      | WaitEvents evs \<Rightarrow> (case handle_batch hnd (take kMaxEvents evs) s of None \<Rightarrow> None | Some s \<Rightarrow> Run_loop hnd ws s))"

definition EpollServer_Run :: "'s Handler \<Rightarrow> (bool \<times> epoll_wait) list \<Rightarrow> 's EpollServer \<Rightarrow> (Status \<times> 's EpollServer) option" where
  "EpollServer_Run hnd ws s = (if \<not> ok (es_bind_status s) then Some (es_bind_status s, s) else Run_loop hnd ws s)"

section \<open>The descriptor table\<close>

text \<open>
  The open descriptors are those of the connections and the ones the server had before, all different; no descriptor was closed that was not open,
  and no connection in the table is closed.
\<close>

definition es_inv :: "int set \<Rightarrow> nat \<Rightarrow> 's EpollServer \<Rightarrow> bool" where
  "es_inv base stray s \<longleftrightarrow>
     distinct (k_open (es_kernel s)) \<and> set (k_open (es_kernel s)) = base \<union> set (map fst (es_connections s))
     \<and> distinct (map fst (es_connections s)) \<and> base \<inter> set (map fst (es_connections s)) = {}
     \<and> (\<forall>fd \<in> set (map fst (es_connections s)). 0 \<le> fd) \<and> k_stray (es_kernel s) = stray
     \<and> (\<forall>fd conn. map_of (es_connections s) fd = Some conn \<longrightarrow> \<not> conn_closed conn)"

lemma es_inv_cong:
  "es_inv base stray s \<Longrightarrow> k_open (es_kernel s') = k_open (es_kernel s) \<Longrightarrow> k_stray (es_kernel s') = k_stray (es_kernel s) \<Longrightarrow>
     es_connections s' = es_connections s \<Longrightarrow> es_inv base stray s'"
  by (simp add: es_inv_def)

lemma k_call_frame [simp]: "k_open (snd (k_call k)) = k_open k" "k_stray (snd (k_call k)) = k_stray k"
  using k_call_same [of k] by (cases "k_call k", simp add: same_table_def)+

lemma SetNonBlocking_frame [simp]:
  "k_open (snd (SetNonBlocking fd b k)) = k_open k" "k_stray (snd (SetNonBlocking fd b k)) = k_stray k"
proof -
  obtain e k1 where c: "k_call k = (e, k1)" by fastforce
  obtain e' k2 where d: "k_call k1 = (e', k2)" by fastforce
  show "k_open (snd (SetNonBlocking fd b k)) = k_open k" "k_stray (snd (SetNonBlocking fd b k)) = k_stray k"
    using k_call_same [OF c] k_call_same [OF d] c d
    by (simp_all add: SetNonBlocking_def same_table_def Let_def split: option.split)
qed

lemma epoll_set_frame:
  assumes "epoll_set fd events s = (e, s')"
  shows "k_open (es_kernel s') = k_open (es_kernel s)" "k_stray (es_kernel s') = k_stray (es_kernel s)"
    "es_connections s' = es_connections s" "es_handler s' = es_handler s"
    "es_listen_fd s' = es_listen_fd s" "es_epoll_fd s' = es_epoll_fd s" "es_wake_fd s' = es_wake_fd s"
  using assms k_call_frame [of "es_kernel s"] by (cases "k_call (es_kernel s)", auto simp: epoll_set_def split: option.splits)+

lemma epoll_del_frame:
  "k_open (es_kernel (epoll_del fd s)) = k_open (es_kernel s)" "k_stray (es_kernel (epoll_del fd s)) = k_stray (es_kernel s)"
  "es_connections (epoll_del fd s) = es_connections s" "es_handler (epoll_del fd s) = es_handler s"
  using k_call_frame [of "es_kernel s"] by (cases "k_call (es_kernel s)", simp add: epoll_del_def split: option.splits)+

lemma RemoveConnection_inv:
  assumes "es_inv base stray s" "fd \<in> set (map fst (es_connections s))"
  shows "es_inv base stray (RemoveConnection fd s)"
proof -
  let ?k = "es_kernel (epoll_del fd s)"
  have fd: "0 \<le> fd" "fd \<in> set (k_open ?k)" "fd \<notin> base" using assms by (auto simp: es_inv_def epoll_del_frame)
  then have "CloseQuietly fd ?k = ?k\<lparr>k_open := remove1 fd (k_open ?k)\<rparr>" by (simp add: CloseQuietly_def sys_close_def)
  then show ?thesis
    using assms(1) fd(3)
    by (auto simp: RemoveConnection_def Let_def close_fd_def es_inv_def epoll_del_frame delete_keys delete_conv' distinct_remove1 distinct_removeAll
        simp del: map_map image_image)
qed

lemma accept_inv:
  assumes "es_inv base stray s" "fd = lowest_free (k_open (es_kernel s))"
  shows "es_inv (insert fd base) stray (s\<lparr>es_kernel := snd (SetNonBlocking fd True ((es_kernel s)\<lparr>k_open := fd # k_open (es_kernel s)\<rparr>))\<rparr>)"
    "fd \<notin> set (map fst (es_connections s))" "0 \<le> fd" "fd \<notin> base"
  using assms lowest_free [of "k_open (es_kernel s)"] by (auto simp: es_inv_def)

lemma accept_one_inv:
  assumes "es_inv base stray s"
  shows "es_inv base stray (accept_one s)"
proof -
  define fd where "fd = lowest_free (k_open (es_kernel s))"
  define s1 where "s1 = s\<lparr>es_kernel := snd (SetNonBlocking fd True ((es_kernel s)\<lparr>k_open := fd # k_open (es_kernel s)\<rparr>))\<rparr>"
  obtain e s2 where e: "epoll_set fd (WantedEvents Connection_new) s1 = (e, s2)" by fastforce
  note acc = accept_inv [OF assms fd_def, folded s1_def] and frame = epoll_set_frame [OF e]
  have inv2: "es_inv (insert fd base) stray s2" using es_inv_cong [OF acc(1) frame(1-3)] .
  have conns: "es_connections s2 = es_connections s" using frame(3) by (simp add: s1_def)
  have none: "map_of (es_connections s2) fd = None" using acc(2) conns by (simp add: map_of_eq_None_iff)
  have "es_inv base stray (s2\<lparr>es_connections := (fd, Connection_new) # es_connections s2\<rparr>)"
    using inv2 acc(2-4) conns by (auto simp: es_inv_def Connection_new_def)
  moreover have "es_inv base stray (close_fd fd s2)"
    using inv2 acc(2-4) conns by (auto simp: es_inv_def close_fd_def CloseQuietly_def sys_close_def)
  ultimately show ?thesis using e none by (cases e) (simp_all add: accept_one_def fd_def [symmetric] s1_def [symmetric] Let_def)
qed

lemma AcceptNewConnections_inv: "es_inv base stray s \<Longrightarrow> es_inv base stray (AcceptNewConnections accepts s)"
  by (induction accepts s rule: AcceptNewConnections.induct) (simp_all add: accept_one_inv)

lemma HandleEvent_cases:
  assumes "HandleEvent hnd ev s = Some (sent, s')"
  obtains (unknown) "s' = s"
  | (removed) h where "ev_fd ev \<in> set (map fst (es_connections s))" "s' = RemoveConnection (ev_fd ev) (s\<lparr>es_handler := h\<rparr>)"
  | (kept) h conn where "ev_fd ev \<in> set (map fst (es_connections s))" "\<not> conn_closed conn"
      "s' = snd (epoll_set (ev_fd ev) (WantedEvents conn) (s\<lparr>es_handler := h, es_connections := AList.update (ev_fd ev) conn (es_connections s)\<rparr>))"
proof (cases "map_of (es_connections s) (ev_fd ev)")
  case None
  then show thesis using assms unknown by (simp add: HandleEvent_def)
next
  case (Some conn)
  then have key: "ev_fd ev \<in> set (map fst (es_connections s))" using map_of_SomeD [of "es_connections s" "ev_fd ev"] by force
  show thesis
  proof (cases "ev_events ev AND (EPOLLHUP OR EPOLLERR) \<noteq> 0")
    case True
    then show thesis using assms Some key removed [of "es_handler s"] by (simp add: HandleEvent_def)
  next
    case False
    let ?r = "if ev_events ev AND EPOLLIN \<noteq> 0 then OnReadable hnd (ev_reads ev) conn (es_handler s)
      else Some (Status_Ok, ev_reads ev, conn, es_handler s)"
    obtain st fd conn1 h where r: "?r = Some (st, fd, conn1, h)"
      using assms Some False by (cases ?r) (auto simp: HandleEvent_def)
    let ?w = "if \<not> conn_closed conn1 \<and> ev_events ev AND EPOLLOUT \<noteq> 0 then OnWritable (ev_writes ev) conn1 else (Status_Ok, [], ev_writes ev, conn1)"
    obtain st2 sent2 fd2 conn2 where w: "?w = (st2, sent2, fd2, conn2)" by (rule prod_cases4)
    have "s' = (if conn_closed conn2 then RemoveConnection (ev_fd ev) (s\<lparr>es_handler := h\<rparr>)
      else snd (epoll_set (ev_fd ev) (WantedEvents conn2) (s\<lparr>es_handler := h, es_connections := AList.update (ev_fd ev) conn2 (es_connections s)\<rparr>)))"
      using assms Some False by (simp add: HandleEvent_def Let_def r w split: if_splits)
    then show thesis using key removed kept by (cases "conn_closed conn2") simp_all
  qed
qed

lemma HandleEvent_inv:
  assumes "es_inv base stray s" "HandleEvent hnd ev s = Some (sent, s')"
  shows "es_inv base stray s'"
  using assms(2)
proof (cases rule: HandleEvent_cases)
  case (removed h)
  have "es_inv base stray (s\<lparr>es_handler := h\<rparr>)" by (rule es_inv_cong [OF assms(1)]) simp_all
  then show ?thesis using RemoveConnection_inv [of base stray "s\<lparr>es_handler := h\<rparr>"] removed by simp
next
  case (kept h conn)
  let ?s = "s\<lparr>es_handler := h, es_connections := AList.update (ev_fd ev) conn (es_connections s)\<rparr>"
  have inv: "es_inv base stray ?s" using assms(1) kept(1,2) unfolding es_inv_def by (simp add: update_keys update_conv')
  obtain e s2 where e: "epoll_set (ev_fd ev) (WantedEvents conn) ?s = (e, s2)" by fastforce
  then show ?thesis using es_inv_cong [OF inv epoll_set_frame(1-3) [OF e]] kept(3) by simp
qed (use assms(1) in simp)

section \<open>The interest list\<close>

text \<open>Every connection is watched for exactly what it needs, as long as the system calls succeed.\<close>

definition es_watched :: "'s EpollServer \<Rightarrow> bool" where
  "es_watched s \<longleftrightarrow> calm (k_os (es_kernel s))
     \<and> (\<forall>fd conn. map_of (es_connections s) fd = Some conn \<longrightarrow> map_of (es_interest s) fd = Some (WantedEvents conn))"

lemma k_call_calm: "calm (k_os k) \<Longrightarrow> \<exists>os. k_call k = (None, k\<lparr>k_os := os\<rparr>) \<and> calm os"
  by (rule exI [of _ "snd (sys_call (k_os k))"]) (simp add: k_call_def case_prod_unfold)

lemma SetNonBlocking_calm: "calm (k_os k) \<Longrightarrow> calm (k_os (snd (SetNonBlocking fd b k)))"
proof -
  assume "calm (k_os k)"
  then obtain os where 1: "k_call k = (None, k\<lparr>k_os := os\<rparr>)" "calm os" using k_call_calm by blast
  then obtain os' where "k_call (k\<lparr>k_os := os\<rparr>) = (None, k\<lparr>k_os := os'\<rparr>)" "calm os'" using k_call_calm [of "k\<lparr>k_os := os\<rparr>"] by auto
  with 1 show ?thesis by (simp add: SetNonBlocking_def Let_def)
qed

lemma epoll_set_calm:
  assumes "calm (k_os (es_kernel s))"
  obtains os where "epoll_set fd events s = (None, s\<lparr>es_kernel := (es_kernel s)\<lparr>k_os := os\<rparr>, es_interest := AList.update fd events (es_interest s)\<rparr>)" "calm os"
  using k_call_calm [OF assms] by (auto simp: epoll_set_def)

lemma RemoveConnection_watched:
  assumes "es_watched s"
  shows "es_watched (RemoveConnection fd s)"
proof -
  obtain os where "k_call (es_kernel s) = (None, (es_kernel s)\<lparr>k_os := os\<rparr>)" "calm os"
    using k_call_calm assms unfolding es_watched_def by blast
  then show ?thesis
    using assms by (simp add: es_watched_def RemoveConnection_def Let_def epoll_del_def close_fd_def CloseQuietly_def sys_close_def delete_conv')
qed

lemma accept_one_watched:
  assumes "es_watched s" "es_inv base stray s"
  shows "es_watched (accept_one s)"
proof -
  define fd where "fd = lowest_free (k_open (es_kernel s))"
  define s1 where "s1 = s\<lparr>es_kernel := snd (SetNonBlocking fd True ((es_kernel s)\<lparr>k_open := fd # k_open (es_kernel s)\<rparr>))\<rparr>"
  have "calm (k_os (es_kernel s1))" using assms(1) by (simp add: es_watched_def s1_def SetNonBlocking_calm)
  then obtain os where e: "epoll_set fd (WantedEvents Connection_new) s1
      = (None, s1\<lparr>es_kernel := (es_kernel s1)\<lparr>k_os := os\<rparr>, es_interest := AList.update fd (WantedEvents Connection_new) (es_interest s1)\<rparr>)" "calm os"
    by (rule epoll_set_calm)
  have "fd \<notin> set (map fst (es_connections s))" using accept_inv(2) [OF assms(2) fd_def] .
  then have none: "map_of (es_connections s) fd = None" by (simp add: map_of_eq_None_iff)
  show ?thesis
    unfolding accept_one_def Let_def fd_def [symmetric] s1_def [symmetric] e(1)
    using assms(1) none e(2) by (simp add: es_watched_def update_conv' s1_def)
qed

lemma AcceptNewConnections_watched:
  "es_watched s \<Longrightarrow> es_inv base stray s \<Longrightarrow> es_watched (AcceptNewConnections accepts s)"
  by (induction accepts s rule: AcceptNewConnections.induct) (simp_all add: accept_one_inv accept_one_watched)

lemma HandleEvent_watched:
  assumes "es_watched s" "HandleEvent hnd ev s = Some (sent, s')"
  shows "es_watched s'"
  using assms(2)
proof (cases rule: HandleEvent_cases)
  case (removed h)
  have "es_watched (s\<lparr>es_handler := h\<rparr>)" using assms(1) by (simp add: es_watched_def)
  then show ?thesis unfolding removed(2) by (rule RemoveConnection_watched)
next
  case (kept h conn)
  let ?s = "s\<lparr>es_handler := h, es_connections := AList.update (ev_fd ev) conn (es_connections s)\<rparr>"
  have "calm (k_os (es_kernel ?s))" using assms(1) by (simp add: es_watched_def)
  then obtain os where "epoll_set (ev_fd ev) (WantedEvents conn) ?s
      = (None, ?s\<lparr>es_kernel := (es_kernel ?s)\<lparr>k_os := os\<rparr>, es_interest := AList.update (ev_fd ev) (WantedEvents conn) (es_interest ?s)\<rparr>)" "calm os"
    by (rule epoll_set_calm)
  then show ?thesis using assms(1) kept(3) by (simp add: es_watched_def update_conv')
qed (use assms(1) in simp)

section \<open>Sequences of events\<close>

fun run_batches :: "'s Handler \<Rightarrow> epoll_event list list \<Rightarrow> 's EpollServer \<Rightarrow> 's EpollServer option" where
  "run_batches hnd [] s = Some s"
| "run_batches hnd (evs # batches) s = (case handle_batch hnd evs s of None \<Rightarrow> None | Some s \<Rightarrow> run_batches hnd batches s)"

lemma handle_batch_preserves:
  assumes "\<And>s. P s \<Longrightarrow> P (s\<lparr>es_kernel := snd (k_call (es_kernel s))\<rparr>)" "\<And>accepts s. P s \<Longrightarrow> P (AcceptNewConnections accepts s)"
    and "\<And>ev s sent s'. P s \<Longrightarrow> HandleEvent hnd ev s = Some (sent, s') \<Longrightarrow> P s'"
  shows "P s \<Longrightarrow> handle_batch hnd evs s = Some s' \<Longrightarrow> P s'"
  by (induction evs arbitrary: s) (auto intro: assms split: if_splits option.splits prod.splits)

lemma run_batches_preserves:
  assumes "\<And>s. P s \<Longrightarrow> P (s\<lparr>es_kernel := snd (k_call (es_kernel s))\<rparr>)" "\<And>accepts s. P s \<Longrightarrow> P (AcceptNewConnections accepts s)"
    and "\<And>ev s sent s'. P s \<Longrightarrow> HandleEvent hnd ev s = Some (sent, s') \<Longrightarrow> P s'"
  shows "P s \<Longrightarrow> run_batches hnd batches s = Some s' \<Longrightarrow> P s'"
proof (induction batches arbitrary: s)
  case (Cons evs batches)
  then obtain s1 where s1: "handle_batch hnd evs s = Some s1" "run_batches hnd batches s1 = Some s'" by (auto split: option.splits)
  have "P s1" using assms Cons.prems(1) s1(1) by (rule handle_batch_preserves [where P = P])
  then show ?case using Cons.IH s1(2) by blast
qed simp

lemma run_batches_inv:
  assumes "es_inv base stray s" "run_batches hnd batches s = Some s'"
  shows "es_inv base stray s'"
proof (rule run_batches_preserves [of "es_inv base stray" hnd])
  show "es_inv base stray (s\<lparr>es_kernel := snd (k_call (es_kernel s))\<rparr>)" if "es_inv base stray s" for s
    by (rule es_inv_cong [OF that]) simp_all
qed (use assms AcceptNewConnections_inv HandleEvent_inv in blast)+

lemma run_batches_watched:
  assumes "es_inv base stray s" "es_watched s" "run_batches hnd batches s = Some s'"
  shows "es_watched s'"
proof -
  have "es_inv base stray s' \<and> es_watched s'"
  proof (rule run_batches_preserves [of "\<lambda>s. es_inv base stray s \<and> es_watched s" hnd])
    show "es_inv base stray (s\<lparr>es_kernel := snd (k_call (es_kernel s))\<rparr>) \<and> es_watched (s\<lparr>es_kernel := snd (k_call (es_kernel s))\<rparr>)"
      if "es_inv base stray s \<and> es_watched s" for s
    proof
      show "es_inv base stray (s\<lparr>es_kernel := snd (k_call (es_kernel s))\<rparr>)" by (rule es_inv_cong) (use that in auto)
      show "es_watched (s\<lparr>es_kernel := snd (k_call (es_kernel s))\<rparr>)" using that k_call_calm [of "es_kernel s"] by (auto simp: es_watched_def)
    qed
  qed (use assms AcceptNewConnections_inv AcceptNewConnections_watched HandleEvent_inv HandleEvent_watched in blast)+
  then show ?thesis ..
qed

section \<open>A new server\<close>

text \<open>The descriptors of the server itself; a member that was never set owns none.\<close>

definition own_fds :: "'s EpollServer \<Rightarrow> int set" where
  "own_fds s = {fd \<in> {Fd_get (es_listen_fd s), Fd_get (es_epoll_fd s), Fd_get (es_wake_fd s)}. 0 \<le> fd}"

lemma es_inv_new:
  "distinct (k_open (es_kernel s)) \<Longrightarrow> es_connections s = [] \<Longrightarrow> es_inv (set (k_open (es_kernel s))) (k_stray (es_kernel s)) s"
  by (simp add: es_inv_def)

lemma sys_socket_table:
  assumes "sys_socket k = (e, fd, k')"
  shows "k_stray k' = k_stray k"
    "if e = None then 0 \<le> fd \<and> fd \<notin> set (k_open k) \<and> k_open k' = fd # k_open k else k_open k' = k_open k"
  using sys_socket_cases [OF assms] by (auto simp: same_table_def opened_def)

lemma EpollServer_new_table:
  fixes s :: "'s EpollServer"
  assumes "distinct (k_open k)" "s = EpollServer_new getaddrinfo getsockname host port handler k"
  shows "es_connections s = [] \<and> distinct (k_open (es_kernel s)) \<and> set (k_open (es_kernel s)) = set (k_open k) \<union> own_fds s
    \<and> k_stray (es_kernel s) = k_stray k"
proof (cases "TcpListen getaddrinfo host port k")
  case (Pair r k1)
  note listen = listener.opens [where getaddrinfo = getaddrinfo and host = host and port = port and k = k]
  show ?thesis
  proof (cases r)
    case (Inl st)
    then show ?thesis using Pair listen assms by (auto simp: EpollServer_new_def Let_def own_fds_def Fd_defs same_table_def)
  next
    case (Inr lfd)
    let ?k2 = "snd (SetNonBlocking lfd True k1)"
    have l: "0 \<le> lfd" "lfd \<notin> set (k_open k)" "k_open ?k2 = lfd # k_open k" "k_stray ?k2 = k_stray k"
      using Pair Inr listen by (simp_all add: opened_def)
    obtain e1 f1 k3 where s1: "sys_socket ?k2 = (e1, f1, k3)" by (rule prod_cases3)
    obtain e2 f2 k4 where s2: "sys_socket k3 = (e2, f2, k4)" by (rule prod_cases3)
    note t1 = sys_socket_table [OF s1] and t2 = sys_socket_table [OF s2]
    define a where "a = \<lparr>es_host = host, es_port = GetBoundPort getsockname lfd port, es_handler = handler, es_stop = False, es_listen_fd = Fd_new lfd,
      es_epoll_fd = Fd_new f1, es_wake_fd = Fd_new f2, es_bind_status = Status_Ok, es_connections = [], es_interest = [], es_kernel = k4\<rparr>"
    obtain e3 b where b: "epoll_set lfd EPOLLIN a = (e3, b)" by fastforce
    obtain e4 c where c: "epoll_set f2 EPOLLIN b = (e4, c)" by fastforce
    note fb = epoll_set_frame [OF b] and fc = epoll_set_frame [OF c]
    have get: "Fd_get (es_listen_fd a) = lfd" "Fd_get (es_wake_fd b) = f2" by (simp_all add: a_def fb Fd_defs)
    show ?thesis
    proof (cases "e1 = None \<and> e2 = None")
      case True
      have "s = (case e3 of Some e \<Rightarrow> b\<lparr>es_bind_status := Status_Error ErrorCode_kIOError (''epoll_ctl(listen): '' @ e)\<rparr>
        | None \<Rightarrow> case e4 of Some e \<Rightarrow> c\<lparr>es_bind_status := Status_Error ErrorCode_kIOError (''epoll_ctl(wake): '' @ e)\<rparr> | None \<Rightarrow> c)"
        using Pair Inr s1 s2 True b c get unfolding assms(2) EpollServer_new_def a_def by (simp add: Let_def split: option.split)
      then show ?thesis using True l t1 t2 fb fc assms(1)
        by (auto simp: a_def own_fds_def Fd_defs split: option.split)
    next
      case False
      then show ?thesis using Pair Inr s1 s2 l t1 t2 assms
        by (cases e1; cases e2) (auto simp: EpollServer_new_def Let_def own_fds_def Fd_defs)
    qed
  qed
qed

lemma EpollServer_new_inv:
  fixes s :: "'s EpollServer"
  assumes "distinct (k_open k)" "s = EpollServer_new getaddrinfo getsockname host port handler k"
  shows "es_inv (set (k_open k) \<union> own_fds s) (k_stray k) s" "es_connections s = []"
  using EpollServer_new_table [OF assms] es_inv_new [of s] by auto

lemma WantedEvents_bits:
  "WantedEvents conn AND EPOLLOUT \<noteq> 0 \<longleftrightarrow> write_pending conn"
  "WantedEvents conn AND EPOLLIN \<noteq> 0 \<longleftrightarrow> length (conn_write_buffer conn) < kBackpressureThreshold"
  by (simp_all add: WantedEvents_def EPOLL_defs)

section \<open>Properties\<close>

text \<open>
  C27. The event loop neither leaks descriptors nor closes what it does not own. Whatever \<^verbatim>\<open>epoll_wait\<close> reports and the system calls return, failing
  \<^verbatim>\<open>epoll_ctl\<close> calls included, after any number of batches of events the open descriptors are exactly those the process had before, the server's own
  and one for each entry of the connection table, all different; no descriptor was closed that was not open; and no closed connection stays in the table.
\<close>

theorem event_loop_keeps_descriptor_table:
  assumes "distinct (k_open k)" "s = EpollServer_new getaddrinfo getsockname host port handler k" "run_batches hnd batches s = Some s'"
  shows "es_inv (set (k_open k) \<union> own_fds s) (k_stray k) s'"
  using run_batches_inv [OF EpollServer_new_inv(1) [OF assms(1,2)] assms(3)] .

definition demo_server :: "nat EpollServer" where
  "demo_server = EpollServer_new (\<lambda>_ _ _. Inr [()]) (\<lambda>_. None) ''h'' 7000 0
     \<lparr>k_open = [0, 1, 2], k_addrs = 0, k_stray = 0, k_flags = (\<lambda>_. 0), k_os = []\<rparr>"

lemma demo_server_eq:
  "demo_server = \<lparr>es_host = ''h'', es_port = 7000, es_handler = 0, es_stop = False, es_listen_fd = Fd_new 3, es_epoll_fd = Fd_new 4,
     es_wake_fd = Fd_new 5, es_bind_status = Status_Ok, es_connections = [], es_interest = [(3, EPOLLIN), (5, EPOLLIN)],
     es_kernel = \<lparr>k_open = [5, 4, 3, 0, 1, 2], k_addrs = 0, k_stray = 0, k_flags = (\<lambda>_. 0)(3 := O_NONBLOCK), k_os = []\<rparr>\<rparr>"
  by (simp add: demo_server_def EpollServer_new_def TcpListen_def Let_def sys_socket_def k_call_def sys_call_def lowest_free_def numeral_eq_Suc
      freeaddrinfo_def SetNonBlocking_def GetBoundPort_def epoll_set_def Fd_defs)

definition demo_accept :: epoll_event where
  "demo_accept = \<lparr>ev_fd = 3, ev_events = EPOLLIN, ev_accepts = [AcceptOk], ev_reads = [], ev_writes = []\<rparr>"

lemma demo_accepted:
  "\<exists>s'. run_batches echo_handler [[demo_accept]] demo_server = Some s' \<and> es_connections s' = [(6, Connection_new)] \<and> k_open (es_kernel s') = [6, 5, 4, 3, 0, 1, 2]"
  by (simp add: demo_server_eq demo_accept_def Fd_defs accept_one_def Let_def lowest_free_def numeral_eq_Suc SetNonBlocking_def k_call_def
      sys_call_def epoll_set_def)

theorem event_loop_keeps_descriptor_table_witness:
  "\<exists>s'. run_batches echo_handler [[demo_accept]] demo_server = Some s' \<and> es_connections s' = [(6, Connection_new)]
     \<and> es_inv ({0, 1, 2} \<union> own_fds demo_server) 0 s'"
proof -
  obtain s' where s': "run_batches echo_handler [[demo_accept]] demo_server = Some s'" "es_connections s' = [(6, Connection_new)]"
    using demo_accepted by blast
  then show ?thesis using event_loop_keeps_descriptor_table [OF _ demo_server_def s'(1)] by simp
qed

text \<open>
  C28. No connection is forgotten: as long as \<^verbatim>\<open>epoll_ctl\<close> and \<^verbatim>\<open>fcntl\<close> succeed, after any events every connection is registered for writing exactly when it has
  output queued, and for reading exactly when less than one MiB of output is queued. So queued responses always get a
  chance to leave, and a client that does not read its responses is not read from until they do.
\<close>

theorem interest_matches_buffers:
  assumes "distinct (k_open k)" "s = EpollServer_new getaddrinfo getsockname host port handler k" "calm (k_os (es_kernel s))"
    and "run_batches hnd batches s = Some s'" "map_of (es_connections s') fd = Some conn"
  shows "\<exists>events. map_of (es_interest s') fd = Some events \<and> (events AND EPOLLOUT \<noteq> 0 \<longleftrightarrow> conn_write_buffer conn \<noteq> [])
    \<and> (events AND EPOLLIN \<noteq> 0 \<longleftrightarrow> length (conn_write_buffer conn) < 1024 * 1024)"
proof -
  note new = EpollServer_new_inv [OF assms(1,2)]
  have "es_watched s" using new(2) assms(3) by (simp add: es_watched_def)
  then have "es_watched s'" using run_batches_watched [OF new(1) _ assms(4)] by blast
  then have "map_of (es_interest s') fd = Some (WantedEvents conn)" using assms(5) by (simp add: es_watched_def)
  then show ?thesis using WantedEvents_bits [of conn] by (simp add: write_pending_def kBackpressureThreshold_def)
qed

theorem interest_matches_buffers_witness:
  "\<exists>s'. run_batches echo_handler [[demo_accept]] demo_server = Some s'
     \<and> (\<exists>events. map_of (es_interest s') 6 = Some events \<and> events AND EPOLLOUT = 0 \<and> events AND EPOLLIN \<noteq> 0)"
proof -
  obtain s' where s': "run_batches echo_handler [[demo_accept]] demo_server = Some s'" "es_connections s' = [(6, Connection_new)]"
    using demo_accepted by blast
  have "map_of (es_connections s') 6 = Some Connection_new" "calm (k_os (es_kernel demo_server))" by (simp_all add: s'(2) demo_server_eq)
  then show ?thesis using interest_matches_buffers [OF _ demo_server_def _ s'(1), of 6 Connection_new] s'(1) by (auto simp: Connection_new_def)
qed

text \<open>
  C35. A client that ends its stream right after its requests gets no answer from the event loop. When the requests and the end of the stream are read in the same event,
  the handler runs all of them, and then the connection is closed without a byte being sent, neither of the responses nor of any output queued before, whatever other
  conditions the event reports (writable included, hang-up and error excepted) and however much the socket would take. (The session of the other servers answers such a
  client: a request that was executed looks lost in this mode only.)
\<close>

theorem half_close_drops_responses:
  assumes "map_of (es_connections s) (ev_fd ev) = Some conn" "conn_read_buffer conn = []" "EncodeFrames fs = Some bs" "bs \<noteq> []"
    and "answer_all hnd (es_handler s) fs = Some (out, h)"
    and "ev_events ev AND EPOLLIN \<noteq> 0" "ev_events ev AND (EPOLLHUP OR EPOLLERR) = 0" "ev_reads ev = [RecvBytes bs, RecvBytes []]"
  shows "\<exists>s'. HandleEvent hnd ev s = Some ([], s') \<and> es_handler s' = h \<and> map_of (es_connections s') (ev_fd ev) = None"
proof -
  let ?conn = "MarkClosed (feed bs conn)"
  have "OnReadable_loop (ev_reads ev) conn = (Status_Ok, ?conn, [])" using assms(4,8) by (simp add: feed_def)
  moreover have "ProcessFrames hnd ?conn (es_handler s) = Some (?conn\<lparr>conn_read_buffer := [], conn_write_buffer := conn_write_buffer conn @ out\<rparr>, h)"
    using ProcessFrames_pipeline [OF assms(3,5) partial_frame_Nil, of ?conn] assms(2) by simp
  ultimately have "OnReadable hnd (ev_reads ev) conn (es_handler s)
      = Some (Status_Ok, [], ?conn\<lparr>conn_read_buffer := [], conn_write_buffer := conn_write_buffer conn @ out\<rparr>, h)"
    by (simp add: OnReadable_def)
  then have "HandleEvent hnd ev s = Some ([], RemoveConnection (ev_fd ev) (s\<lparr>es_handler := h\<rparr>))"
    using assms(1,6,7) by (simp add: HandleEvent_def MarkClosed_def)
  then show ?thesis by (simp add: RemoveConnection_def Let_def close_fd_def epoll_del_frame delete_conv')
qed

theorem half_close_drops_responses_witness:
  "\<exists>s s' bs. run_batches echo_handler [[demo_accept]] demo_server = Some s \<and> EncodeFrame (echo_request 1) = Inr bs
     \<and> HandleEvent echo_handler \<lparr>ev_fd = 6, ev_events = EPOLLIN OR EPOLLRDHUP, ev_accepts = [], ev_reads = [RecvBytes bs, RecvBytes []], ev_writes = [SendShort 999]\<rparr> s
         = Some ([], s') \<and> es_handler s' = Suc (es_handler s)"
proof -
  obtain s where s: "run_batches echo_handler [[demo_accept]] demo_server = Some s" "es_connections s = [(6, Connection_new)]"
    using demo_accepted by blast
  obtain bs where b: "EncodeFrame (echo_request 1) = Inr bs"
    by (simp add: EncodeFrame_eq echo_request_def del: EncodeFrame.simps)
  have "0 < length bs" using b by (auto simp: EncodeFrame_eq)
  then have ne: "bs \<noteq> []" by simp
  obtain out where a: "answer_frame echo_handler (es_handler s) (echo_request 1) = Some (Some out, Suc (es_handler s))"
    by (simp add: echo_handler_def echo_request_def EncodeClientResponse_def Let_def)
  let ?ev = "\<lparr>ev_fd = 6, ev_events = EPOLLIN OR EPOLLRDHUP, ev_accepts = [], ev_reads = [RecvBytes bs, RecvBytes []], ev_writes = [SendShort 999]\<rparr>"
  have m: "ev_events ?ev AND EPOLLIN \<noteq> 0" "ev_events ?ev AND (EPOLLHUP OR EPOLLERR) = 0" by (simp_all add: EPOLL_defs)
  have "\<exists>s'. HandleEvent echo_handler ?ev s = Some ([], s') \<and> es_handler s' = Suc (es_handler s) \<and> map_of (es_connections s') (ev_fd ?ev) = None"
    by (rule half_close_drops_responses [where conn = Connection_new and fs = "[echo_request 1]" and bs = bs and out = out, OF _ _ _ ne _ m])
      (use s a b in \<open>simp_all add: Connection_new_def del: EncodeFrame.simps\<close>)
  then show ?thesis using s(1) b by blast
qed

end
