(* ===== verification/Server_Program.thy ===== *)
theory Server_Program
  imports Client_Program Tcp_Servers Epoll_Server Raft_Node_Facts
begin

text \<open>
  \<^verbatim>\<open>tools/nkv-server/main.cpp\<close>: the server program, up to the moment a server is about to run, and from the moment it has returned. What the program finds
  outside is a record: the hash function, the files, the contents of the data directory, the outcomes of system calls, clock and randomness of the Raft node, the
  resolver and the kernel. The signal handler only calls \<^verbatim>\<open>Stop\<close> of the node and of the server.
\<close>

section \<open>Options\<close>

record NodeConfig =
  nc_node_id :: u32
  nc_host :: string
  nc_port :: u16
  nc_data_dir :: string

definition NodeConfig_default :: NodeConfig where
  "NodeConfig_default = \<lparr>nc_node_id = 0, nc_host = ''127.0.0.1'', nc_port = 7400, nc_data_dir = ''./data''\<rparr>"

record server_options =
  so_config :: NodeConfig
  so_workers :: int
  so_workers_explicit :: bool
  so_io_mode :: string
  so_cluster_config :: string
  so_node_id :: u32
  so_allow_stale_reads :: bool

definition server_options_default :: server_options where
  "server_options_default = \<lparr>so_config = NodeConfig_default, so_workers = 1, so_workers_explicit = False, so_io_mode = '''', so_cluster_config = '''',
     so_node_id = 0, so_allow_stale_reads = False\<rparr>"

text \<open>\<^verbatim>\<open>std::stoul\<close> of an arbitrary string: a sign is allowed, and a negative number is taken modulo \<open>2 ^ 64\<close>.\<close>

definition stoul_signed :: "string \<Rightarrow> u64 option" where
  "stoul_signed s =
     (let s = dropWhile isspace s;
          neg = (s \<noteq> [] \<and> hd s = CHR ''-'');
          s = (if s \<noteq> [] \<and> (hd s = CHR ''-'' \<or> hd s = CHR ''+'') then tl s else s);
          ds = takeWhile isdigit s in
      if ds = [] \<or> decimal ds \<ge> 2 ^ 64 then None else Some (of_int (if neg then - decimal ds else decimal ds)))"

definition server_PrintUsage :: string where
  "server_PrintUsage = text_lines
     [''nkv-server - NeuralKV single-node server'', '''', ''Usage: nkv-server [options]'', '''', ''Options:'',
      ''  --host <addr>          Listen address (default: 127.0.0.1)'',
      ''  --port <n>             Listen port (default: 7400; 0 for ephemeral)'',
      ''  --data-dir <path>      WAL and data directory (default: ./data)'',
      ''  --workers <n>          Worker threads (default: 1)'',
      ''  --io <mode>            blocking | threadpool | epoll (Linux only)'',
      ''                         default: blocking if --workers 1, else threadpool'',
      ''  --node-id <n>          This node's cluster id (required with --cluster-config)'',
      ''  --cluster-config <path>  Cluster membership file; enables Raft replication'',
      ''  --allow-stale-reads    Serve GET from local storage unconditionally, on any'',
      ''                         node, instead of the default linearizable read_index'',
      ''                         check (ignored without --cluster-config)'',
      ''  --help                 Show this message'']"

fun server_args :: "string list \<Rightarrow> server_options \<Rightarrow> run + server_options" where
  "server_args [] opts = Inr opts"
| "server_args (arg # args) opts =
     (if arg = ''--help'' \<or> arg = ''-h'' then Inl (Exits EXIT_SUCCESS (text_bytes server_PrintUsage) '''')
      else if arg = ''--host'' then
        (case args of [] \<Rightarrow> Inl (missing_value arg) | v # args \<Rightarrow> server_args args (opts\<lparr>so_config := (so_config opts)\<lparr>nc_host := v\<rparr>\<rparr>))
      else if arg = ''--port'' then
        (case args of
           [] \<Rightarrow> Inl (missing_value arg)
         | v # args \<Rightarrow>
             (case stoi v of None \<Rightarrow> Inl Throws | Some n \<Rightarrow> server_args args (opts\<lparr>so_config := (so_config opts)\<lparr>nc_port := of_int n\<rparr>\<rparr>)))
      else if arg = ''--data-dir'' then
        (case args of [] \<Rightarrow> Inl (missing_value arg) | v # args \<Rightarrow> server_args args (opts\<lparr>so_config := (so_config opts)\<lparr>nc_data_dir := v\<rparr>\<rparr>))
      else if arg = ''--workers'' then
        (case args of
           [] \<Rightarrow> Inl (missing_value arg)
         | v # args \<Rightarrow> (case stoi v of None \<Rightarrow> Inl Throws | Some n \<Rightarrow> server_args args (opts\<lparr>so_workers := n, so_workers_explicit := True\<rparr>)))
      else if arg = ''--io'' then
        (case args of [] \<Rightarrow> Inl (missing_value arg) | v # args \<Rightarrow> server_args args (opts\<lparr>so_io_mode := v\<rparr>))
      else if arg = ''--node-id'' then
        (case args of
           [] \<Rightarrow> Inl (missing_value arg)
         | v # args \<Rightarrow> (case stoul_signed v of None \<Rightarrow> Inl Throws | Some n \<Rightarrow> server_args args (opts\<lparr>so_node_id := ucast n\<rparr>)))
      else if arg = ''--cluster-config'' then
        (case args of [] \<Rightarrow> Inl (missing_value arg) | v # args \<Rightarrow> server_args args (opts\<lparr>so_cluster_config := v\<rparr>))
      else if arg = ''--allow-stale-reads'' then server_args args (opts\<lparr>so_allow_stale_reads := True\<rparr>)
      else Inl (Exits EXIT_FAILURE (text_bytes server_PrintUsage) (''unknown argument: '' @ arg @ newline)))"

text \<open>The mode of the server: the default, and the checks. The result also has what is written to the standard error.\<close>

definition choose_io_mode :: "server_options \<Rightarrow> run + (string \<times> string)" where
  "choose_io_mode opts =
     (let io_mode = (if so_io_mode opts = '''' then if so_workers opts > 1 then ''threadpool'' else ''blocking'' else so_io_mode opts) in
      if io_mode \<noteq> ''blocking'' \<and> io_mode \<noteq> ''threadpool'' \<and> io_mode \<noteq> ''epoll'' then Inl (usage_error (''unknown --io mode: '' @ io_mode))
      else if io_mode = ''epoll'' then
        Inr (io_mode, if so_workers_explicit opts then ''warning: --workers is ignored with --io epoll (single-threaded event loop)'' @ newline else '''')
      else if so_workers opts < 1 then Inl (usage_error ''--workers must be >= 1'')
      else Inr (io_mode, ''''))"

section \<open>Starting\<close>

record 'a machine =
  m_hash :: "bytes \<Rightarrow> u64"
  m_files :: "string \<Rightarrow> string option"
  m_wal :: "string \<Rightarrow> bytes"
  m_state :: "string \<Rightarrow> bytes option"
  m_os :: "sys list"
  m_raft_os :: "sys list"
  m_clock :: "int list"
  m_rng :: "nat list"
  m_getaddrinfo :: "'a resolver"
  m_getsockname :: "int \<Rightarrow> sockaddr option"
  m_kernel :: Kernel

definition load_cluster :: "'a machine \<Rightarrow> server_options \<Rightarrow> string \<Rightarrow> run + ClusterConfig option" where
  "load_cluster m opts err =
     (if so_cluster_config opts = '''' then Inr None
      else if so_node_id opts = 0 then Inl (Exits EXIT_FAILURE [] (err @ ''--node-id is required when --cluster-config is set'' @ newline))
      else case LoadClusterConfig (so_cluster_config opts) (m_files m (so_cluster_config opts)) of
        None \<Rightarrow> Inl Throws
      | Some (Inl status) \<Rightarrow> Inl (Exits EXIT_FAILURE [] (err @ ''failed to load cluster config: '' @ message status @ newline))
      | Some (Inr config) \<Rightarrow>
          if cfg_local_node_id config \<noteq> so_node_id opts then
            Inl (Exits EXIT_FAILURE [] (err @ ''--node-id '' @ to_string (unat (so_node_id opts)) @ '' does not match node_id ''
              @ to_string (unat (cfg_local_node_id config)) @ '' in '' @ so_cluster_config opts @ newline))
          else Inr (Some config))"

definition open_backend :: "'a machine \<Rightarrow> server_options \<Rightarrow> ClusterConfig option \<Rightarrow> string \<Rightarrow> run + Backend" where
  "open_backend m opts cluster err =
     (let data_dir = nc_data_dir (so_config opts) in
      case DurableStorage_Open (m_hash m) data_dir (m_wal m data_dir) (m_os m) of
        Inl status \<Rightarrow> Inl (Exits EXIT_FAILURE [] (err @ ''failed to recover WAL in '' @ data_dir @ '': '' @ message status @ newline))
      | Inr storage \<Rightarrow>
          (case cluster of
             None \<Rightarrow> Inr (Local storage)
           | Some config \<Rightarrow>
               let node = RaftNode_new (so_node_id opts) config storage (m_state m data_dir) (m_raft_os m) (m_clock m) (m_rng m) in
               if \<not> ok (rn_open_status node) then Inl (Exits EXIT_FAILURE [] (err @ ''failed to start raft: '' @ message (rn_open_status node) @ newline))
               else Inr (Replicated (snd (RaftNode_Start node)))))"

datatype server =
    RunBlocking "RequestHandler BlockingServer"
  | RunThreadPool "RequestHandler ThreadPoolServer"
  | RunEpoll "RequestHandler EpollServer"

definition make_server :: "'a machine \<Rightarrow> server_options \<Rightarrow> string \<Rightarrow> Backend \<Rightarrow> server" where
  "make_server m opts io_mode backend =
     (let handler = RequestHandler_new backend (so_allow_stale_reads opts);
          host = nc_host (so_config opts);
          port = nc_port (so_config opts) in
      if io_mode = ''blocking'' then RunBlocking (BlockingServer_new (m_getaddrinfo m) (m_getsockname m) host port handler (m_kernel m))
      else if io_mode = ''threadpool'' then
        RunThreadPool (ThreadPoolServer_new (m_getaddrinfo m) (m_getsockname m) host port handler (nat (so_workers opts)) (m_kernel m))
      else RunEpoll (EpollServer_new (m_getaddrinfo m) (m_getsockname m) host port handler (m_kernel m)))"

definition server_start :: "'a machine \<Rightarrow> string list \<Rightarrow> run + server" where
  "server_start m args =
     (case server_args args server_options_default of
        Inl run \<Rightarrow> Inl run
      | Inr opts \<Rightarrow>
          (case choose_io_mode opts of
             Inl run \<Rightarrow> Inl run
           | Inr (io_mode, err) \<Rightarrow>
               (case load_cluster m opts err of
                  Inl run \<Rightarrow> Inl run
                | Inr cluster \<Rightarrow>
                    (case open_backend m opts cluster err of
                       Inl run \<Rightarrow> Inl run
                     | Inr backend \<Rightarrow> Inr (make_server m opts io_mode backend)))))"

text \<open>The end of \<^verbatim>\<open>main\<close>, with the status that \<^verbatim>\<open>Run\<close> returned; the node, if there is one, is stopped first.\<close>

definition server_exit :: "Status \<Rightarrow> run" where
  "server_exit status = (if \<not> ok status then Exits EXIT_FAILURE [] (''server error: '' @ message status @ newline) else Exits EXIT_SUCCESS [] '''')"

definition HandleShutdownSignal :: "'a resolver \<Rightarrow> Backend \<Rightarrow> server \<Rightarrow> Backend \<times> server" where
  "HandleShutdownSignal getaddrinfo backend server =
     (let backend = (case backend of Local st \<Rightarrow> Local st | Replicated node \<Rightarrow> Replicated (RaftNode_Stop node)) in
      (backend, case server of
         RunBlocking s \<Rightarrow> RunBlocking (BlockingServer_Stop getaddrinfo s)
       | RunThreadPool s \<Rightarrow> RunThreadPool (ThreadPoolServer_Stop getaddrinfo s)
       | RunEpoll s \<Rightarrow> RunEpoll (EpollServer_Stop s)))"

section \<open>What a started server is\<close>

fun server_handler_of :: "server \<Rightarrow> RequestHandler" where
  "server_handler_of (RunBlocking s) = bs_handler s"
| "server_handler_of (RunThreadPool s) = ts_handler s"
| "server_handler_of (RunEpoll s) = es_handler s"

lemma BlockingServer_new_handler: "bs_handler (BlockingServer_new getaddrinfo getsockname host port handler k) = handler"
  by (simp add: BlockingServer_new_def Let_def case_prod_unfold split: sum.split)

lemma ThreadPoolServer_new_fields:
  "ts_handler (ThreadPoolServer_new getaddrinfo getsockname host port handler n k) = handler"
  "ts_pool (ThreadPoolServer_new getaddrinfo getsockname host port handler n k) = ThreadPool_new n"
  by (simp_all add: ThreadPoolServer_new_def Let_def case_prod_unfold split: sum.split)

lemma EpollServer_new_handler: "es_handler (EpollServer_new getaddrinfo getsockname host port handler k) = handler"
  by (simp add: EpollServer_new_def Let_def epoll_set_def case_prod_unfold split: sum.split option.split)

text \<open>A cluster node agrees with its configuration; a single node has recovered its log.\<close>

definition backend_ready :: "Backend \<Rightarrow> bool" where
  "backend_ready backend \<longleftrightarrow>
     (case backend of
        Local storage \<Rightarrow> ok (ds_recovery_status storage)
      | Replicated node \<Rightarrow> ok (rn_open_status node) \<and> rn_started node \<and> ConfigValid (rn_config node)
          \<and> rn_local_node_id node \<noteq> 0 \<and> rn_local_node_id node = cfg_local_node_id (rn_config node))"

lemma LoadPersistedState_frame:
  "rn_local_node_id (snd (LoadPersistedState node)) = rn_local_node_id node" "rn_config (snd (LoadPersistedState node)) = rn_config node"
  by (simp_all add: LoadPersistedState_def Let_def split: option.split prod.split)

lemma RaftNode_new_frame:
  "rn_local_node_id (RaftNode_new i config st file os clock rng) = i" "rn_config (RaftNode_new i config st file os clock rng) = config"
  using LoadPersistedState_frame
  by (auto simp: RaftNode_new_def Let_def case_prod_unfold split: prod.split)

lemma load_cluster_valid:
  assumes "load_cluster m opts err = Inr (Some config)"
  shows "ConfigValid config \<and> so_node_id opts \<noteq> 0 \<and> so_node_id opts = cfg_local_node_id config"
  using assms by (auto simp: load_cluster_def dest: LoadClusterConfig_valid split: if_splits option.splits sum.splits)

lemma open_backend_ready:
  assumes "load_cluster m opts err = Inr cluster" "open_backend m opts cluster err = Inr backend"
  shows "backend_ready backend"
proof (cases cluster)
  case None
  then show ?thesis using assms(2) by (auto simp: open_backend_def backend_ready_def DurableStorage_Open_def Let_def split: if_splits sum.splits)
next
  case (Some config)
  obtain st where "backend = Replicated (snd (RaftNode_Start (RaftNode_new (so_node_id opts) config st (m_state m (nc_data_dir (so_config opts))) (m_raft_os m) (m_clock m) (m_rng m))))"
    "ok (rn_open_status (RaftNode_new (so_node_id opts) config st (m_state m (nc_data_dir (so_config opts))) (m_raft_os m) (m_clock m) (m_rng m)))"
    using assms(2) Some by (auto simp: open_backend_def Let_def split: if_splits sum.splits)
  then show ?thesis using load_cluster_valid assms(1) Some by (auto simp: backend_ready_def RaftNode_Start_def RaftNode_new_frame)
qed

section \<open>Properties\<close>

text \<open>
  C38. The server program starts only what it has checked. Whatever the arguments, the files and the system calls, when it gets to the point of running a server, a
  thread-pool server has at least one worker; a single node has recovered its log; and a cluster node has loaded its state, was started, has a
  valid configuration, and its id is not zero and is the id the configuration gives it.
\<close>

theorem server_starts_checked:
  assumes "server_start m args = Inr server"
  shows "(case server of RunThreadPool s \<Rightarrow> tp_workers (ts_pool s) \<noteq> [] | _ \<Rightarrow> True) \<and> backend_ready (rh_backend (server_handler_of server))"
proof -
  obtain opts io err cluster backend where o: "choose_io_mode opts = Inr (io, err)" "load_cluster m opts err = Inr cluster"
    "open_backend m opts cluster err = Inr backend" and s: "server = make_server m opts io backend"
    using assms by (auto simp: server_start_def split: sum.splits)
  have "rh_backend (server_handler_of server) = backend"
    unfolding s by (simp add: make_server_def Let_def BlockingServer_new_handler ThreadPoolServer_new_fields EpollServer_new_handler RequestHandler_new_def)
  moreover have "0 < so_workers opts" if "io = ''threadpool''" using o(1) that by (auto simp: choose_io_mode_def Let_def split: if_splits)
  ultimately show ?thesis using open_backend_ready [OF o(2,3)] s by (auto simp: make_server_def Let_def ThreadPoolServer_new_fields ThreadPool_new_def)
qed

definition demo_machine :: "unit machine" where
  "demo_machine = \<lparr>m_hash = (\<lambda>_. 0), m_files = (\<lambda>_. None), m_wal = (\<lambda>_. []), m_state = (\<lambda>_. None), m_os = [], m_raft_os = [], m_clock = [], m_rng = [],
     m_getaddrinfo = (\<lambda>_ _ _. Inr [()]), m_getsockname = (\<lambda>_. None), m_kernel = demo_kernel\<rparr>"

theorem server_starts_checked_witness:
  "\<exists>s. server_start demo_machine [''--workers'', ''4''] = Inr (RunThreadPool s) \<and> tp_workers (ts_pool s) \<noteq> [] \<and> backend_ready (rh_backend (ts_handler s))"
proof -
  have four: "stoi ''4'' = Some 4" by code_simp
  obtain st where st: "DurableStorage_Open (\<lambda>_. 0) ''./data'' [] [] = Inr st"
    using storage_clean_reopen [OF storage_clean_new [OF calm_Nil, of 0 "\<lambda>_. 0" "''./data''"] calm_Nil, of "''./data''"]
      storage_cleanD(9) [OF storage_clean_new [OF calm_Nil, of 0 "\<lambda>_. 0" "''./data''"]] by auto
  obtain s where s: "server_start demo_machine [''--workers'', ''4''] = Inr (RunThreadPool s)"
    by (simp add: server_start_def four choose_io_mode_def load_cluster_def open_backend_def make_server_def server_options_default_def NodeConfig_default_def Let_def demo_machine_def st)
  then show ?thesis using server_starts_checked [OF s] by simp
qed

text \<open>
  Port numbers are reduced modulo 65536. The program accepts any \<^verbatim>\<open>int\<close> for \<^verbatim>\<open>--port\<close>: 70000 is served on port 4464 and 65536 on an ephemeral port, a negative
  number is accepted too, and a word that is no number ends the program with an uncaught exception.
\<close>

lemma server_port_truncated:
  "server_args [''--port'', ''70000''] server_options_default = Inr (server_options_default\<lparr>so_config := NodeConfig_default\<lparr>nc_port := 4464\<rparr>\<rparr>)
   \<and> server_args [''--port'', ''65536''] server_options_default = Inr (server_options_default\<lparr>so_config := NodeConfig_default\<lparr>nc_port := 0\<rparr>\<rparr>)
   \<and> server_args [''--port'', ''-1''] server_options_default = Inr (server_options_default\<lparr>so_config := NodeConfig_default\<lparr>nc_port := 65535\<rparr>\<rparr>)
   \<and> server_args [''--port'', ''http''] server_options_default = Inl Throws"
proof -
  have n: "stoi ''70000'' = Some 70000" "stoi ''65536'' = Some 65536" "stoi ''-1'' = Some (- 1)" "stoi ''http'' = None" by code_simp+
  show ?thesis by (simp add: n server_options_default_def NodeConfig_default_def)
qed

end
