(* ===== verification/Double_Rounding.thy ===== *)
theory Double_Rounding
  imports Main
begin

text \<open>
  The arithmetic of doubles as far as \<^verbatim>\<open>Percentile\<close> of \<^verbatim>\<open>tools/nkv-bench/main.cpp\<close> uses it: rounding to 53 significant bits (to nearest, ties to even, which is the
  default), and the integer part of the product of an integer with the double nearest to a fraction.
\<close>

section \<open>Rounding\<close>

text \<open>
  Rounding an integer to the nearest one with 53 significant bits, ties to even: the conversion of an integer to a double, and, on significands, the product
  of two doubles.
\<close>

fun bit_length :: "nat \<Rightarrow> nat" where
  "bit_length n = (if n = 0 then 0 else Suc (bit_length (n div 2)))"

declare bit_length.simps [simp del]

definition round53 :: "nat \<Rightarrow> nat" where
  "round53 n =
     (let unit = 2 ^ (bit_length n - 53); q = n div unit; r = 2 * (n mod unit) in
      (if r > unit \<or> r = unit \<and> odd q then q + 1 else q) * unit)"

section \<open>Bounds\<close>

lemma bit_length_bounds: "0 < n \<Longrightarrow> 2 ^ (bit_length n - 1) \<le> n" "n < 2 ^ bit_length n"
proof (induction n rule: bit_length.induct)
  case (1 n)
  {
    case 1
    then show ?case
    proof (cases "n div 2 = 0")
      case False
      then obtain m where "bit_length (n div 2) = Suc m" by (subst (asm) bit_length.simps) auto
      then show ?thesis using "1.IH"(1) "1.prems" False by (simp add: bit_length.simps [of n])
    qed (use "1.prems" in \<open>simp add: bit_length.simps [of n] bit_length.simps [of 0]\<close>)
  next
    case 2
    show ?case
    proof (cases "n = 0")
      case False
      then have "n < 2 * 2 ^ bit_length (n div 2)" using "1.IH"(2) by linarith
      then show ?thesis using False by (simp add: bit_length.simps [of n])
    qed (simp add: bit_length.simps [of 0])
  }
qed

text \<open>Rounding to a multiple of a unit.\<close>

definition round_to :: "nat \<Rightarrow> nat \<Rightarrow> nat" where
  "round_to unit n = (let q = n div unit; r = 2 * (n mod unit) in (if r > unit \<or> r = unit \<and> odd q then q + 1 else q) * unit)"

lemma round53_round_to: "round53 n = round_to (2 ^ (bit_length n - 53)) n"
  by (simp add: round53_def round_to_def Let_def)

lemma round_to_ge: "0 < u \<Longrightarrow> m * u \<le> n \<Longrightarrow> m * u \<le> round_to u n"
proof -
  assume "0 < u" "m * u \<le> n"
  then have "m \<le> n div u" by (simp add: less_eq_div_iff_mult_less_eq)
  then show "m * u \<le> round_to u n" unfolding round_to_def Let_def by (intro mult_le_mono1) simp
qed

lemma round53_exact:
  assumes "n < 2 ^ 53"
  shows "round53 n = n"
proof -
  have "bit_length n \<le> 53"
  proof (rule ccontr)
    assume "\<not> bit_length n \<le> 53"
    then have "(2 :: nat) ^ 53 \<le> 2 ^ (bit_length n - 1)" by (intro power_increasing) simp_all
    then show False using bit_length_bounds(1) [of n] assms by (cases "n = 0") (simp_all add: bit_length.simps [of 0])
  qed
  then show ?thesis by (simp add: round53_def)
qed

section \<open>The product with a rounded fraction\<close>

lemma round_to_up:
  assumes "n < m * u" "2 * (m * u - n) < u"
  shows "round_to u n = m * u"
proof -
  obtain k where k: "m = Suc k" using assms(1) by (cases m) auto
  define r where "r = u - (m * u - n)"
  have r: "n = k * u + r" "r < u" "u < 2 * r" using assms k by (auto simp: r_def)
  then have "n div u = k" "n mod u = r" by simp_all
  then show ?thesis using r(3) by (simp add: round_to_def k)
qed

lemma round_to_error: "round_to u n \<le> n + u"
proof -
  have "round_to u n \<le> (n div u + 1) * u" unfolding round_to_def Let_def by (intro mult_le_mono1) simp
  moreover have "(n div u + 1) * u = n div u * u + u" by simp
  ultimately show ?thesis using div_mult_mod_eq [of n u] by linarith
qed

lemma unit_bounds: "n < 2 ^ 53 * 2 ^ (bit_length n - 53)" "n < 2 ^ 99 \<Longrightarrow> bit_length n - 53 \<le> 46"
proof -
  have "(2 :: nat) ^ bit_length n \<le> 2 ^ (53 + (bit_length n - 53))" by (intro power_increasing) simp_all
  then show "n < 2 ^ 53 * 2 ^ (bit_length n - 53)" using bit_length_bounds(2) [of n] unfolding power_add by linarith
  assume n: "n < 2 ^ 99"
  show "bit_length n - 53 \<le> 46"
  proof (rule ccontr)
    assume l: "\<not> bit_length n - 53 \<le> 46"
    have "(2 :: nat) ^ 99 \<le> 2 ^ (bit_length n - 1)" by (rule power_increasing) (use l in simp_all)
    moreover have "0 < n" using l by (cases n) (simp_all add: bit_length.simps [of 0])
    ultimately show False using bit_length_bounds(1) [of n] n by linarith
  qed
qed

text \<open>
  \<open>p\<close> is a double below one, as a multiple of \<open>1 / 2 ^ 53\<close>, that is at most \<open>8 / (D * 2 ^ 53)\<close> below the fraction \<open>N / D\<close>. When the exact product of the fraction with
  an integer is an integer, the product with \<open>p\<close> is a little less, and rounding makes up for it. The two lemmas bound the rounded product from both sides; \<open>B\<close> is \<open>2 ^ 53\<close>.
\<close>

lemma rounded_fraction_above:
  fixes B :: nat
  assumes xm: "D * x + e * m = N * m * B" and u: "D * u < B" and D: "0 < D"
  shows "round_to u x < (N * m div D + 1) * B"
proof -
  let ?k = "N * m div D"
  have k: "N * m + 1 \<le> D * (?k + 1)" using D dividend_less_times_div [of D "N * m"] by simp
  have "D * round_to u x \<le> D * (x + u)" by (rule mult_le_mono2 [OF round_to_error])
  also have "\<dots> < D * x + B" using u by (simp add: algebra_simps)
  also have "\<dots> \<le> (N * m + 1) * B" using xm by simp
  also have "\<dots> \<le> D * (?k + 1) * B" using k by (rule mult_le_mono1)
  finally show ?thesis by (simp only: mult.assoc mult_less_cancel1)
qed

lemma rounded_fraction_below:
  fixes B :: nat
  assumes xm: "D * x + e * m = N * m * B" and e: "e \<le> 8" "e = 0 \<or> 16 < N" and em: "e * m < B" and D: "0 < D"
    and u: "0 < u" "x < B * u" "B = j * u"
  shows "(N * m div D) * B \<le> round_to u x"
proof (cases "(N * m div D) * B \<le> x")
  case True
  then show ?thesis using round_to_ge [OF u(1), of "(N * m div D) * j" x] by (simp add: u(3) mult.assoc)
next
  case False
  define k d where "k = N * m div D" and "d = k * B - x"
  have dx: "k * B = x + d" "0 < d" using False by (simp_all add: d_def k_def)
  have k: "D * k \<le> N * m" by (simp add: k_def)
  have Dx: "D * x + D * d = D * k * B" using arg_cong [OF dx(1), of "\<lambda>y. D * y"] by (simp add: algebra_simps)
  have "0 < D * d" using D dx(2) by simp
  then have "N * m * B < (D * k + 1) * B" using xm Dx em by simp
  then have "N * m < D * k + 1" by (simp only: mult_less_cancel2)
  then have km: "N * m = D * k" using k by simp
  then have de: "D * d = e * m" using xm Dx by simp
  then have N: "16 < N" "0 < m" using \<open>0 < D * d\<close> e(2) by auto
  have "D * x < D * (B * u)" using u(2) D by (simp only: mult_less_cancel1)
  then have "N * m * B < D * (B * u) + B" using xm em by linarith
  also have "\<dots> = (D * u + 1) * B" by (simp add: algebra_simps)
  finally have "N * m < D * u + 1" by (simp only: mult_less_cancel2)
  then have "N * m \<le> D * u" by simp
  moreover have "2 * (D * d) < N * m" using de mult_le_mono1 [OF e(1), of m] mult_strict_right_mono [OF N] by linarith
  ultimately have "D * (2 * d) < D * u" by linarith
  then have "2 * d < u" by (simp only: mult_less_cancel1)
  then have "round_to u x = k * j * u" using dx by (intro round_to_up) (simp_all add: u(3) mult.assoc)
  then show ?thesis by (simp add: u(3) k_def mult.assoc)
qed

lemma rounded_fraction:
  assumes p: "D * p + e = N * 2 ^ 53" and e: "e \<le> 8" "e = 0 \<or> 16 < N" and D: "N \<le> D" "0 < D" "D \<le> 100" and m: "m < 2 ^ 46"
  shows "round53 (p * m) div 2 ^ 53 = N * m div D"
proof -
  define u where "u = (2 :: nat) ^ (bit_length (p * m) - 53)"
  have "D * p \<le> D * 2 ^ 53" using p mult_le_mono1 [OF D(1), of "2 ^ 53"] by linarith
  then have "p \<le> 2 ^ 53" using D(2) by simp
  then have "p * m \<le> 2 ^ 53 * m" by simp
  also have "\<dots> < 2 ^ 53 * 2 ^ 46" using m by simp
  finally have s: "bit_length (p * m) - 53 \<le> 46" by (intro unit_bounds) simp
  have u46: "u \<le> 2 ^ 46" unfolding u_def using s by (rule power_increasing) simp
  have u: "0 < u" "p * m < 2 ^ 53 * u" "2 ^ 53 = 2 ^ (53 - (bit_length (p * m) - 53)) * u"
    using unit_bounds(1) [of "p * m"] s by (simp_all add: u_def flip: power_add)
  have xm: "D * (p * m) + e * m = N * m * 2 ^ 53" using arg_cong [OF p, of "\<lambda>y. y * m"] by (simp add: algebra_simps)
  have em: "e * m < 2 ^ 53" using mult_le_mono1 [OF e(1), of m] m le_less_trans [of "e * m" "8 * m" "2 ^ 53"] by simp
  have Du: "D * u < 2 ^ 53" using mult_le_mono [OF D(3) u46] le_less_trans [of "D * u" "100 * 2 ^ 46" "2 ^ 53"] by simp
  have "(N * m div D) * 2 ^ 53 \<le> round53 (p * m)" "round53 (p * m) < (N * m div D + 1) * 2 ^ 53"
    unfolding round53_round_to u_def [symmetric]
    by (rule rounded_fraction_below [OF xm e em D(2) u], rule rounded_fraction_above [OF xm Du D(2)])
  then show ?thesis by (intro div_nat_eqI) (simp_all add: algebra_simps)
qed

end
