(* ===== verification/Bench_Program.thy ===== *)
theory Bench_Program
  imports Complex_Main Client_Program Double_Rounding
begin

text \<open>
  \<^verbatim>\<open>tools/nkv-bench/main.cpp\<close>: the load generator. A connection is the outcomes of its writes, the reads that are due, and the peer at the other end: a
  function from its state and the bytes it gets to the outcomes of the reads that follow. The readings of the clock are an argument, in nanoseconds, as are the
  peer and the kernel each worker sees; \<open>None\<close> is a run that waits forever. A double between 0 and 1 is its significand: \<open>n\<close> stands for \<open>n / 2 ^ 53\<close>.
\<close>

section \<open>Options\<close>

record BenchOptions =
  bo_host :: string
  bo_port :: u16
  bo_duration_sec :: int
  bo_clients :: int
  bo_ratio :: int
  bo_bench_mode :: bool
  bo_label :: string

definition BenchOptions_default :: BenchOptions where
  "BenchOptions_default = \<lparr>bo_host = ''127.0.0.1'', bo_port = 7400, bo_duration_sec = 60, bo_clients = 1, bo_ratio = 80,
     bo_bench_mode = False, bo_label = ''''\<rparr>"

definition bench_PrintUsage :: string where
  "bench_PrintUsage = text_lines
     [''nkv-bench - NeuralKV load generator'', '''', ''Usage: nkv-bench [options]'', '''', ''Options:'',
      ''  --host <addr>       Target host (default: 127.0.0.1)'',
      ''  --port <n>          Target port (default: 7400)'',
      ''  --duration <sec>    Run duration in seconds (default: 60)'',
      ''  --clients <n>       Concurrent client connections (default: 1)'',
      ''  --ratio <pct>       Percent of ops that are GET (default: 80)'',
      ''  --bench             Run the load benchmark against a live server'',
      ''  --label <text>      Tag printed with the results (default: none)'',
      ''  --help              Show this message'']"

fun bench_NextArg :: "string list \<Rightarrow> string \<Rightarrow> run + string \<times> string list" where
  "bench_NextArg [] flag_name = Inl (Exits EXIT_FAILURE [] (''missing value for '' @ flag_name @ newline))"
| "bench_NextArg (v # args) flag_name = Inr (v, args)"

text \<open>A flag with a number: \<^verbatim>\<open>std::stoi\<close> of the next argument.\<close>

definition bench_number :: "string list \<Rightarrow> string \<Rightarrow> run + int \<times> string list" where
  "bench_number args flag_name =
     (case bench_NextArg args flag_name of
        Inl run \<Rightarrow> Inl run
      | Inr (v, args) \<Rightarrow> (case stoi v of None \<Rightarrow> Inl Throws | Some n \<Rightarrow> Inr (n, args)))"

lemma bench_NextArg_shorter: "bench_NextArg args flag_name = Inr (v, args') \<Longrightarrow> length args' < length args"
  by (cases args) auto

lemma bench_number_shorter: "bench_number args flag_name = Inr (n, args') \<Longrightarrow> length args' < length args"
  by (cases args) (auto simp: bench_number_def split: option.splits)

function bench_parse_args :: "string list \<Rightarrow> BenchOptions \<Rightarrow> run + BenchOptions" where
  "bench_parse_args [] opts = Inr opts"
| "bench_parse_args (arg # args) opts =
     (if arg = ''--help'' \<or> arg = ''-h'' then Inl (Exits EXIT_SUCCESS (text_bytes bench_PrintUsage) '''')
      else if arg = ''--host'' then
        (case bench_NextArg args arg of Inl run \<Rightarrow> Inl run | Inr (v, args) \<Rightarrow> bench_parse_args args (opts\<lparr>bo_host := v\<rparr>))
      else if arg = ''--port'' then
        (case bench_number args arg of Inl run \<Rightarrow> Inl run | Inr (n, args) \<Rightarrow> bench_parse_args args (opts\<lparr>bo_port := of_int n\<rparr>))
      else if arg = ''--duration'' then
        (case bench_number args arg of Inl run \<Rightarrow> Inl run | Inr (n, args) \<Rightarrow> bench_parse_args args (opts\<lparr>bo_duration_sec := n\<rparr>))
      else if arg = ''--clients'' then
        (case bench_number args arg of Inl run \<Rightarrow> Inl run | Inr (n, args) \<Rightarrow> bench_parse_args args (opts\<lparr>bo_clients := n\<rparr>))
      else if arg = ''--ratio'' then
        (case bench_number args arg of Inl run \<Rightarrow> Inl run | Inr (n, args) \<Rightarrow> bench_parse_args args (opts\<lparr>bo_ratio := n\<rparr>))
      else if arg = ''--bench'' then bench_parse_args args (opts\<lparr>bo_bench_mode := True\<rparr>)
      else if arg = ''--label'' then
        (case bench_NextArg args arg of Inl run \<Rightarrow> Inl run | Inr (v, args) \<Rightarrow> bench_parse_args args (opts\<lparr>bo_label := v\<rparr>))
      else Inl (Exits EXIT_FAILURE (text_bytes bench_PrintUsage) (''unknown argument: '' @ arg @ newline)))"
  by pat_completeness auto
termination
  by (relation "measure (length \<circ> fst)") (auto dest: bench_NextArg_shorter bench_number_shorter)

section \<open>One request\<close>

type_synonym 'p peer = "'p \<Rightarrow> bytes \<Rightarrow> recv list \<times> 'p"

record 'p bench_conn =
  bc_writes :: "sys list"
  bc_reads :: "recv list"
  bc_peer :: 'p

text \<open>The loop of \<^verbatim>\<open>SendRequestSync\<close>; a complete frame of another type leaves \<^verbatim>\<open>out_resp\<close> as it was.\<close>

fun SendRequestSync_loop :: "recv list \<Rightarrow> bytes \<Rightarrow> ClientResponse \<Rightarrow> (bool \<times> ClientResponse \<times> recv list) option" where
  "SendRequestSync_loop reads buffer out_resp =
     (case TryParseFrame buffer of
        (ParseResult_kComplete, buffer, frame) \<Rightarrow>
          Some (True, (case frame of Some (Frame_ClientResponse resp) \<Rightarrow> resp | _ \<Rightarrow> out_resp), reads)
      | (ParseResult_kError, buffer, frame) \<Rightarrow> Some (False, out_resp, reads)
      | (ParseResult_kNeedMore, buffer, frame) \<Rightarrow>
          (case reads of
             [] \<Rightarrow> None
           | RecvBytes chunk # reads \<Rightarrow>
               if chunk = [] then Some (False, out_resp, reads) else SendRequestSync_loop reads (buffer @ chunk) out_resp
           | _ # reads \<Rightarrow> Some (False, out_resp, reads)))"

declare SendRequestSync_loop.simps [simp del]

definition SendRequestSync :: "'p peer \<Rightarrow> 'p bench_conn \<Rightarrow> ClientRequest \<Rightarrow> ClientResponse \<Rightarrow> (bool \<times> ClientResponse \<times> 'p bench_conn) option" where
  "SendRequestSync peer c req out_resp =
     (case EncodeClientRequest req of
        Inl status \<Rightarrow> Some (False, out_resp, c)
      | Inr encoded \<Rightarrow>
          (case WriteFull \<lparr>wf_data = [], wf_os = bc_writes c\<rparr> encoded of
             (status, sock) \<Rightarrow>
               (case peer (bc_peer c) (wf_data sock) of
                  (reads, p) \<Rightarrow>
                    let c = \<lparr>bc_writes = wf_os sock, bc_reads = bc_reads c @ reads, bc_peer = p\<rparr> in
                    if \<not> ok status then Some (False, out_resp, c)
                    else map_option (\<lambda>(done, out_resp, reads). (done, out_resp, c\<lparr>bc_reads := reads\<rparr>))
                           (SendRequestSync_loop (bc_reads c) [] out_resp))))"

section \<open>One client\<close>

definition kKeySpace :: nat where "kKeySpace = 1000"

definition bench_value :: bytes where "bench_value = text_bytes (replicate 256 (CHR ''v''))"

definition key_prefix :: "nat \<Rightarrow> bytes" where
  "key_prefix thread_id = text_bytes (''bench:'' @ to_string thread_id @ '':'')"

definition populate_request :: "nat \<Rightarrow> nat \<Rightarrow> u64 \<Rightarrow> ClientRequest" where
  "populate_request thread_id i request_id =
     \<lparr>creq_request_id = request_id, creq_opcode = Opcode_kSet, creq_key = key_prefix thread_id @ text_bytes (to_string i), creq_value = bench_value\<rparr>"

text \<open>The loop that fills the key space, from the keys that are left and the next request id.\<close>

fun populate :: "'p peer \<Rightarrow> nat \<Rightarrow> nat list \<Rightarrow> u64 \<Rightarrow> 'p bench_conn \<Rightarrow> (bool \<times> u64 \<times> 'p bench_conn) option" where
  "populate peer thread_id [] request_id c = Some (True, request_id, c)"
| "populate peer thread_id (i # is) request_id c =
     (case SendRequestSync peer c (populate_request thread_id i request_id) ClientResponse_default of
        None \<Rightarrow> None
      | Some (done, resp, c) \<Rightarrow> if \<not> done then Some (False, request_id + 1, c) else populate peer thread_id is (request_id + 1) c)"

definition timed_request :: "BenchOptions \<Rightarrow> nat \<Rightarrow> u64 \<Rightarrow> u64 \<Rightarrow> ClientRequest" where
  "timed_request opts thread_id seq request_id =
     (let idx = unat (seq mod of_nat kKeySpace);
          do_get = int (unat (seq mod 100)) < bo_ratio opts;
          req = \<lparr>creq_request_id = request_id, creq_opcode = Opcode_kGet, creq_key = key_prefix thread_id @ text_bytes (to_string idx), creq_value = []\<rparr> in
      if do_get then req else req\<lparr>creq_opcode := Opcode_kSet, creq_value := bench_value\<rparr>)"

text \<open>\<^verbatim>\<open>duration_cast\<close> to microseconds rounds towards zero.\<close>

definition microseconds :: "int \<Rightarrow> int" where "microseconds d = sgn d * (\<bar>d\<bar> div 1000)"

fun timed_loop :: "'p peer \<Rightarrow> BenchOptions \<Rightarrow> nat \<Rightarrow> int \<Rightarrow> int list \<Rightarrow> u64 \<Rightarrow> u64 \<Rightarrow> 'p bench_conn \<Rightarrow> u64 list \<Rightarrow> (u64 list \<times> 'p bench_conn) option" where
  "timed_loop peer opts thread_id deadline (now # clock) seq request_id c latencies_us =
     (if now < deadline then
        (case clock of
           op_start # op_end # clock \<Rightarrow>
             (case SendRequestSync peer c (timed_request opts thread_id seq request_id) ClientResponse_default of
                None \<Rightarrow> None
              | Some (done, resp, c) \<Rightarrow>
                  if \<not> done then Some (latencies_us, c)
                  else timed_loop peer opts thread_id deadline clock (seq + 1) (request_id + 1) c
                         (latencies_us @ [of_int (microseconds (op_end - op_start))]))
         | _ \<Rightarrow> None)
      else Some (latencies_us, c))"
| "timed_loop peer opts thread_id deadline [] seq request_id c latencies_us = None"

declare timed_loop.simps [simp del]

text \<open>The worker: the latencies it recorded, what it wrote to the standard error, its connection at the end, and the kernel.\<close>

definition RunClientWorker ::
  "'a resolver \<Rightarrow> 'p peer \<Rightarrow> 'p bench_conn \<Rightarrow> BenchOptions \<Rightarrow> nat \<Rightarrow> int \<Rightarrow> int list \<Rightarrow> Kernel \<Rightarrow> (u64 list \<times> string \<times> 'p bench_conn \<times> Kernel) option" where
  "RunClientWorker getaddrinfo peer c opts thread_id deadline clock k =
     (case TcpConnect getaddrinfo (bo_host opts) (bo_port opts) k of
        (Inl status, k) \<Rightarrow> Some ([], ''client '' @ to_string thread_id @ '': connect failed: '' @ message status @ newline, c, k)
      | (Inr conn, k) \<Rightarrow>
          let fd = Fd_new conn in
          (case populate peer thread_id [0..<kKeySpace] 1 c of
             None \<Rightarrow> None
           | Some (done, request_id, c) \<Rightarrow>
               if \<not> done then Some ([], '''', c, Fd_destroy fd k)
               else map_option (\<lambda>(latencies_us, c). (latencies_us, '''', c, Fd_destroy fd k))
                      (timed_loop peer opts thread_id deadline clock 0 request_id c [])))"

section \<open>The results\<close>

definition percentile_index :: "nat \<Rightarrow> nat \<Rightarrow> nat" where
  "percentile_index n p = round53 (p * round53 (n - 1)) div 2 ^ 53"

definition Percentile :: "u64 list \<Rightarrow> nat \<Rightarrow> u64" where
  "Percentile sorted_latencies p =
     (if sorted_latencies = [] then 0 else sorted_latencies ! percentile_index (length sorted_latencies) p)"

text \<open>The doubles nearest to 0.50, 0.95 and 0.99.\<close>

definition p50 :: nat where "p50 = 4503599627370496"

definition p95 :: nat where "p95 = 8556839292003942"

definition p99 :: nat where "p99 = 8917127262193582"

text \<open>What a run prints: the numbers, and the rate as an exact quotient of operations and seconds, which the program rounds to a double.\<close>

record bench_report =
  br_label :: string
  br_total_ops :: nat
  br_ops_per_sec :: rat
  br_p50 :: u64
  br_p95 :: u64
  br_p99 :: u64

text \<open>What a worker sees: its connection, the kernel when it connects, and its readings of the clock.\<close>

record 'p worker_env =
  we_conn :: "'p bench_conn"
  we_kernel :: Kernel
  we_clock :: "int list"

fun join_workers :: "(nat \<Rightarrow> (u64 list \<times> string \<times> 'p bench_conn \<times> Kernel) option) \<Rightarrow> nat list \<Rightarrow> u64 list option" where
  "join_workers run [] = Some []"
| "join_workers run (t # ts) =
     (case run t of
        None \<Rightarrow> None
      | Some (latencies_us, _) \<Rightarrow> map_option (\<lambda>all. latencies_us @ all) (join_workers run ts))"

definition RunBenchmark ::
  "'a resolver \<Rightarrow> 'p peer \<Rightarrow> (nat \<Rightarrow> 'p worker_env) \<Rightarrow> int \<Rightarrow> int \<Rightarrow> BenchOptions \<Rightarrow> (run + bench_report) option" where
  "RunBenchmark getaddrinfo peer envs start finish opts =
     (if bo_clients opts < 0 then Some (Inl Throws)
      else
        let deadline = start + bo_duration_sec opts * 10 ^ 9;
            run = (\<lambda>t. RunClientWorker getaddrinfo peer (we_conn (envs t)) opts t deadline (we_clock (envs t)) (we_kernel (envs t))) in
        (case join_workers run [0..<nat (bo_clients opts)] of
           None \<Rightarrow> None
         | Some all \<Rightarrow>
             let all_latencies = sort all;
                 elapsed = finish - start in
             Some (Inr \<lparr>br_label = bo_label opts, br_total_ops = length all_latencies,
               br_ops_per_sec = (if elapsed > 0 then of_nat (length all_latencies) * 10 ^ 9 / of_int elapsed else 0),
               br_p50 = Percentile all_latencies p50, br_p95 = Percentile all_latencies p95, br_p99 = Percentile all_latencies p99\<rparr>)))"

text \<open>The whole program: how it exits, or the report of a benchmark and success.\<close>

definition bench_main ::
  "'a resolver \<Rightarrow> 'p peer \<Rightarrow> (nat \<Rightarrow> 'p worker_env) \<Rightarrow> int \<Rightarrow> int \<Rightarrow> string list \<Rightarrow> (run + bench_report) option" where
  "bench_main getaddrinfo peer envs start finish args =
     (case bench_parse_args args BenchOptions_default of
        Inl run \<Rightarrow> Some (Inl run)
      | Inr opts \<Rightarrow>
          if bo_bench_mode opts then RunBenchmark getaddrinfo peer envs start finish opts
          else Some (Inl (Exits EXIT_SUCCESS (text_bytes (text_lines
            [''nkv-bench configuration:'', ''  host:     '' @ bo_host opts, ''  port:     '' @ to_string (unat (bo_port opts)),
             ''  duration: '' @ int_string (bo_duration_sec opts) @ ''s'', ''  clients:  '' @ int_string (bo_clients opts),
             ''pass --bench to run the load benchmark against a live server''])) '''')))"
section \<open>Peers that answer every request\<close>

text \<open>Reads that deliver data, never interrupted: \<^verbatim>\<open>SendRequestSync\<close> gives up on anything else.\<close>

definition arrived :: "recv list \<Rightarrow> bool" where
  "arrived reads \<longleftrightarrow> list_all (\<lambda>e. case e of RecvBytes chunk \<Rightarrow> chunk \<noteq> [] | _ \<Rightarrow> False) reads"

fun answer_of :: "ClientResponse \<Rightarrow> Frame \<Rightarrow> ClientResponse" where
  "answer_of out_resp (Frame_ClientResponse resp) = resp"
| "answer_of out_resp _ = out_resp"

lemma SendRequestSync_loop_rounds:
  "TryParseFrame buffer = (ParseResult_kComplete, rest, Some f) \<Longrightarrow> SendRequestSync_loop reads buffer r = Some (True, answer_of r f, reads)"
  "TryParseFrame buffer = (ParseResult_kNeedMore, buffer, None) \<Longrightarrow> chunk \<noteq> [] \<Longrightarrow>
     SendRequestSync_loop (RecvBytes chunk # reads) buffer r = SendRequestSync_loop reads (buffer @ chunk) r"
  by (subst SendRequestSync_loop.simps, simp split: Frame.split)+

lemma SendRequestSync_loop_receives:
  assumes "EncodeFrame f = Inr out" "arrived reads" "buffer @ recv_bytes reads = out"
  shows "SendRequestSync_loop reads buffer r = Some (True, answer_of r f, [])"
  using assms(2,3)
proof (induction reads arbitrary: buffer)
  case Nil
  then show ?case using TryParseFrame_encoded [OF assms(1), of "[]"] by (intro SendRequestSync_loop_rounds(1)) simp
next
  case (Cons e reads)
  then obtain chunk where e: "e = RecvBytes chunk" "chunk \<noteq> []" "arrived reads" by (cases e) (auto simp: arrived_def)
  have out: "FrameValid f" "out = FrameBytes (FrameType f) (FramePayload f)" using EncodeFrame_eq [THEN iffD1, OF assms(1)] by blast+
  have "length buffer < length out" "take (length buffer) out = buffer" using Cons.prems(2) e by (auto simp flip: Cons.prems(2))
  then have "TryParseFrame buffer = (ParseResult_kNeedMore, buffer, None)"
    using TryParseFrame_prefix [OF FrameValid_length [OF out(1)], of "length buffer" "FrameType f"] out(2) by metis
  then show ?case using Cons e SendRequestSync_loop_rounds(2) by simp
qed

text \<open>The peer after a sequence of requests.\<close>

definition deliver :: "'p peer \<Rightarrow> ClientRequest list \<Rightarrow> 'p \<Rightarrow> 'p" where
  "deliver peer reqs p = fold (\<lambda>req p. case EncodeClientRequest req of Inl _ \<Rightarrow> p | Inr bs \<Rightarrow> snd (peer p bs)) reqs p"

lemma deliver_simps [simp]:
  "deliver peer [] p = p" "deliver peer (reqs @ reqs') p = deliver peer reqs' (deliver peer reqs p)"
  "EncodeClientRequest req = Inr bs \<Longrightarrow> deliver peer (req # reqs) p = deliver peer reqs (snd (peer p bs))"
  by (simp_all add: deliver_def)

text \<open>The requests of a worker that has time for \<open>n\<close> operations.\<close>

definition populate_requests :: "nat \<Rightarrow> nat list \<Rightarrow> u64 \<Rightarrow> ClientRequest list" where
  "populate_requests thread_id is request_id = map2 (\<lambda>i j. populate_request thread_id i (request_id + of_nat j)) is [0..<length is]"

definition timed_requests :: "BenchOptions \<Rightarrow> nat \<Rightarrow> u64 \<Rightarrow> u64 \<Rightarrow> nat \<Rightarrow> ClientRequest list" where
  "timed_requests opts thread_id seq request_id n = map (\<lambda>j. timed_request opts thread_id (seq + of_nat j) (request_id + of_nat j)) [0..<n]"

definition bench_requests :: "BenchOptions \<Rightarrow> nat \<Rightarrow> nat \<Rightarrow> ClientRequest list" where
  "bench_requests opts thread_id n =
     populate_requests thread_id [0..<kKeySpace] 1 @ timed_requests opts thread_id 0 (of_nat (kKeySpace + 1)) n"

lemma populate_requests_Cons [simp]:
  "populate_requests t (i # is) r = populate_request t i r # populate_requests t is (r + 1)"
proof -
  have "[0..<length (i # is)] = 0 # map Suc [0..<length is]" by (simp only: list.size(4) map_Suc_upt add_0 One_nat_def add_Suc_right upt_conv_Cons zero_less_Suc add_0_right)
  then show ?thesis by (simp add: populate_requests_def zip_map2 add.assoc case_prod_unfold del: upt_Suc)
qed

lemma populate_requests_Nil [simp]: "populate_requests t [] r = []"
  by (simp add: populate_requests_def)

lemma timed_requests_simps [simp]:
  "timed_requests opts t s r 0 = []"
  "timed_requests opts t s r (Suc n) = timed_request opts t s r # timed_requests opts t (s + 1) (r + 1) n"
proof -
  have "[0..<Suc n] = 0 # map Suc [0..<n]" by (simp only: map_Suc_upt upt_conv_Cons zero_less_Suc)
  then show "timed_requests opts t s r (Suc n) = timed_request opts t s r # timed_requests opts t (s + 1) (r + 1) n"
    by (simp add: timed_requests_def add.assoc del: upt_Suc)
qed (simp add: timed_requests_def)

text \<open>All of them can be encoded: the number of a thread is an \<^verbatim>\<open>int\<close>, and so has at most ten digits.\<close>

lemma to_string_length: "n < 10 ^ k \<Longrightarrow> 0 < k \<Longrightarrow> length (to_string n) \<le> k"
proof (induction n arbitrary: k rule: to_string.induct)
  case (1 n)
  show ?case
  proof (cases "n < 10")
    case False
    then have "k \<noteq> 1" "k \<noteq> 0" using "1.prems" by auto
    then obtain k' where k: "k = Suc k'" "0 < k'" by (cases k) auto
    then have "n div 10 < 10 ^ k'" using "1.prems" by (simp add: less_mult_imp_div_less mult.commute)
    then show ?thesis using "1.IH" [OF False, of k'] k False by (simp add: to_string.simps [of n])
  qed (use "1.prems" in \<open>simp add: to_string.simps [of n]\<close>)
qed

definition worker_id :: "nat \<Rightarrow> bool" where "worker_id t \<longleftrightarrow> t < 2 ^ 31"

lemma bench_key_length:
  assumes "worker_id t" "i < kKeySpace"
  shows "length (key_prefix t @ text_bytes (to_string i)) \<le> 20" "key_prefix t \<noteq> []"
  using to_string_length [of t 10] to_string_length [of i 3] assms by (auto simp: key_prefix_def text_bytes_def worker_id_def kKeySpace_def)

lemma bench_value_simps: "length bench_value = 256" "bench_value \<noteq> []"
  by (simp_all add: bench_value_def text_bytes_def)

lemma populate_request_encodes: "worker_id t \<Longrightarrow> i < kKeySpace \<Longrightarrow> \<exists>bs. EncodeClientRequest (populate_request t i r) = Inr bs"
  using bench_key_length [of t i] bench_value_simps
  by (auto simp: populate_request_def EncodeClientRequest_def Let_def kMaxPayloadSize_def)

lemma timed_request_idx: "unat ((s :: u64) mod of_nat kKeySpace) < kKeySpace"
  by (simp add: kKeySpace_def unat_mod)

lemma timed_request_encodes: "worker_id t \<Longrightarrow> \<exists>bs. EncodeClientRequest (timed_request opts t s r) = Inr bs"
  using bench_key_length [OF _ timed_request_idx [of s], of t] bench_value_simps
  by (auto simp: timed_request_def EncodeClientRequest_def Let_def kMaxPayloadSize_def)

text \<open>Readings of the clock that leave time for the operations of a list, each with its start and end.\<close>

definition readings :: "int \<Rightarrow> (int \<times> int \<times> int) list \<Rightarrow> int list \<Rightarrow> bool" where
  "readings deadline ops clock \<longleftrightarrow> list_all (\<lambda>(now, _, _). now < deadline) ops
     \<and> (\<exists>now rest. clock = concat (map (\<lambda>(now, s, e). [now, s, e]) ops) @ now # rest \<and> deadline \<le> now)"

definition latencies :: "(int \<times> int \<times> int) list \<Rightarrow> u64 list" where
  "latencies ops = map (\<lambda>(_, s, e). of_int (microseconds (e - s))) ops"

text \<open>A connection on which nothing is due and no write fails, with a peer that has room for some more requests.\<close>

definition ready :: "(nat \<Rightarrow> 'p \<Rightarrow> bool) \<Rightarrow> nat \<Rightarrow> 'p bench_conn \<Rightarrow> bool" where
  "ready room n c \<longleftrightarrow> room n (bc_peer c) \<and> bc_reads c = [] \<and> no_fail (bc_writes c)"

text \<open>
  The contract of a peer: with room for one more request, it answers a request with one frame of any type, in any pieces. The first argument of the invariant is
  the number of requests there is room for.
\<close>

locale answering_peer =
  fixes peer :: "'p peer" and inv :: "nat \<Rightarrow> 'p \<Rightarrow> bool"
  assumes answers: "inv (Suc n) p \<Longrightarrow> EncodeClientRequest req = Inr bs \<Longrightarrow>
    \<exists>reads p' f out. peer p bs = (reads, p') \<and> inv n p' \<and> EncodeFrame f = Inr out \<and> arrived reads \<and> recv_bytes reads = out"
begin

lemma request_completes:
  assumes "ready inv (Suc n) c" "EncodeClientRequest req = Inr bs"
  obtains resp c' where "SendRequestSync peer c req r = Some (True, resp, c')" "ready inv n c'" "bc_peer c' = snd (peer (bc_peer c) bs)"
proof -
  obtain reads p' f out where a: "peer (bc_peer c) bs = (reads, p')" "inv n p'" "EncodeFrame f = Inr out" "arrived reads" "recv_bytes reads = out"
    using answers [of n "bc_peer c" req bs] assms unfolding ready_def by blast
  obtain st w where w: "WriteFull \<lparr>wf_data = [], wf_os = bc_writes c\<rparr> bs = (st, w)" "ok st" "wf_data w = bs" "no_fail (wf_os w)"
    by (rule WriteFull_no_fail [of "\<lparr>wf_data = [], wf_os = bc_writes c\<rparr>" bs]) (use assms(1) in \<open>simp_all add: ready_def\<close>)
  have loop: "SendRequestSync_loop reads [] r = Some (True, answer_of r f, [])"
    using SendRequestSync_loop_receives [OF a(3,4), of "[]"] a(5) by simp
  have empty: "bc_reads c = []" using assms(1) by (simp add: ready_def)
  show thesis
    by (rule that [of "answer_of r f" "\<lparr>bc_writes = wf_os w, bc_reads = [], bc_peer = p'\<rparr>"])
      (use assms(2) a w loop empty in \<open>simp_all add: SendRequestSync_def ready_def\<close>)
qed

lemma populate_completes:
  assumes "ready inv (length is + n) c" "worker_id t" "\<forall>i \<in> set is. i < kKeySpace"
  obtains c' where "populate peer t is r c = Some (True, r + of_nat (length is), c')" "ready inv n c'"
    "bc_peer c' = deliver peer (populate_requests t is r) (bc_peer c)"
  using assms
proof (induction "is" arbitrary: r c thesis)
  case (Cons i "is")
  obtain bs where bs: "EncodeClientRequest (populate_request t i r) = Inr bs" using populate_request_encodes Cons.prems(3,4) by fastforce
  obtain resp c1 where c1: "SendRequestSync peer c (populate_request t i r) ClientResponse_default = Some (True, resp, c1)"
    "ready inv (length is + n) c1" "bc_peer c1 = snd (peer (bc_peer c) bs)"
    by (rule request_completes [OF _ bs, of "length is + n" c]) (use Cons.prems(2) in simp_all)
  obtain c2 where "populate peer t is (r + 1) c1 = Some (True, r + 1 + of_nat (length is), c2)" "ready inv n c2"
    "bc_peer c2 = deliver peer (populate_requests t is (r + 1)) (bc_peer c1)"
    by (rule Cons.IH [OF _ c1(2) Cons.prems(3)]) (use Cons.prems(4) in simp_all)
  then show ?case using Cons.prems(1) c1 bs by (simp add: add.assoc)
qed simp

lemma timed_loop_completes:
  assumes "ready inv (length ops + n) c" "worker_id t" "readings deadline ops clock"
  obtains c' where "timed_loop peer opts t deadline clock s r c lat = Some (lat @ latencies ops, c')"
    "bc_peer c' = deliver peer (timed_requests opts t s r (length ops)) (bc_peer c)"
  using assms
proof (induction ops arbitrary: clock s r c lat thesis)
  case Nil
  then show ?case by (auto simp: readings_def timed_loop.simps latencies_def)
next
  case (Cons op ops)
  obtain now t0 t1 where op: "op = (now, t0, t1)" by (rule prod_cases3)
  then obtain clock' where clock: "clock = now # t0 # t1 # clock'" "now < deadline" "readings deadline ops clock'"
    using Cons.prems(4) by (auto simp: readings_def)
  obtain bs where bs: "EncodeClientRequest (timed_request opts t s r) = Inr bs" using timed_request_encodes Cons.prems(3) by blast
  obtain resp c1 where c1: "SendRequestSync peer c (timed_request opts t s r) ClientResponse_default = Some (True, resp, c1)"
    "ready inv (length ops + n) c1" "bc_peer c1 = snd (peer (bc_peer c) bs)"
    by (rule request_completes [OF _ bs, of "length ops + n" c]) (use Cons.prems(2) in simp_all)
  obtain c2 where "timed_loop peer opts t deadline clock' (s + 1) (r + 1) c1 (lat @ [of_int (microseconds (t1 - t0))])
      = Some ((lat @ [of_int (microseconds (t1 - t0))]) @ latencies ops, c2)"
    "bc_peer c2 = deliver peer (timed_requests opts t (s + 1) (r + 1) (length ops)) (bc_peer c1)"
    using Cons.IH [OF _ c1(2) Cons.prems(3) clock(3)] by blast
  then show ?case using Cons.prems(1) c1 bs clock op by (simp add: timed_loop.simps latencies_def)
qed

lemma worker_completes:
  assumes "inv (kKeySpace + length ops) p" "no_fail ws" "worker_id t" "readings deadline ops clock"
    and "TcpConnect getaddrinfo (bo_host opts) (bo_port opts) k = (Inr fd, k1)"
  obtains c' where "RunClientWorker getaddrinfo peer \<lparr>bc_writes = ws, bc_reads = [], bc_peer = p\<rparr> opts t deadline clock k
      = Some (latencies ops, '''', c', CloseQuietly fd k1)"
    "bc_peer c' = deliver peer (bench_requests opts t (length ops)) p"
proof -
  let ?c = "\<lparr>bc_writes = ws, bc_reads = [], bc_peer = p\<rparr>"
  have "ready inv (length [0..<kKeySpace] + (length ops + 0)) ?c" using assms(1,2) by (simp add: ready_def)
  then obtain c1 where c1: "populate peer t [0..<kKeySpace] 1 ?c = Some (True, 1 + of_nat (length [0..<kKeySpace]), c1)" "ready inv (length ops + 0) c1"
    "bc_peer c1 = deliver peer (populate_requests t [0..<kKeySpace] 1) p"
    by (rule populate_completes [OF _ assms(3)]) auto
  obtain c2 where c2: "timed_loop peer opts t deadline clock 0 (1 + of_nat kKeySpace) c1 [] = Some ([] @ latencies ops, c2)"
    "bc_peer c2 = deliver peer (timed_requests opts t 0 (1 + of_nat kKeySpace) (length ops)) (bc_peer c1)"
    using timed_loop_completes [OF c1(2) assms(3,4)] by blast
  show thesis by (rule that [of c2]) (use c1 c2 assms(5) in \<open>simp_all add: RunClientWorker_def bench_requests_def del: upt_Suc\<close>)
qed

end

section \<open>Percentiles\<close>

text \<open>The latency of a given rank in percent, on exact numbers.\<close>

definition rank_latency :: "u64 list \<Rightarrow> nat \<Rightarrow> u64" where
  "rank_latency ls q = (if ls = [] then 0 else sort ls ! (q * (length ls - 1) div 100))"

lemma percentile_index_exact:
  assumes "n \<le> 2 ^ 46"
  shows "percentile_index n p50 = 50 * (n - 1) div 100" "percentile_index n p95 = 95 * (n - 1) div 100" "percentile_index n p99 = 99 * (n - 1) div 100"
proof -
  have "n - 1 < 2 ^ 46" using assms by (cases n) simp_all
  moreover from this have "round53 (n - 1) = n - 1" by (intro round53_exact) simp
  ultimately show "percentile_index n p50 = 50 * (n - 1) div 100" "percentile_index n p95 = 95 * (n - 1) div 100" "percentile_index n p99 = 99 * (n - 1) div 100"
    using rounded_fraction [of 100 p50 0 50 "n - 1"]
      rounded_fraction [of 20 p95 8 19 "n - 1"] rounded_fraction [of 100 p99 8 99 "n - 1"] div_mult_mult1 [of 5 "19 * (n - 1)" 20]
    by (simp_all add: percentile_index_def p50_def p95_def p99_def)
qed

lemma Percentile_rank:
  assumes "length ls \<le> 2 ^ 46"
  shows "Percentile (sort ls) p50 = rank_latency ls 50" "Percentile (sort ls) p95 = rank_latency ls 95" "Percentile (sort ls) p99 = rank_latency ls 99"
proof -
  have "sort ls = [] \<longleftrightarrow> ls = []" by (metis length_0_conv length_sort)
  then show "Percentile (sort ls) p50 = rank_latency ls 50" "Percentile (sort ls) p95 = rank_latency ls 95" "Percentile (sort ls) p99 = rank_latency ls 99"
    using percentile_index_exact [OF assms] by (simp_all add: Percentile_def rank_latency_def)
qed

lemma join_workers_all:
  "\<forall>t \<in> set ts. \<exists>rest. run t = Some (lat t, rest) \<Longrightarrow> join_workers run ts = Some (concat (map lat ts))"
  by (induction ts) auto

section \<open>Peers\<close>

text \<open>A server behind an event-driven connection: what arrives is one readable event, and what is queued is sent.\<close>

definition conn_peer :: "'s Handler \<Rightarrow> (Connection \<times> 's) peer" where
  "conn_peer hnd cs bs =
     (case OnReadable hnd [RecvBytes bs] (fst cs) (snd cs) of
        None \<Rightarrow> ([], cs)
      | Some (_, _, conn, s) \<Rightarrow>
          (if write_pending conn then [RecvBytes (conn_write_buffer conn)] else [], conn\<lparr>conn_write_buffer := []\<rparr>, s))"

definition node_room :: "HandlerEnv \<Rightarrow> nat \<Rightarrow> Connection \<times> RequestHandler \<Rightarrow> bool" where
  "node_room env n cs \<longleftrightarrow> fst cs = Connection_new \<and> local_inv env n (snd cs) \<and> values_fit (handler_map env (snd cs))"

lemma EncodeFrame_length: "EncodeFrame f = Inr out \<Longrightarrow> 0 < length out"
  by (auto simp: EncodeFrame_eq)

lemma conn_peer_answers:
  assumes "local_inv env (Suc n) h" "values_fit (handler_map env h)" "EncodeClientRequest req = Inr bs"
  obtains h' out where "Handle env h req = Some (fst (map_server (handler_map env h) req), h')"
    "EncodeClientResponse (fst (map_server (handler_map env h) req)) = Inr out"
    "conn_peer (server_handler env) (Connection_new, h) bs = ([RecvBytes out], Connection_new, h')" "out \<noteq> []"
    "local_inv env n h'" "values_fit (handler_map env h')" "handler_map env h' = snd (map_server (handler_map env h) req)"
proof -
  have enc: "EncodeFrames [Frame_ClientRequest req] = Some bs" using assms(3) by simp
  then have fits: "RequestFits req" using EncodeFrames_RequestFits [of "[req]" bs] by simp
  have "EncodeFrame (Frame_ClientRequest req) = Inr bs" using assms(3) by simp
  then have valid: "FrameValid (Frame_ClientRequest req)" and bs: "0 < length bs" using EncodeFrame_length EncodeFrame_eq by blast+
  obtain h' where h': "Handle env h req = Some (fst (map_server (handler_map env h) req), h')" "local_inv env n h'"
    "handler_map env h' = snd (map_server (handler_map env h) req)"
    using Handle_local [OF assms(1) fits] by blast
  note resp = map_server_fits [OF valid assms(2)]
  obtain out where "EncodeFrame (Frame_ClientResponse (fst (map_server (handler_map env h) req))) = Inr out" "0 < length out"
    using resp(1) EncodeFrame_length EncodeFrame_eq by blast
  then have out: "EncodeClientResponse (fst (map_server (handler_map env h) req)) = Inr out" "out \<noteq> []" by simp_all
  have "answer_all (server_handler env) h [Frame_ClientRequest req] = Some (out, h')" using h' out by (simp add: server_handler_def)
  from ProcessFrames_pipeline [OF enc this partial_frame_Nil, of "feed bs Connection_new"]
  have "ProcessFrames (server_handler env) (feed bs Connection_new) h = Some (Connection_new\<lparr>conn_write_buffer := out\<rparr>, h')"
    by (simp add: Connection_new_def feed_def)
  then have "conn_peer (server_handler env) (Connection_new, h) bs = ([RecvBytes out], Connection_new, h')"
    using OnReadable_drained [of "[RecvBytes bs]" "server_handler env" Connection_new h] bs out(2)
    by (simp add: conn_peer_def drained_def write_pending_def Connection_new_def)
  then show thesis using that h' out resp(2) by metis
qed

interpretation node_peer: answering_peer "conn_peer (server_handler env)" "node_room env" for env
proof
  fix n p req bs
  assume room: "node_room env (Suc n) p" and bs: "EncodeClientRequest req = Inr bs"
  then obtain h where p: "p = (Connection_new, h)" "local_inv env (Suc n) h" "values_fit (handler_map env h)" by (cases p) (auto simp: node_room_def)
  obtain h' out where "EncodeClientResponse (fst (map_server (handler_map env h) req)) = Inr out"
    "conn_peer (server_handler env) (Connection_new, h) bs = ([RecvBytes out], Connection_new, h')" "out \<noteq> []"
    "local_inv env n h'" "values_fit (handler_map env h')"
    using conn_peer_answers [OF p(2,3) bs] by blast
  then show "\<exists>reads p' f out. conn_peer (server_handler env) p bs = (reads, p') \<and> node_room env n p' \<and> EncodeFrame f = Inr out \<and> arrived reads \<and> recv_bytes reads = out"
    unfolding p(1)
    by (intro exI [of _ "[RecvBytes out]"] exI [of _ "(Connection_new, h')"] exI [of _ "Frame_ClientResponse (fst (map_server (handler_map env h) req))"] exI [of _ out])
      (simp add: node_room_def arrived_def)
qed

text \<open>What the requests leave in the node.\<close>

lemma deliver_node:
  assumes "node_room env (length reqs + n) (Connection_new, h)" "EncodeFrames (map Frame_ClientRequest reqs) = Some bs"
  shows "\<exists>h'. deliver (conn_peer (server_handler env)) reqs (Connection_new, h) = (Connection_new, h')
    \<and> serve_all (Handle env) h reqs = Some (fst (map_serve_all (handler_map env h) reqs), h')"
  using assms
proof (induction reqs arbitrary: h bs)
  case (Cons req reqs)
  obtain b bs' where b: "EncodeClientRequest req = Inr b" "EncodeFrames (map Frame_ClientRequest reqs) = Some bs'"
    using Cons.prems(2) by (auto split: sum.splits option.splits)
  obtain h' out where h': "Handle env h req = Some (fst (map_server (handler_map env h) req), h')"
    "conn_peer (server_handler env) (Connection_new, h) b = ([RecvBytes out], Connection_new, h')"
    "local_inv env (length reqs + n) h'" "values_fit (handler_map env h')" "handler_map env h' = snd (map_server (handler_map env h) req)"
    by (rule conn_peer_answers [of env "length reqs + n" h req b]) (use Cons.prems(1) b(1) in \<open>simp_all add: node_room_def\<close>)
  have "node_room env (length reqs + n) (Connection_new, h')" using h' by (simp add: node_room_def)
  from Cons.IH [OF this b(2)] h' b(1) show ?case by (auto simp: case_prod_unfold)
qed simp

text \<open>A peer that answers every request with the same frame.\<close>

definition constant_peer :: "Frame \<Rightarrow> nat peer" where
  "constant_peer f p bs = (case EncodeFrame f of Inl _ \<Rightarrow> [] | Inr out \<Rightarrow> [RecvBytes out], Suc p)"

interpretation stubborn: answering_peer "constant_peer f" "\<lambda>n p. FrameValid f" for f
proof
  fix n p req bs
  assume "FrameValid f"
  then obtain out where "EncodeFrame f = Inr out" "0 < length out" using EncodeFrame_length EncodeFrame_eq by blast
  then show "\<exists>reads p' g out. constant_peer f p bs = (reads, p') \<and> FrameValid f \<and> EncodeFrame g = Inr out \<and> arrived reads \<and> recv_bytes reads = out"
    using \<open>FrameValid f\<close> by (intro exI [of _ "[RecvBytes out]"] exI [of _ "Suc p"] exI [of _ f] exI [of _ out]) (simp add: constant_peer_def arrived_def)
qed
section \<open>The load\<close>

lemma map_serve_all_append:
  "map_serve_all m (reqs @ reqs') =
     (case map_serve_all m reqs of (resps, m) \<Rightarrow> case map_serve_all m reqs' of (resps', m) \<Rightarrow> (resps @ resps', m))"
  by (induction reqs arbitrary: m) (simp_all split: prod.split)

text \<open>A response that shows that the key was there.\<close>

definition hit :: "ClientRequest \<Rightarrow> ClientResponse \<Rightarrow> bool" where
  "hit req resp \<longleftrightarrow> cresp_status resp = ResponseStatus_kOk \<and> cresp_value resp = (if creq_opcode req = Opcode_kGet then bench_value else [])"

definition filled :: "nat \<Rightarrow> nat set \<Rightarrow> (bytes \<rightharpoonup> bytes) \<Rightarrow> bool" where
  "filled t D m \<longleftrightarrow> (\<forall>i \<in> D. m (key_prefix t @ text_bytes (to_string i)) = Some bench_value)"

lemma key_prefix_nonempty [simp]: "key_prefix t \<noteq> []"
  by (simp add: key_prefix_def text_bytes_def)

lemma populate_hits:
  "filled t D m \<Longrightarrow> list_all2 hit (populate_requests t is r) (fst (map_serve_all m (populate_requests t is r)))
     \<and> filled t (D \<union> set is) (snd (map_serve_all m (populate_requests t is r)))"
proof (induction "is" arbitrary: D m r)
  case (Cons i "is")
  let ?m = "m(key_prefix t @ text_bytes (to_string i) \<mapsto> bench_value)"
  have one: "map_server m (populate_request t i r)
      = (\<lparr>cresp_request_id = r, cresp_status = ResponseStatus_kOk, cresp_value = [], cresp_leader_hint = 0\<rparr>, ?m)"
    by (simp add: map_server_def populate_request_def Let_def bench_value_simps)
  have "filled t (insert i D) ?m" using Cons.prems by (simp add: filled_def)
  moreover have "hit (populate_request t i r) (fst (map_server m (populate_request t i r)))" unfolding one by (simp add: hit_def populate_request_def)
  ultimately show ?case using Cons.IH [of "insert i D" ?m "r + 1"] by (simp add: one case_prod_unfold del: fun_upd_apply)
qed simp

lemma timed_hits:
  "filled t {..<kKeySpace} m \<Longrightarrow> list_all2 hit (timed_requests opts t s r n) (fst (map_serve_all m (timed_requests opts t s r n)))"
proof (induction n arbitrary: m s r)
  case (Suc n)
  let ?req = "timed_request opts t s r"
  have key: "m (key_prefix t @ text_bytes (to_string (unat (s mod of_nat kKeySpace)))) = Some bench_value"
    using Suc.prems timed_request_idx by (simp add: filled_def)
  then have "hit ?req (fst (map_server m ?req))" "filled t {..<kKeySpace} (snd (map_server m ?req))"
    using Suc.prems by (auto simp: map_server_def timed_request_def Let_def hit_def bench_value_simps filled_def)
  then show ?case using Suc.IH by (simp add: case_prod_unfold)
qed simp

lemma bench_requests_hit: "list_all2 hit (bench_requests opts t n) (fst (map_serve_all m (bench_requests opts t n)))"
  using populate_hits [of t "{}" m "[0..<kKeySpace]" 1] timed_hits [of t]
  by (auto simp: bench_requests_def map_serve_all_append case_prod_unfold filled_def atLeast0LessThan intro!: list_all2_appendI)

lemma encodes_all: "\<forall>req \<in> set reqs. \<exists>bs. EncodeClientRequest req = Inr bs \<Longrightarrow> \<exists>bs. EncodeFrames (map Frame_ClientRequest reqs) = Some bs"
  by (induction reqs) auto

lemma bench_requests_encode: "worker_id t \<Longrightarrow> \<exists>bs. EncodeFrames (map Frame_ClientRequest (bench_requests opts t n)) = Some bs"
  using populate_request_encodes timed_request_encodes
  by (intro encodes_all) (auto simp: bench_requests_def populate_requests_def timed_requests_def dest!: set_zip_leftD)

lemma bench_requests_length: "length (bench_requests opts t n) = kKeySpace + n"
  by (simp add: bench_requests_def populate_requests_def timed_requests_def)

text \<open>The mix: any hundred consecutive operations have as many reads as the ratio says.\<close>

lemma window_count: "r \<le> 100 \<Longrightarrow> length (filter (\<lambda>j. (s + j) mod 100 < r) [0..<100]) = (r :: nat)"
proof (induction s)
  case 0
  then have "[0..<100] = [0..<r] @ [r..<100]" using upt_add_eq_append [of 0 r "100 - r"] by simp
  moreover have "filter (\<lambda>j. j mod 100 < r) [0..<r] = [0..<r]" "filter (\<lambda>j. j mod 100 < r) [r..<100] = []"
    using 0 by (simp_all add: filter_id_conv filter_empty_conv)
  ultimately show ?case by simp
next
  case (Suc s)
  let ?P = "\<lambda>j. (s + j) mod 100 < r"
  have up: "[0..<100] = 0 # map Suc [0..<99]" using upt_conv_Cons [of 0 100] by (simp add: map_Suc_upt)
  have down: "[0..<100] = [0..<99] @ [99 :: nat]" using upt_Suc_append [of 0 99] by simp
  have "length (filter (\<lambda>j. (Suc s + j) mod 100 < r) [0..<100]) = length (filter ?P (map Suc [0..<99])) + (if ?P 100 then 1 else 0)"
    unfolding down by (simp add: filter_map comp_def)
  also have "\<dots> = length (filter ?P [0..<100])" unfolding up by simp
  finally show ?case using Suc by simp
qed

lemma timed_requests_ratio:
  assumes "0 \<le> bo_ratio opts" "bo_ratio opts \<le> 100" "unat s + 100 \<le> 2 ^ 64"
  shows "length (filter (\<lambda>req. creq_opcode req = Opcode_kGet) (timed_requests opts t s r 100)) = nat (bo_ratio opts)"
proof -
  have "unat ((s + of_nat j) mod 100) = (unat s + j) mod 100" if "j < 100" for j
    using that assms(3) by (simp add: unat_mod unat_word_ariths unat_of_nat)
  then have "creq_opcode (timed_request opts t (s + of_nat j) q) = Opcode_kGet \<longleftrightarrow> (unat s + j) mod 100 < nat (bo_ratio opts)" if "j < 100" for j q
    using that assms(1) by (simp add: timed_request_def Let_def nat_less_iff zless_nat_eq_int_zless flip: of_nat_less_iff)
  then have "filter ((\<lambda>req. creq_opcode req = Opcode_kGet) \<circ> (\<lambda>j. timed_request opts t (s + of_nat j) (r + of_nat j))) [0..<100]
      = filter (\<lambda>j. (unat s + j) mod 100 < nat (bo_ratio opts)) [0..<100]"
    by (intro filter_cong) auto
  then show ?thesis using window_count [of "nat (bo_ratio opts)" "unat s"] assms(2) by (simp add: timed_requests_def filter_map)
qed
text \<open>A worker closes what it opened, however it ends.\<close>

lemma RunClientWorker_table:
  "case RunClientWorker getaddrinfo peer c opts t deadline clock k of None \<Rightarrow> True | Some (_, _, _, k') \<Rightarrow> same_table k k'"
proof (cases "TcpConnect getaddrinfo (bo_host opts) (bo_port opts) k")
  case (Pair r k1)
  show ?thesis
  proof (cases r)
    case (Inl st)
    then have "same_table k k1" using Pair dialer.failed by blast
    then show ?thesis using Pair Inl by (simp add: RunClientWorker_def)
  next
    case (Inr fd)
    then have "same_table k (CloseQuietly fd k1)" using Pair dialer.closed_again by blast
    then show ?thesis using Pair Inr by (auto simp: RunClientWorker_def Let_def split: option.split)
  qed
qed

section \<open>Properties\<close>

text \<open>
  C16. The load generator measures what it says. A worker connected to a node without Raft with an empty directory fills its keys, then completes every operation it has time
  for, and records the latencies of these and of no others. The node sees exactly the requests of the mix, with consecutive request ids, and
  answers each with OK, and every GET with the value of its key: no read of the timed loop misses. The connection is closed at the end.
\<close>

theorem bench_reads_hit:
  assumes "calm os" "kKeySpace + length ops < 2 ^ 64" "no_fail ws" "worker_id t" "readings deadline ops clock"
    and "TcpConnect getaddrinfo (bo_host opts) (bo_port opts) k = (Inr fd, k1)"
  shows "\<exists>c resps h. RunClientWorker getaddrinfo (conn_peer (server_handler env))
        \<lparr>bc_writes = ws, bc_reads = [], bc_peer = (Connection_new, RequestHandler_new (Local (DurableStorage_new (env_hash env) dir [] os)) b)\<rparr>
        opts t deadline clock k = Some (latencies ops, '''', c, CloseQuietly fd k1)
    \<and> bc_peer c = (Connection_new, h)
    \<and> serve_all (Handle env) (RequestHandler_new (Local (DurableStorage_new (env_hash env) dir [] os)) b) (bench_requests opts t (length ops)) = Some (resps, h)
    \<and> list_all2 hit (bench_requests opts t (length ops)) resps"
proof -
  let ?h = "RequestHandler_new (Local (DurableStorage_new (env_hash env) dir [] os)) b"
  have room: "node_room env (kKeySpace + length ops) (Connection_new, ?h)"
    using new_node_inv [OF assms(1,2), of env dir b] by (simp add: node_room_def values_fit_def)
  obtain bs where bs: "EncodeFrames (map Frame_ClientRequest (bench_requests opts t (length ops))) = Some bs"
    using bench_requests_encode [OF assms(4)] by blast
  obtain h where h: "deliver (conn_peer (server_handler env)) (bench_requests opts t (length ops)) (Connection_new, ?h) = (Connection_new, h)"
    "serve_all (Handle env) ?h (bench_requests opts t (length ops)) = Some (fst (map_serve_all (handler_map env ?h) (bench_requests opts t (length ops))), h)"
    using deliver_node [OF _ bs, of env 0 ?h] room by (auto simp: bench_requests_length)
  show ?thesis
    by (rule node_peer.worker_completes [OF room assms(3-6)]) (use h bench_requests_hit in auto)
qed

theorem bench_reads_hit_witness:
  "\<exists>c resps h. RunClientWorker (\<lambda>_ _ _. Inr [()]) (conn_peer (server_handler demo_env))
        \<lparr>bc_writes = [], bc_reads = [], bc_peer = (Connection_new, RequestHandler_new (Local (DurableStorage_new (\<lambda>_. 0) ''d'' [] [])) False)\<rparr>
        BenchOptions_default 0 10 [5, 6000, 8500, 11] demo_kernel = Some ([2], '''', c, demo_kernel)
    \<and> bc_peer c = (Connection_new, h)
    \<and> serve_all (Handle demo_env) (RequestHandler_new (Local (DurableStorage_new (\<lambda>_. 0) ''d'' [] [])) False) (bench_requests BenchOptions_default 0 1) = Some (resps, h)
    \<and> list_all2 hit (bench_requests BenchOptions_default 0 1) resps"
proof -
  have r: "readings 10 [(5, 6000, 8500)] [5, 6000, 8500, 11]" by (simp add: readings_def)
  have l: "latencies [(5, 6000, 8500)] = [2]" by (simp add: latencies_def microseconds_def)
  have hash: "env_hash demo_env = (\<lambda>_. 0)" by (simp add: demo_env_def)
  show ?thesis
    using bench_reads_hit [OF calm_Nil _ _ _ r, of "[]" 0 "\<lambda>_ _ _. Inr [()]" BenchOptions_default demo_kernel 3 "demo_kernel\<lparr>k_open := [3, 0, 1, 2]\<rparr>" demo_env "''d''" False]
    unfolding l hash by (simp add: demo_connects worker_id_def kKeySpace_def)
qed

text \<open>
  The load generator counts refusals as operations. Against a peer that answers every request with one and the same well-formed frame, be it an error, a redirection to another
  leader or no client response at all, a worker records a latency for every operation it has time for, and nothing in its result tells
  such a run from a successful one.
\<close>

lemma bench_counts_any_answer:
  assumes "FrameValid f" "no_fail ws" "worker_id t" "readings deadline ops clock"
    and "TcpConnect getaddrinfo (bo_host opts) (bo_port opts) k = (Inr fd, k1)"
  shows "\<exists>c. RunClientWorker getaddrinfo (constant_peer f) \<lparr>bc_writes = ws, bc_reads = [], bc_peer = 0\<rparr> opts t deadline clock k
    = Some (latencies ops, '''', c, CloseQuietly fd k1)"
  by (rule stubborn.worker_completes [OF assms]) blast

lemma bench_counts_any_answer_example:
  "\<exists>c. RunClientWorker (\<lambda>_ _ _. Inr [()]) (constant_peer demo_redirect) \<lparr>bc_writes = [], bc_reads = [], bc_peer = 0\<rparr> BenchOptions_default 0 10
     [5, 6000, 8500, 8, 9000, 12000, 11] demo_kernel = Some ([2, 3], '''', c, demo_kernel)"
proof -
  have v: "FrameValid demo_redirect" by (simp add: demo_redirect_def)
  have r: "readings 10 [(5, 6000, 8500), (8, 9000, 12000)] [5, 6000, 8500, 8, 9000, 12000, 11]" by (simp add: readings_def)
  have l: "latencies [(5, 6000, 8500), (8, 9000, 12000)] = [2, 3]" by (simp add: latencies_def microseconds_def)
  show ?thesis
    using bench_counts_any_answer [OF v _ _ r, of "[]" 0 "\<lambda>_ _ _. Inr [()]" BenchOptions_default demo_kernel 3 "demo_kernel\<lparr>k_open := [3, 0, 1, 2]\<rparr>"]
    unfolding l by (simp add: demo_connects worker_id_def)
qed

text \<open>
  C39. What a benchmark reports. If every client returns, the report counts all their operations, gives the rate over the elapsed time, and its three percentiles are the latencies at the
  ranks 50, 95 and 99 percent of the sorted latencies of all clients: at position \<open>q * (n - 1) div 100\<close> of \<open>n\<close>, and 0 if there are none. The product of doubles in
  \<^verbatim>\<open>Percentile\<close> rounds to nearest, ties to even; up to \<open>2 ^ 46\<close> latencies it never picks a neighbour, although 0.95 and 0.99 are not doubles.
\<close>

theorem benchmark_reports_ranks:
  assumes "0 \<le> bo_clients opts"
    and "\<forall>t < nat (bo_clients opts). \<exists>rest. RunClientWorker getaddrinfo peer (we_conn (envs t)) opts t (start + bo_duration_sec opts * 10 ^ 9)
           (we_clock (envs t)) (we_kernel (envs t)) = Some (lat t, rest)"
    and "all = concat (map lat [0..<nat (bo_clients opts)])" "length all \<le> 2 ^ 46"
  shows "RunBenchmark getaddrinfo peer envs start finish opts =
    Some (Inr \<lparr>br_label = bo_label opts, br_total_ops = length all,
      br_ops_per_sec = (if start < finish then of_nat (length all) * 10 ^ 9 / of_int (finish - start) else 0),
      br_p50 = rank_latency all 50, br_p95 = rank_latency all 95, br_p99 = rank_latency all 99\<rparr>)"
proof -
  have "join_workers (\<lambda>t. RunClientWorker getaddrinfo peer (we_conn (envs t)) opts t (start + bo_duration_sec opts * 10 ^ 9) (we_clock (envs t)) (we_kernel (envs t)))
      [0..<nat (bo_clients opts)] = Some all"
    unfolding assms(3) by (rule join_workers_all) (use assms(2) in simp)
  then show ?thesis using assms(1) Percentile_rank [OF assms(4)] by (simp add: RunBenchmark_def Let_def)
qed

theorem benchmark_reports_ranks_witness:
  "RunBenchmark (\<lambda>_ _ _. Inr [()]) (constant_peer demo_redirect)
     (\<lambda>_. \<lparr>we_conn = \<lparr>bc_writes = [], bc_reads = [], bc_peer = 0\<rparr>, we_kernel = demo_kernel,
            we_clock = [5, 6000, 10500, 11000, 12000, 14500, 15000, 16000, 19500, 60000000000]\<rparr>) 0 60000000000 BenchOptions_default
   = Some (Inr \<lparr>br_label = '''', br_total_ops = 3, br_ops_per_sec = 1 / 20, br_p50 = 3, br_p95 = 3, br_p99 = 3\<rparr>)"
proof -
  let ?ops = "[(5, 6000, 10500), (11000, 12000, 14500), (15000, 16000, 19500)] :: (int \<times> int \<times> int) list"
  let ?clock = "[5, 6000, 10500, 11000, 12000, 14500, 15000, 16000, 19500, 60000000000] :: int list"
  let ?conn = "\<lparr>bc_writes = [], bc_reads = [], bc_peer = 0\<rparr> :: nat bench_conn"
  have v: "FrameValid demo_redirect" by (simp add: demo_redirect_def)
  have r: "readings 60000000000 ?ops ?clock" by (simp add: readings_def)
  have l: "latencies ?ops = [4, 2, 3]" by (simp add: latencies_def microseconds_def)
  have "\<exists>rest. RunClientWorker (\<lambda>_ _ _. Inr [()]) (constant_peer demo_redirect) ?conn BenchOptions_default 0 60000000000 ?clock demo_kernel = Some ([4, 2, 3], rest)"
    using bench_counts_any_answer [OF v _ _ r, of "[]" 0 "\<lambda>_ _ _. Inr [()]" BenchOptions_default demo_kernel 3 "demo_kernel\<lparr>k_open := [3, 0, 1, 2]\<rparr>"]
    unfolding l by (auto simp: demo_connects worker_id_def)
  then show ?thesis
    using benchmark_reports_ranks [of BenchOptions_default "\<lambda>_ _ _. Inr [()]" "constant_peer demo_redirect" "\<lambda>_. \<lparr>we_conn = ?conn, we_kernel = demo_kernel, we_clock = ?clock\<rparr>"
        0 "\<lambda>_. [4, 2, 3]" "[4, 2, 3]" 60000000000]
    by (simp add: BenchOptions_default_def rank_latency_def)
qed

end
