(* ===== verification/Fault_Injection.thy ===== *)
theory Fault_Injection
  imports Complex_Main Cluster_Transport
begin

text \<open>
  \<^verbatim>\<open>testing/fault_injection.h\<close>: the transport of the fault tests, which drops or delays calls, and the controller that cuts the link between two nodes. The transport inherits from
  \<^verbatim>\<open>ClusterTransport\<close> and overrides \<^verbatim>\<open>SendRpc\<close>. Doubles are rational numbers, the random number of a call is an argument, and a call also answers how many milliseconds it slept. The
  controller holds pointers to transports: addresses in a store.
\<close>

section \<open>The transport\<close>

record FaultInjectingTransport = ClusterTransport +
  fi_dropped_peers :: "u32 set"
  fi_delay_ms :: "u32 \<rightharpoonup> int"
  fi_drop_rate :: "u32 \<rightharpoonup> rat"

definition set_drop_outbound_to :: "u32 \<Rightarrow> bool \<Rightarrow> FaultInjectingTransport \<Rightarrow> FaultInjectingTransport" where
  "set_drop_outbound_to peer_id drp t =
     (if drp then t\<lparr>fi_dropped_peers := insert peer_id (fi_dropped_peers t)\<rparr>
      else t\<lparr>fi_dropped_peers := fi_dropped_peers t - {peer_id}\<rparr>)"

definition set_delay_ms :: "u32 \<Rightarrow> int \<Rightarrow> FaultInjectingTransport \<Rightarrow> FaultInjectingTransport" where
  "set_delay_ms peer_id ms t =
     (if ms \<le> 0 then t\<lparr>fi_delay_ms := (fi_delay_ms t)(peer_id := None)\<rparr>
      else t\<lparr>fi_delay_ms := (fi_delay_ms t)(peer_id \<mapsto> ms)\<rparr>)"

definition set_drop_rate :: "u32 \<Rightarrow> rat \<Rightarrow> FaultInjectingTransport \<Rightarrow> FaultInjectingTransport" where
  "set_drop_rate peer_id rate t =
     (if rate \<le> 0 then t\<lparr>fi_drop_rate := (fi_drop_rate t)(peer_id := None)\<rparr>
      else t\<lparr>fi_drop_rate := (fi_drop_rate t)(peer_id \<mapsto> if rate > 1 then 1 else rate)\<rparr>)"

definition transport_clear_faults :: "FaultInjectingTransport \<Rightarrow> FaultInjectingTransport" where
  "transport_clear_faults t = t\<lparr>fi_dropped_peers := {}, fi_delay_ms := Map.empty, fi_drop_rate := Map.empty\<rparr>"

definition FaultInjectingTransport_SendRpc ::
  "'a resolver \<Rightarrow> rat \<Rightarrow> sys list \<Rightarrow> (bytes \<Rightarrow> recv list) \<Rightarrow> FaultInjectingTransport \<Rightarrow> PeerInfo \<Rightarrow> ClusterRequest \<Rightarrow> Kernel \<Rightarrow>
    (int \<times> ClusterResponse Result \<times> Kernel) option" where
  "FaultInjectingTransport_SendRpc getaddrinfo draw wos reads t peer req k =
     (if peer_node_id peer \<in> fi_dropped_peers t then
        Some (0, Inl (Status_Error ErrorCode_kIOError ''fault injection: outbound RPC dropped''), k)
      else if (case fi_drop_rate t (peer_node_id peer) of None \<Rightarrow> False | Some rate \<Rightarrow> draw < rate) then
        Some (0, Inl (Status_Error ErrorCode_kIOError ''fault injection: outbound RPC dropped (rate)''), k)
      else
        let delay_ms = (case fi_delay_ms t (peer_node_id peer) of None \<Rightarrow> 0 | Some ms \<Rightarrow> ms);
            slept = (if delay_ms > 0 then delay_ms else 0) in
        map_option (\<lambda>(r, k). (slept, r, k)) (SendRpc getaddrinfo wos reads peer req k))"

section \<open>The controller\<close>

type_synonym transport_store = "nat \<Rightarrow> FaultInjectingTransport"

record FaultInjectionController =
  fc_transports :: "u32 \<rightharpoonup> nat"

definition Register :: "u32 \<Rightarrow> nat \<Rightarrow> FaultInjectionController \<Rightarrow> FaultInjectionController" where
  "Register node_id p fc = fc\<lparr>fc_transports := (fc_transports fc)(node_id \<mapsto> p)\<rparr>"

definition Find :: "FaultInjectionController \<Rightarrow> u32 \<Rightarrow> nat option" where
  "Find fc node_id = fc_transports fc node_id"

definition partition_nodes :: "FaultInjectionController \<Rightarrow> u32 \<Rightarrow> u32 \<Rightarrow> bool \<Rightarrow> transport_store \<Rightarrow> transport_store" where
  "partition_nodes fc a b enabled st =
     (let st = (case Find fc a of None \<Rightarrow> st | Some p \<Rightarrow> st(p := set_drop_outbound_to b enabled (st p))) in
      case Find fc b of None \<Rightarrow> st | Some p \<Rightarrow> st(p := set_drop_outbound_to a enabled (st p)))"

definition controller_clear_faults :: "FaultInjectionController \<Rightarrow> transport_store \<Rightarrow> transport_store" where
  "controller_clear_faults fc st = (\<lambda>p. if p \<in> ran (fc_transports fc) then transport_clear_faults (st p) else st p)"

section \<open>What a fault does\<close>

text \<open>The override is a transport: a dropped call touches nothing, and any other leaves the descriptor table as the base class does.\<close>

lemma faulty_keeps_table:
  "FaultInjectingTransport_SendRpc getaddrinfo draw wos reads t peer req k = Some (slept, r, k') \<Longrightarrow> same_table k k'"
  using tcp_transport.keeps_table [where getaddrinfo = getaddrinfo and e = "(wos, reads)" and peer = peer and req = req and k = k]
  by (auto simp: FaultInjectingTransport_SendRpc_def Let_def split: if_splits)

interpretation faulty_transport: rpc_transport
  "\<lambda>(draw, wos, reads) peer req k. map_option snd (FaultInjectingTransport_SendRpc getaddrinfo draw wos reads t peer req k)" for getaddrinfo t
  by unfold_locales (auto split: prod.splits dest: faulty_keeps_table)

text \<open>With no fault set for a peer, the override is the transport.\<close>

lemma no_faults_transparent:
  assumes "peer_node_id peer \<notin> fi_dropped_peers t" "fi_drop_rate t (peer_node_id peer) = None" "fi_delay_ms t (peer_node_id peer) = None"
  shows "FaultInjectingTransport_SendRpc getaddrinfo draw wos reads t peer req k = map_option (\<lambda>(r, k). (0, r, k)) (SendRpc getaddrinfo wos reads peer req k)"
  using assms by (simp add: FaultInjectingTransport_SendRpc_def)

lemma cleared_transparent:
  "FaultInjectingTransport_SendRpc getaddrinfo draw wos reads (transport_clear_faults t) peer req k
     = map_option (\<lambda>(r, k). (0, r, k)) (SendRpc getaddrinfo wos reads peer req k)"
  by (rule no_faults_transparent) (simp_all add: transport_clear_faults_def)

text \<open>A rate of at least one drops every call, as the random number is below one; a rate of at most zero drops none.\<close>

lemma drop_rate_extremes:
  assumes "0 \<le> draw" "draw < 1"
  shows "1 \<le> rate \<Longrightarrow> \<exists>msg. FaultInjectingTransport_SendRpc getaddrinfo draw wos reads (set_drop_rate (peer_node_id peer) rate t) peer req k
      = Some (0, Inl (Status_Error ErrorCode_kIOError msg), k)"
    and "rate \<le> 0 \<Longrightarrow> fi_drop_rate (set_drop_rate (peer_node_id peer) rate t) (peer_node_id peer) = None"
  using assms by (auto simp: set_drop_rate_def FaultInjectingTransport_SendRpc_def)

text \<open>
  A partition drops every call between the two nodes, in both directions, leaves every other call of either as it was, and healing it gives back the transports, if no call between the
  two was dropped before.
\<close>

definition rpc_of :: "FaultInjectionController \<Rightarrow> transport_store \<Rightarrow> u32 \<Rightarrow> FaultInjectingTransport" where
  "rpc_of fc st node_id = st (the (Find fc node_id))"

lemma set_drop_outbound_to_simps [simp]:
  "fi_dropped_peers (set_drop_outbound_to b e t) = (if e then insert b (fi_dropped_peers t) else fi_dropped_peers t - {b})"
  "fi_delay_ms (set_drop_outbound_to b e t) = fi_delay_ms t" "fi_drop_rate (set_drop_outbound_to b e t) = fi_drop_rate t"
  by (simp_all add: set_drop_outbound_to_def)

lemma partition_drops:
  assumes "Find fc a = Some p" "Find fc b = Some q"
  shows "peer_node_id peer = b \<Longrightarrow> FaultInjectingTransport_SendRpc getaddrinfo draw wos reads (rpc_of fc (partition_nodes fc a b True st) a) peer req k
      = Some (0, Inl (Status_Error ErrorCode_kIOError ''fault injection: outbound RPC dropped''), k)"
    and "peer_node_id peer = a \<Longrightarrow> FaultInjectingTransport_SendRpc getaddrinfo draw wos reads (rpc_of fc (partition_nodes fc a b True st) b) peer req k
      = Some (0, Inl (Status_Error ErrorCode_kIOError ''fault injection: outbound RPC dropped''), k)"
    and "peer_node_id peer \<notin> {a, b} \<Longrightarrow> FaultInjectingTransport_SendRpc getaddrinfo draw wos reads (rpc_of fc (partition_nodes fc a b True st) c) peer req k
      = FaultInjectingTransport_SendRpc getaddrinfo draw wos reads (rpc_of fc st c) peer req k"
  using assms by (auto simp: partition_nodes_def rpc_of_def Let_def FaultInjectingTransport_SendRpc_def)

lemma set_drop_undo: "b \<notin> fi_dropped_peers t \<Longrightarrow> set_drop_outbound_to b False (set_drop_outbound_to b True t) = t"
  by (cases t) (simp add: set_drop_outbound_to_def)

lemma partition_heals:
  assumes "Find fc a = Some p" "Find fc b = Some q" "p \<noteq> q" "b \<notin> fi_dropped_peers (st p)" "a \<notin> fi_dropped_peers (st q)"
  shows "partition_nodes fc a b False (partition_nodes fc a b True st) = st"
  using assms set_drop_undo [of b "st p"] set_drop_undo [of a "st q"] by (auto simp: partition_nodes_def Let_def fun_eq_iff)

lemma clear_faults_heals: "Find fc a = Some p \<Longrightarrow> rpc_of fc (controller_clear_faults fc st) a = transport_clear_faults (st p)"
  by (auto simp: rpc_of_def controller_clear_faults_def Find_def ran_def)

end
