(* ===== verification/Linearizability_Checker.thy ===== *)
theory Linearizability_Checker
  imports NKV_Prelude "HOL-Library.Multiset"
begin

text \<open>
  \<^verbatim>\<open>testing/linearizability_checker.h\<close>: the checker of the fault-injection tests, for the history of one key. It judges each read on its own against the writes. A pointer to an
  operation is its index in the history. The reference is linearizability itself: one order of all operations that respects real time and in which every
  read returns the value of the last write before it.
\<close>

section \<open>The checker\<close>

datatype Kind = Kind_kSet | Kind_kGet

record LinearizabilityOp =
  lin_client_id :: int
  lin_kind :: Kind
  lin_value :: string
  lin_ok :: bool
  lin_start :: u64
  lin_end :: u64

record LinearizabilityChecker =
  lc_history :: "LinearizabilityOp list"

definition LinearizabilityChecker_Record :: "LinearizabilityOp \<Rightarrow> LinearizabilityChecker \<Rightarrow> LinearizabilityChecker" where
  "LinearizabilityChecker_Record op lc = lc\<lparr>lc_history := lc_history lc @ [op]\<rparr>"

text \<open>The writes that completed, each with its index.\<close>

definition completed_sets :: "LinearizabilityOp list \<Rightarrow> (nat \<times> LinearizabilityOp) list" where
  "completed_sets history = filter (\<lambda>(_, op). lin_kind op = Kind_kSet \<and> lin_ok op) (enumerate 0 history)"

definition ever_written :: "(nat \<times> LinearizabilityOp) list \<Rightarrow> LinearizabilityOp \<Rightarrow> bool" where
  "ever_written sets g \<longleftrightarrow> list_ex (\<lambda>(_, s). lin_value s = lin_value g) sets"

definition is_candidate :: "LinearizabilityOp \<Rightarrow> LinearizabilityOp \<Rightarrow> bool" where
  "is_candidate w g \<longleftrightarrow> lin_end w \<le> lin_start g \<or> (lin_start w < lin_end g \<and> lin_end w > lin_start g)"

definition superseded :: "(nat \<times> LinearizabilityOp) list \<Rightarrow> nat \<times> LinearizabilityOp \<Rightarrow> LinearizabilityOp \<Rightarrow> bool" where
  "superseded sets w g \<longleftrightarrow>
     list_ex (\<lambda>(i2, w2). i2 \<noteq> fst w \<and> lin_end (snd w) \<le> lin_start w2 \<and> lin_end w2 \<le> lin_start g) sets"

definition valid_read :: "(nat \<times> LinearizabilityOp) list \<Rightarrow> LinearizabilityOp \<Rightarrow> bool" where
  "valid_read sets g \<longleftrightarrow>
     list_ex (\<lambda>w. lin_value (snd w) = lin_value g \<and> is_candidate (snd w) g \<and> \<not> superseded sets w g) sets"

fun Check_loop :: "(nat \<times> LinearizabilityOp) list \<Rightarrow> LinearizabilityOp list \<Rightarrow> string" where
  "Check_loop sets [] = ''''"
| "Check_loop sets (g # history) =
     (if lin_kind g \<noteq> Kind_kGet \<or> \<not> lin_ok g then Check_loop sets history
      else if \<not> ever_written sets g then
        ''client '' @ int_string (lin_client_id g) @ '' GET returned a value never written: '' @ [CHR 0x27] @ lin_value g @ [CHR 0x27]
      else if \<not> valid_read sets g then
        ''client '' @ int_string (lin_client_id g) @ '' GET returned stale value '' @ [CHR 0x27] @ lin_value g @ [CHR 0x27]
      else Check_loop sets history)"

definition LinearizabilityChecker_Check :: "LinearizabilityChecker \<Rightarrow> string" where
  "LinearizabilityChecker_Check lc = Check_loop (completed_sets (lc_history lc)) (lc_history lc)"

section \<open>Linearizability\<close>

text \<open>The operations of a history that completed, and whether one was over before the other began.\<close>

definition writes :: "LinearizabilityOp list \<Rightarrow> LinearizabilityOp list" where
  "writes h = filter (\<lambda>op. lin_kind op = Kind_kSet) (filter lin_ok h)"

definition reads :: "LinearizabilityOp list \<Rightarrow> LinearizabilityOp list" where
  "reads h = filter (\<lambda>op. lin_kind op = Kind_kGet) (filter lin_ok h)"

definition precedes :: "LinearizabilityOp \<Rightarrow> LinearizabilityOp \<Rightarrow> bool" where
  "precedes a b \<longleftrightarrow> lin_end a \<le> lin_start b"

definition timed :: "LinearizabilityOp list \<Rightarrow> bool" where
  "timed h \<longleftrightarrow> list_all (\<lambda>op. lin_start op < lin_end op) h"

text \<open>A register: no value can be read before the first write.\<close>

fun legal :: "string option \<Rightarrow> LinearizabilityOp list \<Rightarrow> bool" where
  "legal cur [] \<longleftrightarrow> True"
| "legal cur (op # ops) \<longleftrightarrow>
     (case lin_kind op of Kind_kSet \<Rightarrow> legal (Some (lin_value op)) ops | Kind_kGet \<Rightarrow> cur = Some (lin_value op) \<and> legal cur ops)"

definition realtime :: "LinearizabilityOp list \<Rightarrow> bool" where
  "realtime ops \<longleftrightarrow> sorted_wrt (\<lambda>a b. \<not> precedes b a) ops"

definition linearizes :: "string option \<Rightarrow> LinearizabilityOp list \<Rightarrow> LinearizabilityOp list \<Rightarrow> bool" where
  "linearizes cur h ops \<longleftrightarrow> mset ops = mset h \<and> realtime ops \<and> legal cur ops"

definition linearizable :: "LinearizabilityOp list \<Rightarrow> bool" where
  "linearizable h \<longleftrightarrow> (\<exists>ops. linearizes None h ops)"

lemma linearizableI: "mset ops = mset h \<Longrightarrow> realtime ops \<Longrightarrow> legal None ops \<Longrightarrow> linearizable h"
  by (auto simp: linearizable_def linearizes_def)

lemma linearizableE:
  assumes "linearizable h"
  obtains ops where "mset ops = mset h" "realtime ops" "legal None ops"
  using assms by (auto simp: linearizable_def linearizes_def)

text \<open>The search for such an order.\<close>

function linearizable_from :: "string option \<Rightarrow> LinearizabilityOp list \<Rightarrow> bool" where
  "linearizable_from cur h \<longleftrightarrow> h = [] \<or>
     (\<exists>x \<in> set h. (\<forall>y \<in> set (remove1 x h). \<not> precedes y x) \<and>
        (case lin_kind x of
           Kind_kSet \<Rightarrow> linearizable_from (Some (lin_value x)) (remove1 x h)
         | Kind_kGet \<Rightarrow> cur = Some (lin_value x) \<and> linearizable_from cur (remove1 x h)))"
  by pat_completeness auto
termination
  by (relation "measure (length \<circ> snd)") (auto simp: length_remove1 dest: length_pos_if_in_set)

declare linearizable_from.simps [simp del]

lemma linearizes_Nil: "linearizes cur [] ops \<longleftrightarrow> ops = []"
  by (auto simp: linearizes_def realtime_def)

lemma linearizes_Cons:
  "linearizes cur h (x # ops) \<longleftrightarrow> x \<in> set h \<and> (\<forall>y \<in> set (remove1 x h). \<not> precedes y x) \<and>
     (case lin_kind x of Kind_kSet \<Rightarrow> linearizes (Some (lin_value x)) (remove1 x h) ops
      | Kind_kGet \<Rightarrow> cur = Some (lin_value x) \<and> linearizes cur (remove1 x h) ops)"
proof -
  have m: "mset (x # ops) = mset h \<longleftrightarrow> x \<in> set h \<and> mset ops = mset (remove1 x h)"
    by (metis add_mset_remove_trivial insert_DiffM mset.simps(2) mset_remove1 set_mset_mset union_single_eq_member)
  have "set ops = set (remove1 x h)" if "mset ops = mset (remove1 x h)" using that mset_eq_setD by blast
  then show ?thesis unfolding linearizes_def m by (auto simp: realtime_def split: Kind.split)
qed

lemma linearizable_decided: "linearizable h \<longleftrightarrow> linearizable_from None h"
proof -
  have "(\<exists>ops. linearizes cur h ops) \<longleftrightarrow> linearizable_from cur h" for cur
  proof (induction cur h rule: linearizable_from.induct)
    case (1 cur h)
    show ?case
    proof (cases "h = []")
      case False
      then have "(\<exists>ops. linearizes cur h ops) \<longleftrightarrow> (\<exists>x ops. linearizes cur h (x # ops))"
        by (metis linearizes_def list.exhaust mset.simps(1) mset_zero_iff)
      also have "\<dots> \<longleftrightarrow> (\<exists>x \<in> set h. (\<forall>y \<in> set (remove1 x h). \<not> precedes y x) \<and>
          (case lin_kind x of Kind_kSet \<Rightarrow> linearizable_from (Some (lin_value x)) (remove1 x h)
           | Kind_kGet \<Rightarrow> cur = Some (lin_value x) \<and> linearizable_from cur (remove1 x h)))" (is "_ \<longleftrightarrow> (\<exists>x \<in> set h. ?rest x)")
      proof -
        have "(\<exists>ops. linearizes cur h (x # ops)) \<longleftrightarrow> x \<in> set h \<and> ?rest x" for x
          unfolding linearizes_Cons using "1.IH" [of x] by (cases "lin_kind x") auto
        then show ?thesis by blast
      qed
      also have "\<dots> \<longleftrightarrow> linearizable_from cur h" using False by (simp add: linearizable_from.simps [of cur h])
      finally show ?thesis .
    qed (simp add: linearizes_Nil linearizable_from.simps)
  qed
  then show ?thesis by (simp add: linearizable_def)
qed

section \<open>One read against the writes\<close>

text \<open>What the checker demands of a read, without indices: when every operation takes time, none supersedes itself.\<close>

definition explained :: "LinearizabilityOp list \<Rightarrow> LinearizabilityOp \<Rightarrow> bool" where
  "explained ws g \<longleftrightarrow> (\<exists>w \<in> set ws. lin_value w = lin_value g \<and> \<not> precedes g w \<and> \<not> (\<exists>w2 \<in> set ws. precedes w w2 \<and> precedes w2 g))"

lemma timed_op: "timed h \<Longrightarrow> op \<in> set h \<Longrightarrow> lin_start op < lin_end op"
  by (auto simp: timed_def list_all_iff)

lemma completed_sets_in: "(i, w) \<in> set (completed_sets h) \<longleftrightarrow> i < length h \<and> w = h ! i \<and> lin_kind w = Kind_kSet \<and> lin_ok w"
  by (auto simp: completed_sets_def in_set_enumerate_eq)

lemma completed_sets_writes: "w \<in> set (writes h) \<longleftrightarrow> (\<exists>i. (i, w) \<in> set (completed_sets h))"
  unfolding completed_sets_in writes_def by (auto simp: in_set_conv_nth)

lemma list_ex_sets: "list_ex P xs \<longleftrightarrow> (\<exists>i w. (i, w) \<in> set xs \<and> P (i, w))"
  by (auto simp: list_ex_iff)

lemma superseded_iff:
  assumes "timed h" "(i, w) \<in> set (completed_sets h)"
  shows "superseded (completed_sets h) (i, w) g \<longleftrightarrow> (\<exists>w2 \<in> set (writes h). precedes w w2 \<and> precedes w2 g)"
proof -
  have "\<not> precedes w w" using timed_op [OF assms(1), of w] assms(2) by (auto simp: completed_sets_in precedes_def)
  then have "j \<noteq> i" if "(j, w2) \<in> set (completed_sets h)" "precedes w w2" for j w2
    using that assms(2) by (auto simp: completed_sets_in)
  then show ?thesis
    unfolding superseded_def list_ex_sets completed_sets_writes Bex_def prod.case fst_conv snd_conv precedes_def [symmetric] by blast
qed

lemma is_candidate_iff: "lin_start w < lin_end w \<Longrightarrow> lin_start g < lin_end g \<Longrightarrow> is_candidate w g \<longleftrightarrow> \<not> precedes g w"
  by (auto simp: is_candidate_def precedes_def)

lemma valid_read_explained:
  assumes "timed h" "g \<in> set h"
  shows "valid_read (completed_sets h) g \<longleftrightarrow> explained (writes h) g"
proof -
  have "is_candidate w g \<longleftrightarrow> \<not> precedes g w" if "(i, w) \<in> set (completed_sets h)" for i w
    using is_candidate_iff timed_op assms that by (auto simp: completed_sets_in)
  then have "(lin_value w = lin_value g \<and> is_candidate w g \<and> \<not> superseded (completed_sets h) (i, w) g)
      \<longleftrightarrow> (lin_value w = lin_value g \<and> \<not> precedes g w \<and> \<not> (\<exists>w2 \<in> set (writes h). precedes w w2 \<and> precedes w2 g))"
    if "(i, w) \<in> set (completed_sets h)" for i w
    using superseded_iff [OF assms(1) that, of g] that by blast
  then show ?thesis
    unfolding valid_read_def explained_def list_ex_sets snd_conv by (simp add: completed_sets_writes Bex_def cong: conj_cong) blast
qed

lemma explained_written: "explained (writes h) g \<Longrightarrow> ever_written (completed_sets h) g"
  unfolding explained_def ever_written_def list_ex_sets completed_sets_writes Bex_def prod.case by blast

lemma Check_iff:
  assumes "timed h"
  shows "LinearizabilityChecker_Check \<lparr>lc_history = h\<rparr> = '''' \<longleftrightarrow> list_all (explained (writes h)) (reads h)"
proof -
  have "Check_loop (completed_sets h) gs = '''' \<longleftrightarrow> list_all (explained (writes h)) (reads gs)" if "set gs \<subseteq> set h" for gs
    using that
  proof (induction gs)
    case (Cons g gs)
    then show ?case
      using valid_read_explained [OF assms, of g] explained_written [of h g] by (cases "lin_kind g") (auto simp: reads_def)
  qed (simp add: reads_def)
  then show ?thesis by (simp add: LinearizabilityChecker_Check_def)
qed

text \<open>Legal sequences.\<close>

lemma legal_sets: "list_all (\<lambda>op. lin_kind op = Kind_kSet) ops \<Longrightarrow> legal cur ops"
  by (induction ops arbitrary: cur) simp_all

lemma legal_read_after:
  "list_all (\<lambda>op. lin_kind op = Kind_kSet) pre \<Longrightarrow> lin_kind g = Kind_kGet \<Longrightarrow> legal cur (pre @ g # post) \<Longrightarrow>
     (if pre = [] then cur else Some (lin_value (last pre))) = Some (lin_value g)"
  by (induction pre arbitrary: cur) auto

lemma legal_one_read:
  "list_all (\<lambda>op. lin_kind op = Kind_kSet) (pre @ w # post) \<Longrightarrow> lin_kind g = Kind_kGet \<Longrightarrow> lin_value w = lin_value g \<Longrightarrow> legal cur (pre @ w # g # post)"
  by (induction pre arbitrary: cur) (simp_all add: legal_sets)

lemma legal_drop_reads:
  "lin_kind g = Kind_kGet \<Longrightarrow> legal cur (pre @ g # post) \<Longrightarrow>
     legal cur (filter (\<lambda>op. lin_kind op = Kind_kSet) pre @ g # filter (\<lambda>op. lin_kind op = Kind_kSet) post)"
proof (induction pre arbitrary: cur)
  case Nil
  have "list_all (\<lambda>op. lin_kind op = Kind_kSet) (filter (\<lambda>op. lin_kind op = Kind_kSet) post)" by (simp add: list_all_iff)
  then show ?case using Nil legal_sets by simp
next
  case (Cons op pre)
  then show ?case by (cases "lin_kind op") auto
qed

section \<open>The order of a read among the writes\<close>

lemma realtime_sorted: "timed ops \<Longrightarrow> realtime (sort_key lin_start ops)"
  unfolding realtime_def
  by (rule sorted_wrt_mono_rel [OF _ sorted_sort_key [unfolded sorted_map]])
    (force simp: precedes_def dest: timed_op)

lemma realtime_append: "realtime (as @ bs) \<longleftrightarrow> realtime as \<and> realtime bs \<and> (\<forall>a \<in> set as. \<forall>b \<in> set bs. \<not> precedes b a)"
  by (simp add: realtime_def sorted_wrt_append)

lemma realtime_Cons: "realtime (a # bs) \<longleftrightarrow> (\<forall>b \<in> set bs. \<not> precedes b a) \<and> realtime bs"
  by (simp add: realtime_def)

text \<open>
  From an explanation to an order: first the writes that were over before the read or the explaining write began, then that write, the read, and all others.
\<close>

lemma explained_linearizable:
  assumes "timed (g # ws)" "list_all (\<lambda>op. lin_kind op = Kind_kSet) ws" "lin_kind g = Kind_kGet" "explained ws g"
  shows "linearizable (ws @ [g])"
proof -
  obtain w where w: "w \<in> set ws" "lin_value w = lin_value g" "\<not> precedes g w" "\<And>s. s \<in> set ws \<Longrightarrow> precedes w s \<Longrightarrow> \<not> precedes s g"
    using assms(4) by (auto simp: explained_def)
  let ?P = "\<lambda>s. precedes s g \<or> precedes s w" and ?ws = "remove1 w ws"
  let ?pre = "sort_key lin_start (filter ?P ?ws)" and ?post = "sort_key lin_start (filter (\<lambda>s. \<not> ?P s) ?ws)"
  have t: "lin_start s < lin_end s" if "s = g \<or> s \<in> set ws" for s using that timed_op [OF assms(1), of s] by auto
  have sub: "s \<in> set ws" if "s \<in> set ?ws" for s using that set_remove1_subset [of w ws] by blast
  have parts: "timed (filter ?P ?ws)" "timed (filter (\<lambda>s. \<not> ?P s) ?ws)" using t sub by (auto simp: timed_def list_all_iff)
  have trans: "precedes a c" if "precedes a b" "precedes b c" "b \<in> set ws" for a b c
    using that t [of b] by (auto simp: precedes_def)
  have irrefl: "\<not> precedes w w" "\<not> precedes g g" using t [of w] t [of g] w(1) by (auto simp: precedes_def)
  have after_w: "\<not> precedes w x" if "x \<in> set ws" "?P x" for x
    using that trans [of w x w] w(4) [of x] irrefl(1) by auto
  have after_g: "\<not> precedes g x" if "x \<in> set ws" "?P x" for x
    using that trans [of g x g] trans [of g x w] w(3) irrefl(2) by auto
  have after: "\<not> precedes y x" if "x \<in> set ws" "?P x" "\<not> ?P y" for x y
    using that trans [of y x g] trans [of y x w] by auto
  have "realtime (?pre @ w # g # ?post)"
    unfolding realtime_append realtime_Cons
    using realtime_sorted [OF parts(1)] realtime_sorted [OF parts(2)] after_w after_g after w(3) sub by auto
  moreover have "legal None (?pre @ w # g # ?post)"
    by (rule legal_one_read) (use assms(2,3) w(1,2) sub in \<open>auto simp: list_all_iff\<close>)
  moreover have "mset (?pre @ w # g # ?post) = mset (ws @ [g])"
  proof -
    have "mset ?pre + mset ?post = mset ?ws" using multiset_partition [of "mset ?ws" ?P] by (simp add: mset_filter del: mset_remove1)
    then have "mset (?pre @ w # g # ?post) = add_mset g (add_mset w (mset ?ws))" by (simp del: mset_remove1 mset_sort)
    then show ?thesis using w(1) by simp
  qed
  ultimately show ?thesis by (intro linearizableI [of "?pre @ w # g # ?post"])
qed

lemma linearizable_explained:
  assumes "timed (g # ws)" "list_all (\<lambda>op. lin_kind op = Kind_kSet) ws" "lin_kind g = Kind_kGet" "linearizable (ws @ [g])"
  shows "explained ws g"
proof -
  obtain ops where ops: "mset ops = mset (ws @ [g])" "realtime ops" "legal None ops" using assms(4) by (rule linearizableE)
  then have "g \<in> set ops" using mset_eq_setD [OF ops(1)] by simp
  then obtain pre post where split: "ops = pre @ g # post" by (meson split_list)
  then have "mset (pre @ post) = mset ws" using ops(1) by simp
  then have ws: "set ws = set pre \<union> set post" using mset_eq_setD [of "pre @ post" ws] by simp
  then have "list_all (\<lambda>op. lin_kind op = Kind_kSet) pre" using assms(2) by (simp add: list_all_iff)
  from legal_read_after [OF this assms(3) ops(3) [unfolded split]]
  have "pre \<noteq> []" "lin_value (last pre) = lin_value g" by (auto split: if_splits)
  then obtain p w where p: "pre = p @ [w]" "lin_value w = lin_value g" by (metis append_butlast_last_id)
  note rt = ops(2) [unfolded split p(1) realtime_append realtime_Cons]
  have "\<not> precedes w w" using timed_op [OF assms(1), of w] ws p(1) by (auto simp: precedes_def)
  then have "\<not> (precedes w w2 \<and> precedes w2 g)" if "w2 \<in> set ws" for w2
    using that ws rt p(1) by auto
  then show ?thesis using p ws rt by (auto simp: explained_def)
qed

text \<open>A history keeps its order when all but one of its reads are left out.\<close>

lemma linearizable_one_read:
  assumes "linearizable (filter lin_ok h)" "g \<in> set (reads h)"
  shows "linearizable (writes h @ [g])"
proof -
  let ?set = "\<lambda>op. lin_kind op = Kind_kSet"
  have g: "lin_kind g = Kind_kGet" "g \<in> set (filter lin_ok h)" using assms(2) by (auto simp: reads_def)
  obtain ops where ops: "mset ops = mset (filter lin_ok h)" "realtime ops" "legal None ops" using assms(1) by (rule linearizableE)
  then have "g \<in> set ops" using g(2) mset_eq_setD by blast
  then obtain pre post where split: "ops = pre @ g # post" by (meson split_list)
  have "mset (filter ?set ops) = mset (writes h)" unfolding writes_def by (simp only: mset_filter ops(1))
  then have "mset (filter ?set pre @ g # filter ?set post) = mset (writes h @ [g])" using split g(1) by simp
  moreover have "realtime (filter ?set pre @ g # filter ?set post)"
    using ops(2) unfolding split realtime_append realtime_Cons by (auto simp: realtime_def sorted_wrt_filter)
  moreover have "legal None (filter ?set pre @ g # filter ?set post)" using legal_drop_reads [OF g(1)] ops(3) split by simp
  ultimately show ?thesis by (rule linearizableI)
qed

lemma explained_iff:
  assumes "timed h" "g \<in> set (reads h)"
  shows "explained (writes h) g \<longleftrightarrow> linearizable (writes h @ [g])"
proof -
  have "timed (g # writes h)" "list_all (\<lambda>op. lin_kind op = Kind_kSet) (writes h)" "lin_kind g = Kind_kGet"
    using assms by (auto simp: timed_def list_all_iff reads_def writes_def)
  then show ?thesis using explained_linearizable linearizable_explained by blast
qed

section \<open>Properties\<close>

text \<open>
  C40. What the checker decides. For every history whose operations take time, \<^verbatim>\<open>Check\<close> reports no violation exactly if each successful read, taken alone together with all successful
  writes, can be put in an order that respects real time and in which the read returns the value of the last write before it. So a history that is linearizable never
  fails the check.
\<close>

theorem checker_decides_single_reads:
  assumes "timed h"
  shows "(LinearizabilityChecker_Check \<lparr>lc_history = h\<rparr> = '''' \<longleftrightarrow> list_all (\<lambda>g. linearizable (writes h @ [g])) (reads h))
    \<and> (linearizable (filter lin_ok h) \<longrightarrow> LinearizabilityChecker_Check \<lparr>lc_history = h\<rparr> = '''')"
  using Check_iff [OF assms] explained_iff [OF assms] linearizable_one_read by (auto simp: list_all_iff)

text \<open>A write, then a write that overlaps two reads, the first of which sees the new and the second the old value.\<close>

definition inverted_reads :: "LinearizabilityOp list" where
  "inverted_reads =
     [\<lparr>lin_client_id = 1, lin_kind = Kind_kSet, lin_value = ''a'', lin_ok = True, lin_start = 0, lin_end = 1\<rparr>,
      \<lparr>lin_client_id = 1, lin_kind = Kind_kSet, lin_value = ''b'', lin_ok = True, lin_start = 2, lin_end = 7\<rparr>,
      \<lparr>lin_client_id = 2, lin_kind = Kind_kGet, lin_value = ''b'', lin_ok = True, lin_start = 3, lin_end = 4\<rparr>,
      \<lparr>lin_client_id = 2, lin_kind = Kind_kGet, lin_value = ''a'', lin_ok = True, lin_start = 5, lin_end = 6\<rparr>]"

theorem checker_decides_single_reads_witness:
  "list_all (\<lambda>g. linearizable (writes inverted_reads @ [g])) (reads inverted_reads)"
proof -
  have "LinearizabilityChecker_Check \<lparr>lc_history = inverted_reads\<rparr> = ''''" by code_simp
  moreover have "timed inverted_reads" by code_simp
  ultimately show ?thesis using checker_decides_single_reads by blast
qed

text \<open>
  The check is weaker than linearizability. A history in which one client reads a new value and then the old one, while the write of the new value is still running, passes the check,
  although no order of its operations explains it; and a write that was reported as failed but took effect makes the check fail, since it ignores
  failed writes.
\<close>

lemma checker_misses_inverted_reads:
  "LinearizabilityChecker_Check \<lparr>lc_history = inverted_reads\<rparr> = '''' \<and> \<not> linearizable inverted_reads
   \<and> LinearizabilityChecker_Check \<lparr>lc_history = inverted_reads[1 := (inverted_reads ! 1)\<lparr>lin_ok := False\<rparr>]\<rparr>
       = ''client 2 GET returned a value never written: '' @ [CHR 0x27] @ ''b'' @ [CHR 0x27]"
  unfolding linearizable_decided by code_simp

end
