(* ===== verification/Spec2Isabelle.thy ===== *)
theory Spec2Isabelle
  imports Protocol_Codec Group_Commit Wal_Handle Cluster_Config Raft_Safety Raft_Stale_Commit Raft_Lost_Write Raft_Restart
    Server_Program Bench_Program Fault_Injection Linearizability_Checker
begin

text \<open>
  A verification library for NeuralKV, a key-value store that is kept in memory, logged to disk and replicated with Raft.

  \<^bold>\<open>The program and the theories.\<close> Paths are relative to \<^verbatim>\<open>src/src\<close> unless they begin with \<^verbatim>\<open>tools\<close>. Definitions have the names of the sources: a
  method \<^verbatim>\<open>m\<close> of a class \<^verbatim>\<open>C\<close> is \<open>C_m\<close> or just \<open>m\<close>, an enumerator \<^verbatim>\<open>kX\<close> of \<^verbatim>\<open>E\<close> is \<open>E_kX\<close>, a loop inside a function has the function's name and a suffix.

  \<^item> \<open>NKV_Prelude\<close> (\<^verbatim>\<open>common/status\<close>, \<^verbatim>\<open>common/result.h\<close>): machine integers as words, bytes, \<open>Status\<close>, \<open>Result\<close> as a sum type, decimal numbers,
    and the lemma collections. \<open>Big_Endian\<close>: the integer readers and writers that \<^verbatim>\<open>protocol/codec.cpp\<close>, \<^verbatim>\<open>persistence/wal_record.cpp\<close>,
    \<^verbatim>\<open>raft/rpc_codec.cpp\<close> and \<^verbatim>\<open>raft/node.cpp\<close> each define. \<open>Posix_IO\<close>: the loops around \<^verbatim>\<open>read\<close> and \<^verbatim>\<open>write\<close>. \<open>Double_Rounding\<close>: rounding to 53 bits.
  \<^item> \<open>Protocol_Codec\<close> (\<^verbatim>\<open>protocol\<close>): the four kinds of frames, their encoders and decoders, and \<^verbatim>\<open>TryParseFrame\<close>.
  \<^item> \<open>Crc32\<close>, \<open>Wal_Record\<close>, \<open>Wal_Writer\<close>, \<open>Wal_Handle\<close>, \<open>Durable_Storage\<close>, \<open>Storage_Calls\<close>, \<open>Group_Commit\<close> (\<^verbatim>\<open>persistence\<close>): the checksum, the log on disk,
    its reader and writer, who owns its descriptor, recovery, and \<^verbatim>\<open>Set\<close>, \<^verbatim>\<open>Get\<close> and \<^verbatim>\<open>Delete\<close>, called by one thread and by any number of threads at once.
  \<^item> \<open>Sharded_KV\<close> (\<^verbatim>\<open>storage/sharded_kv\<close>): the store in memory.
  \<^item> \<open>Cluster_Config\<close>, \<open>Cluster_Transport\<close> (\<^verbatim>\<open>cluster\<close>): the configuration file, and \<^verbatim>\<open>SendRpc\<close> with its cache of connections.
  \<^item> \<open>Raft_Rpc_Codec\<close>, \<open>Raft_Log\<close>, \<open>Raft_Node\<close> (\<^verbatim>\<open>raft\<close>): the RPC bodies, the log, and every method of the node, a function for each critical section.
    \<open>Raft_Node_Facts\<close> says what each does to term, vote and log. \<open>Raft_Cluster\<close> is a cluster of such nodes with its messages, crashes and restarts;
    \<open>Raft_Protocol\<close> is the abstract protocol, \<open>Raft_Refinement\<close> the simulation between the two, \<open>Raft_Safety\<close> and \<open>Raft_Replicas\<close> what follows for logs and for
    stores. \<open>Raft_Scenario\<close> is one execution in full, which \<open>Raft_Stale_Commit\<close>, \<open>Raft_Lost_Write\<close> and \<open>Raft_Restart\<close> continue.
  \<^item> \<open>Request_Handler\<close>, \<open>Server_Session\<close>, \<open>Tcp_Servers\<close> (\<^verbatim>\<open>server\<close>): what a request does, a session with a client, and the blocking and thread-pool servers.
    \<open>Thread_Pool\<close> (\<^verbatim>\<open>concurrency\<close>): workers, queue and notifications.
  \<^item> \<open>Socket_Utils\<close>, \<open>Net_Connection\<close>, \<open>Epoll_Server\<close> (\<^verbatim>\<open>net\<close>): opening sockets over a table of descriptors, the state machine of a non-blocking connection, the
    event loop.
  \<^item> \<open>Server_Program\<close>, \<open>Client_Program\<close>, \<open>Bench_Program\<close> (\<^verbatim>\<open>tools/nkv-server\<close>, \<^verbatim>\<open>tools/nkv-client\<close>, \<^verbatim>\<open>tools/nkv-bench\<close>): the three programs with their arguments,
    exit codes and output.
  \<^item> \<open>Fault_Injection\<close>, \<open>Linearizability_Checker\<close> (\<^verbatim>\<open>testing\<close>): the transport that drops calls, and the checker of recorded histories.

  \<^bold>\<open>How the parts interact.\<close> A client program encodes a request and writes it to a socket. A session or the event loop parses frames from what it reads and
  gives each to \<open>Handle\<close>. Without a cluster the handler calls the durable storage, which appends a record to the write-ahead log, waits for a sync that covers it, and applies
  it to the sharded store. In a cluster it asks the Raft node to propose an entry; the node logs it, sends it to its peers with \<open>SendRpc\<close>, and applies it once a majority
  has it; the peers' sessions hand cluster requests to \<open>HandleCluster\<close> and so to the node's handlers. The theorems compose along this path: codecs give frames, frames give
  requests, requests give calls of a map, and the log on disk gives the map back after a crash.

  \<^bold>\<open>State and effects.\<close> A class is a record of its members; a method is a function that returns the updated record. An error is a value: \<open>Inl\<close> of a status, or a
  constructor of the program's outcome for an exception nobody catches. System calls take their outcomes from a list in the state of the descriptor or object
  (success, an error number, an interruption, the length of a short transfer); when the list is empty they succeed. Clock readings, random numbers, the hash, name
  resolution and the other side of a connection are arguments. Code that runs concurrently is a step relation on the critical sections of its mutex: \<open>gc_step\<close>,
  \<open>pool_step\<close> with \<open>caller_step\<close>, and \<open>cluster_step\<close>. A call that would wait for ever returns \<open>None\<close>.

  \<^bold>\<open>Interfaces.\<close> Each is a locale, interpreted on the model's own definitions: \<open>kv_store\<close> (an implementation of a map; \<open>sharded\<close>), \<open>wire_format\<close> (a reader that inverts a
  writer; the fields and entries of RPC bodies), \<open>quorums\<close> (intersecting sets of nodes; \<open>maj\<close>), \<open>client_service\<close> (a handler that answers like a map; \<open>local_node\<close>),
  \<open>descriptor_opener\<close> (a call that opens at most what it returns; \<open>listener\<close>, \<open>dialer\<close>), \<open>rpc_transport\<close> (a call that keeps the descriptor table; \<open>tcp_transport\<close>,
  \<open>faulty_transport\<close>), \<open>answering_peer\<close> (a peer that answers every request; \<open>node_peer\<close>, \<open>stubborn\<close>).

  \<^bold>\<open>What is shown.\<close>
  \<^item> Formats: the frame codec is a bijection with the parser, RPC bodies round-trip, the Raft log reloads as what its operations made of it, replay returns the records written before a torn tail, and damage of
    up to four adjacent bytes of the checksum or of what it covers is reported.
  \<^item> Storage: the sharded store is a map; acknowledged writes survive a crash and are applied in log order under every interleaving; the waiting writers cannot block each other as
    long as no sync fails, and do so for ever once one has failed.
  \<^item> Raft: election safety, log matching, leader completeness, agreement on committed entries, the refinement of the abstract protocol, and that the stores
    of all nodes go through the same maps. Leader completeness, agreement, the commit index in the refinement and the statement on stores exclude what breaks them: read-confirmation rounds and, for the stores, restarts. An
    execution for each of the two, and one for \<^verbatim>\<open>Propose\<close>, show committed entries that differ, stores that differ for good, and an acknowledged write that is lost.
  \<^item> Servers: a single node is a durable map for its handler, for a TCP session and for the whole blocking server; blocking sessions and event-driven connections agree; the
    event loop keeps its descriptors and its registered interest in order; the pool runs every task once, in order, within a bounded number of steps; no call leaks a
    descriptor.
  \<^item> Programs: a command of the client on a single node exits and prints what a map says; the server runs only on a checked configuration and recovered files; the load
    generator's reads hit and its percentiles are the latencies at the ranks they name; the checker accepts exactly the histories whose reads are linearizable one by one.

  \<^bold>\<open>Bounds and fuel.\<close> No definition has fuel. Loops over input recurse on the bytes, the system-call outcomes or a measure on both, and have termination proofs. Indices
  and terms are 64-bit words; where a proof needs that they do not wrap, the step relation or a hypothesis says that fewer than \<open>2 ^ 64\<close> entries exist, which no
  machine exceeds. The percentiles are exact for up to \<open>2 ^ 46\<close> latencies; beyond that nothing is
  said of how the doubles round.

  \<^bold>\<open>Not modelled.\<close>
  \<^item> Installing the signal handlers and printing the bound port in \<^verbatim>\<open>tools/nkv-server/main.cpp\<close>: calls with no effect on the modelled state.
  \<^item> The requests of several sessions of the thread-pool server are serialised: the interleaving of storage calls is \<open>Group_Commit\<close>, that of the pool's threads is
    \<open>Thread_Pool\<close>, and the two are not joined in one state.
  \<^item> Stops of a cluster node inside a critical section, and failing system calls on its files: both can cost a node entries it has acknowledged (\<open>rewrite_stopped_loses_log\<close> of \<open>Raft_Log\<close>). The
    single-node store is shown to survive a stop at any moment; only a torn record that is written over is excluded.
  \<^item> The exception of a failed allocation, in \<^verbatim>\<open>DecodeAppendEntriesRequest\<close> and elsewhere.
  \<^item> Time: timeouts are readings of a clock that is an argument; nothing is shown about fairness or that an election ends.
  \<^item> The decimal notation of the rate that \<^verbatim>\<open>tools/nkv-bench\<close> prints: the report holds its numerator and denominator.
  \<^item> Declarations in headers, getters under a lock, and the second and third copies of the big-endian helpers, which have the definitions of their first copy.
  \<^item> The micro-benchmarks and shell scripts, which only time or start the code above.
\<close>

end
